(* ===== verification/Prelude.thy ===== *)
theory Prelude
  imports Main "HOL-Library.Word"
begin

text \<open>
  Types and facts the components share: bytes, the unsigned words of the C code, byte
  buffers as total functions from an index to a byte (so that a read past the part of a
  buffer that was written gives some byte, as it does in C, and never a chosen one), and
  the set of bits a buffer of a given size represents.
\<close>

unbundle bit_operations_syntax

section \<open>Machine types\<close>

type_synonym byte = "8 word"

type_synonym u32 = "32 word"

text \<open>An \<open>unsigned char *\<close> whose pointee the code indexes.\<close>

type_synonym mem = "nat \<Rightarrow> byte"

named_theorems bitvec_simps "bit-level characterisations of the bit vector operations"

section \<open>Bits of a byte buffer\<close>

text \<open>Bit \<open>n\<close> of a buffer is bit \<open>n & 7\<close> of byte \<open>n >> 3\<close>.\<close>

definition membit :: "mem \<Rightarrow> nat \<Rightarrow> bool" where
  "membit m n \<longleftrightarrow> bit (m (n div 8)) (n mod 8)"

text \<open>The bits set in the first \<open>sz\<close> bytes.\<close>

definition bitset :: "nat \<Rightarrow> mem \<Rightarrow> nat set" where
  "bitset sz m = {n. n < 8 * sz \<and> membit m n}"

lemma div8_less: "n < 8 * s \<longleftrightarrow> n div 8 < (s::nat)"
  by (simp add: div_less_iff_less_mult mult.commute)

lemma mem_bitset: "n \<in> bitset s m \<longleftrightarrow> n < 8 * s \<and> membit m n"
  by (simp add: bitset_def)

lemma finite_bitset [simp]: "finite (bitset s m)"
  by (rule finite_subset [of _ "{..<8 * s}"]) (auto simp: bitset_def)

lemma bitset_0 [simp]: "bitset 0 m = {}"
  by (simp add: bitset_def)

lemma byte_eq_0_iff: "(c::byte) = 0 \<longleftrightarrow> (\<forall>k<8. \<not> bit c k)"
  by (auto intro: bit_word_eqI)

lemma and_pow_eq_0_iff: "c AND push_bit k 1 = 0 \<longleftrightarrow> \<not> (k < LENGTH('a) \<and> bit c k)"
  for c :: "'a::len word"
proof -
  have "c AND push_bit k 1 = 0 \<longleftrightarrow> (\<forall>n. \<not> bit (c AND push_bit k 1) n)"
    by (metis bit_0_eq bit_eqI bot_apply bot_bool_def)
  also have "\<dots> \<longleftrightarrow> \<not> (k < LENGTH('a) \<and> bit c k)"
    by (auto simp: bit_simps dest: bit_imp_le_length)
  finally show ?thesis .
qed

lemma zero_byte_no_bits: "m i = 0 \<Longrightarrow> n div 8 = i \<Longrightarrow> \<not> membit m n"
  by (simp add: membit_def)

lemma div_mod8_cases:
  fixes n m :: nat
  assumes "n div 8 = m div 8" and "n mod 8 = m mod 8"
  shows "n = m"
  using assms by (metis mult_div_mod_eq)

section \<open>Errors as values, lists of bytes\<close>

text \<open>An early return or a fault is \<open>Inl\<close>; \<open>bindE\<close> goes on only after \<open>Inr\<close>.\<close>

fun bindE :: "'e + 'a \<Rightarrow> ('a \<Rightarrow> 'e + 'b) \<Rightarrow> 'e + 'b" where
  "bindE (Inl e) f = Inl e"
| "bindE (Inr x) f = f x"

lemma bindE_Inr_iff: "bindE m f = Inr y \<longleftrightarrow> (\<exists>x. m = Inr x \<and> f x = Inr y)"
  by (cases m) simp_all

lemma bindE_cong [fundef_cong]:
  "m = m' \<Longrightarrow> (\<And>x. m' = Inr x \<Longrightarrow> f x = f' x) \<Longrightarrow> bindE m f = bindE m' f'"
  by (cases m') simp_all

text \<open>A C string literal, without its terminating zero.\<close>

definition bytes_of :: "string \<Rightarrow> byte list" where
  "bytes_of s = map of_char s"

text \<open>The contents of a C string: no zero among them.\<close>

definition cstring :: "byte list \<Rightarrow> bool" where
  "cstring s \<longleftrightarrow> 0 \<notin> set s"

text \<open>
  \<open>strncmp(a, b, n) == 0\<close> on the bytes that follow the two pointers: the comparison stops
  after \<open>n\<close> bytes, at the first difference and at a common zero.
\<close>

fun strncmp0 :: "nat \<Rightarrow> byte list \<Rightarrow> byte list \<Rightarrow> bool" where
  "strncmp0 0 a b = True"
| "strncmp0 (Suc n) (x # a) (y # b) = (x = y \<and> (x = 0 \<or> strncmp0 n a b))"
| "strncmp0 (Suc n) a b = False"

lemma cstring_bytes_of: "cstring (bytes_of s) \<longleftrightarrow> (\<forall>c\<in>set s. (of_char c :: byte) \<noteq> 0)"
  by (auto simp: cstring_def bytes_of_def)

lemma strncmp0_prefix:
  "cstring a \<Longrightarrow> strncmp0 (length a) a (b @ [0]) \<longleftrightarrow> (\<exists>c. b = a @ c)"
proof (induction a arbitrary: b)
  case (Cons x a)
  then show ?case by (cases b) (auto simp: cstring_def)
qed simp

section \<open>Integers in network byte order\<close>

text \<open>\<open>packInt\<close> stores \<open>htonl(value)\<close>, \<open>unpackInt\<close> reads it back with \<open>ntohl\<close>.\<close>

definition packInt :: "u32 \<Rightarrow> byte list" where
  "packInt v = [ucast (drop_bit 24 v), ucast (drop_bit 16 v), ucast (drop_bit 8 v), ucast v]"

definition unpackInt :: "byte list \<Rightarrow> u32" where
  "unpackInt b = push_bit 24 (ucast (b ! 0)) OR push_bit 16 (ucast (b ! 1))
     OR push_bit 8 (ucast (b ! 2)) OR ucast (b ! 3)"

lemma length_packInt [simp]: "length (packInt v) = 4"
  by (simp add: packInt_def)

lemma unpack_packInt [simp]: "unpackInt (packInt v) = v"
proof (rule bit_word_eqI)
  fix n assume n: "n < LENGTH(32)"
  consider "n < 8" | "8 \<le> n" "n < 16" | "16 \<le> n" "n < 24" | "24 \<le> n" by linarith
  then show "bit (unpackInt (packInt v)) n = bit v n"
    using n by cases (simp_all add: unpackInt_def packInt_def bit_simps, arith+)
qed

lemma packInt_inject [simp]: "packInt v = packInt w \<longleftrightarrow> v = w"
  by (metis unpack_packInt)

lemma packInt_append_inject [simp]: "packInt v @ a = packInt w @ b \<longleftrightarrow> v = w \<and> a = b"
  by simp

end
