(* ===== verification/Bits.thy ===== *)
theory Bits
  imports Prelude
begin

text \<open>
  The bit vectors of \<^verbatim>\<open>rdfstore_bits.c\<close>: one bit per statement, a size in bytes and a
  buffer. Sizes and positions are unbounded here; the code's are \<open>unsigned int\<close> and stay
  below \<open>RDFSTORE_MAXRECORDS\<close> (2097152), so none of the multiplications by 8 wraps. Masks
  and values keep their 32-bit (or 8-bit) width, since the code shifts them. The processes
  the code ends with \<open>exit(1)\<close> or a failed \<open>assert\<close> are the \<open>Inl\<close> results.
\<close>

section \<open>Definitions\<close>

definition STEP :: nat where
  "STEP = 16"

datatype bits_exit =
    Too_many_bits
  | Uncontrolled_overflow
  | Assertion_failed
  | Division_by_zero

subsection \<open>Setting bits\<close>

text \<open>\<open>bzero(bits+n, s-n)\<close>\<close>

definition bzero_from :: "nat \<Rightarrow> nat \<Rightarrow> mem \<Rightarrow> mem" where
  "bzero_from n s bits = (\<lambda>i. if n \<le> i \<and> i < s then 0 else bits i)"

text \<open>The \<open>do ... while ((msk) && (at < *size))\<close> loop of \<open>rdfstore_bits_setmask\<close>.\<close>

function setmask_loop ::
  "nat \<Rightarrow> nat \<Rightarrow> nat \<Rightarrow> mem \<Rightarrow> u32 \<Rightarrow> u32 \<Rightarrow> u32 \<Rightarrow> nat \<Rightarrow> bits_exit + (mem \<times> u32)"
where
  "setmask_loop limit sz at bits msk val change depth =
     (if at \<ge> limit then Inl Uncontrolled_overflow
      else
        let c = bits at;
            d = (ucast ((ucast c AND NOT msk) OR val) :: byte);
            bits' = (if d \<noteq> c then bits(at := d) else bits);
            change' = (if d \<noteq> c then change OR push_bit depth (ucast (d XOR c)) else change);
            at' = Suc at;
            msk' = drop_bit 8 msk;
            val' = drop_bit 8 val
        in if msk' \<noteq> 0 \<and> at' < sz
           then setmask_loop limit sz at' bits' msk' val' change' (depth + 8)
           else Inr (bits', change'))"
  by pat_completeness auto
termination
  by (relation "measure (\<lambda>(limit, sz, at, bits, msk, val, change, depth). sz - at)") auto

definition rdfstore_bits_setmask ::
  "nat \<Rightarrow> mem \<Rightarrow> nat \<Rightarrow> u32 \<Rightarrow> u32 \<Rightarrow> nat \<Rightarrow> bits_exit + (nat \<times> mem \<times> u32)"
where
  "rdfstore_bits_setmask sz bits at msk val limit =
     (if msk = 0 then Inr (sz, bits, 0)
      else
        let s = STEP * (1 + at div 8 div STEP) in
        if at div 8 \<ge> sz \<and> s > limit then Inl Too_many_bits
        else
          let bits1 = (if at div 8 \<ge> sz then bzero_from sz s bits else bits);
              sz1 = (if at div 8 \<ge> sz then s else sz)
          in case setmask_loop limit sz1 (at div 8) bits1
                    (push_bit (at mod 8) msk) (push_bit (at mod 8) val) 0 0 of
               Inl e \<Rightarrow> Inl e
             | Inr (bits2, change) \<Rightarrow> Inr (sz1, bits2, change))"

subsection \<open>Searching\<close>

text \<open>The loop of \<open>rdfstore_bits_getfirstrecord\<close>; \<open>c\<close> holds the byte at \<open>i\<close>.\<close>

function getfirstrecord_loop :: "nat \<Rightarrow> mem \<Rightarrow> byte \<Rightarrow> nat \<Rightarrow> byte \<Rightarrow> nat" where
  "getfirstrecord_loop sz bits msk i c =
     (if (c AND 0x0f) AND msk \<noteq> 0 then 2 * i
      else if (c AND 0xf0) AND push_bit 4 msk \<noteq> 0 then 2 * i + 1
      else if Suc i < sz then getfirstrecord_loop sz bits msk (Suc i) (bits (Suc i))
      else sz * 2)"
  by pat_completeness auto
termination
  by (relation "measure (\<lambda>(sz, bits, msk, i, c). sz - i)") auto

definition rdfstore_bits_getfirstrecord :: "nat \<Rightarrow> mem \<Rightarrow> nat \<Rightarrow> byte \<Rightarrow> bits_exit + nat" where
  "rdfstore_bits_getfirstrecord sz bits at msk =
     (let i = at div 2; c = bits i in
      if \<not> msk < 16 then Inl Assertion_failed
      else if \<not> msk \<noteq> 0 then Inl Assertion_failed
      else Inr (getfirstrecord_loop sz bits msk i (if odd at then c AND 0xf0 else c)))"

text \<open>\<open>rdfstore_bits_isanyset\<close> returns the bits found and writes back the position.\<close>

function isanyset_loop :: "nat \<Rightarrow> mem \<Rightarrow> nat \<Rightarrow> nat \<Rightarrow> byte \<Rightarrow> byte \<times> nat" where
  "isanyset_loop sz bits at rest msk =
     (if msk \<noteq> 0 \<and> at < sz then
        let c = bits at AND msk in
        if c \<noteq> 0 then (c, at * 8 + rest)
        else isanyset_loop sz bits (Suc at) rest msk
      else (0, at))"
  by pat_completeness auto
termination
  by (relation "measure (\<lambda>(sz, bits, at, rest, msk). sz - at)") auto

definition rdfstore_bits_isanyset :: "nat \<Rightarrow> mem \<Rightarrow> nat \<Rightarrow> byte \<Rightarrow> byte \<times> nat" where
  "rdfstore_bits_isanyset sz bits at msk =
     (let rest = at mod 8 in isanyset_loop sz bits (at div 8) rest (push_bit rest msk))"

text \<open>The \<open>_RX\<close> cascade: the first bit set of a byte that is not zero.\<close>

definition first_bit_of_byte :: "byte \<Rightarrow> nat" where
  "first_bit_of_byte c =
     (if c AND push_bit 0 1 \<noteq> 0 then 0 else if c AND push_bit 1 1 \<noteq> 0 then 1
      else if c AND push_bit 2 1 \<noteq> 0 then 2 else if c AND push_bit 3 1 \<noteq> 0 then 3
      else if c AND push_bit 4 1 \<noteq> 0 then 4 else if c AND push_bit 5 1 \<noteq> 0 then 5
      else if c AND push_bit 6 1 \<noteq> 0 then 6 else 7)"

function getfirstset_loop :: "nat \<Rightarrow> mem \<Rightarrow> nat \<Rightarrow> byte \<Rightarrow> nat" where
  "getfirstset_loop sz bits i c =
     (if c \<noteq> 0 then 8 * i + first_bit_of_byte c
      else if Suc i < sz then getfirstset_loop sz bits (Suc i) (bits (Suc i))
      else 8 * sz)"
  by pat_completeness auto
termination
  by (relation "measure (\<lambda>(sz, bits, i, c). sz - i)") auto

definition rdfstore_bits_getfirstsetafter :: "nat \<Rightarrow> mem \<Rightarrow> nat \<Rightarrow> nat" where
  "rdfstore_bits_getfirstsetafter sz bits at =
     getfirstset_loop sz bits (at div 8) (bits (at div 8) AND push_bit (at mod 8) 0xFF)"

subsection \<open>Operations on whole vectors\<close>

text \<open>
  \<open>for(len=0,i=0; i < n; i++) { c = f(i); if (c) len = i+1; bc[i] = c; }\<close>, the loop the
  four operations share. The guard \<open>(i<la) || (i<lb)\<close> is \<open>i < max la lb\<close>, the guard
  \<open>(i<la) && (i<lb)\<close> is \<open>i < min la lb\<close>.
\<close>

function bytes_loop :: "nat \<Rightarrow> (nat \<Rightarrow> byte) \<Rightarrow> nat \<Rightarrow> nat \<Rightarrow> mem \<Rightarrow> nat \<times> mem" where
  "bytes_loop n f i len bc =
     (if i < n then
        let c = f i in bytes_loop n f (Suc i) (if c \<noteq> 0 then Suc i else len) (bc(i := c))
      else (len, bc))"
  by pat_completeness auto
termination
  by (relation "measure (\<lambda>(n, f, i, len, bc). n - i)") auto

text \<open>\<open>( i>=la ) ? 0 : ba[i]\<close>\<close>

definition byte_or_0 :: "nat \<Rightarrow> mem \<Rightarrow> nat \<Rightarrow> byte" where
  "byte_or_0 la ba i = (if i \<ge> la then 0 else ba i)"

definition rdfstore_bits_exor :: "nat \<Rightarrow> mem \<Rightarrow> nat \<Rightarrow> mem \<Rightarrow> mem \<Rightarrow> nat \<times> mem" where
  "rdfstore_bits_exor la ba lb bb bc =
     bytes_loop (max la lb)
       (\<lambda>i. let a = byte_or_0 la ba i; b = byte_or_0 lb bb i in (a OR b) XOR b) 0 0 bc"

definition rdfstore_bits_or :: "nat \<Rightarrow> mem \<Rightarrow> nat \<Rightarrow> mem \<Rightarrow> mem \<Rightarrow> nat \<times> mem" where
  "rdfstore_bits_or la ba lb bb bc =
     bytes_loop (max la lb)
       (\<lambda>i. let a = byte_or_0 la ba i; b = byte_or_0 lb bb i in a OR b) 0 0 bc"

definition rdfstore_bits_and :: "nat \<Rightarrow> mem \<Rightarrow> nat \<Rightarrow> mem \<Rightarrow> mem \<Rightarrow> nat \<times> mem" where
  "rdfstore_bits_and la ba lb bb bc =
     bytes_loop (min la lb)
       (\<lambda>i. let a = byte_or_0 la ba i; b = byte_or_0 lb bb i in a AND b) 0 0 bc"

definition rdfstore_bits_not :: "nat \<Rightarrow> mem \<Rightarrow> mem \<Rightarrow> nat \<times> mem" where
  "rdfstore_bits_not la ba bb =
     bytes_loop la (\<lambda>i. let a = byte_or_0 la ba i in NOT a) 0 0 bb"

fun rdfstore_bits_shorten :: "nat \<Rightarrow> mem \<Rightarrow> nat" where
  "rdfstore_bits_shorten 0 ba = 0"
| "rdfstore_bits_shorten (Suc n) ba = (if ba n = 0 then rdfstore_bits_shorten n ba else Suc n)"

subsection \<open>Records of \<open>n\<close> bits against a row of bits\<close>

text \<open>\<open>(((bb[ q + 1 ] << 8) + bb[ q ]) >> (r))\<close>, in \<open>unsigned int\<close>.\<close>

definition fetch_record :: "nat \<Rightarrow> mem \<Rightarrow> nat \<Rightarrow> u32" where
  "fetch_record n bb i =
     (let p = n * i; q = p div 8; r = p mod 8
      in drop_bit r (push_bit 8 (ucast (bb (q + 1))) + ucast (bb q)))"

definition records_endbit :: "nat \<Rightarrow> nat \<Rightarrow> nat \<Rightarrow> nat" where
  "records_endbit n la lb =
     (if lb * 8 div n < la * 8 then (lb * 8 div n) * 8 else la * 8)"

function records_loop :: "nat \<Rightarrow> (nat \<Rightarrow> bool) \<Rightarrow> nat \<Rightarrow> mem \<Rightarrow> nat \<times> mem" where
  "records_loop endbit sel i bc =
     (if i < endbit then
        records_loop endbit sel (Suc i)
          (if sel i then bc(i div 8 := bc (i div 8) OR push_bit (i mod 8) 1) else bc)
      else (i div 8, bc))"
  by pat_completeness auto
termination
  by (relation "measure (\<lambda>(endbit, sel, i, bc). endbit - i)") auto

definition rdfstore_bits_and2 ::
  "nat \<Rightarrow> nat \<Rightarrow> mem \<Rightarrow> nat \<Rightarrow> mem \<Rightarrow> byte \<Rightarrow> mem \<Rightarrow> bits_exit + (nat \<times> mem)"
where
  "rdfstore_bits_and2 n la ba lb bb msk bc =
     (if \<not> n \<le> 8 then Inl Assertion_failed
      else if \<not> unat msk < 2 ^ n then Inl Assertion_failed
      else if n = 0 then Inl Division_by_zero
      else Inr (records_loop (records_endbit n la lb)
        (\<lambda>i. ba (i div 8) AND push_bit (i mod 8) 1 \<noteq> 0 \<and> fetch_record n bb i AND ucast msk \<noteq> 0)
        0 (bzero_from 0 la bc)))"

definition rdfstore_bits_or2 ::
  "nat \<Rightarrow> nat \<Rightarrow> mem \<Rightarrow> nat \<Rightarrow> mem \<Rightarrow> byte \<Rightarrow> mem \<Rightarrow> bits_exit + (nat \<times> mem)"
where
  "rdfstore_bits_or2 n la ba lb bb msk bc =
     (if \<not> n \<le> 8 then Inl Assertion_failed
      else if \<not> unat msk < 2 ^ n then Inl Assertion_failed
      else if n = 0 then Inl Division_by_zero
      else Inr (records_loop (records_endbit n la lb)
        (\<lambda>i. (ucast (ba (i div 8) AND push_bit (i mod 8) 1) :: u32)
               OR (fetch_record n bb i AND ucast msk) \<noteq> 0)
        0 (bzero_from 0 la bc)))"

declare setmask_loop.simps [simp del] getfirstrecord_loop.simps [simp del]
  isanyset_loop.simps [simp del] getfirstset_loop.simps [simp del]
  bytes_loop.simps [simp del] records_loop.simps [simp del]

section \<open>Scanning loops\<close>

lemma first_bit_of_byte_eq:
  "first_bit_of_byte c =
     (if bit c 0 then 0 else if bit c 1 then 1 else if bit c 2 then 2 else if bit c 3 then 3
      else if bit c 4 then 4 else if bit c 5 then 5 else if bit c 6 then 6 else 7)"
  unfolding first_bit_of_byte_def and_pow_eq_0_iff by simp

lemma first_bit_of_byte_spec:
  assumes "c \<noteq> 0"
  shows "first_bit_of_byte c < 8 \<and> bit c (first_bit_of_byte c) \<and> (\<forall>k<first_bit_of_byte c. \<not> bit c k)"
proof -
  have "bit c 0 \<or> bit c 1 \<or> bit c 2 \<or> bit c 3 \<or> bit c 4 \<or> bit c 5 \<or> bit c 6 \<or> bit c 7"
    using assms by (simp add: byte_eq_0_iff eval_nat_numeral All_less_Suc) blast
  then show ?thesis
    unfolding first_bit_of_byte_eq by (simp add: eval_nat_numeral All_less_Suc) blast
qed

text \<open>The bits still to be looked at when the loop is at byte \<open>i\<close> with \<open>c\<close> in hand.\<close>

definition pending :: "nat \<Rightarrow> mem \<Rightarrow> nat \<Rightarrow> byte \<Rightarrow> nat set" where
  "pending sz bits i c =
     {n. n < 8 * sz \<and> (n div 8 = i \<and> bit c (n mod 8) \<or> i < n div 8 \<and> membit bits n)}"

lemma pending_next:
  "pending sz bits i 0 = pending sz bits (Suc i) (bits (Suc i))"
proof -
  have "i < k \<longleftrightarrow> k = Suc i \<or> Suc i < k" for k by arith
  then show ?thesis by (fastforce simp: pending_def membit_def)
qed

lemma pending_end: "\<not> Suc i < sz \<Longrightarrow> pending sz bits i 0 = {}"
  by (auto simp: pending_def div8_less)

lemma first_pending:
  assumes "c \<noteq> 0" and "i < sz"
  shows "8 * i + first_bit_of_byte c \<in> pending sz bits i c
    \<and> (\<forall>n\<in>pending sz bits i c. 8 * i + first_bit_of_byte c \<le> n)"
proof -
  note f = first_bit_of_byte_spec [OF assms(1)]
  have "8 * i + first_bit_of_byte c \<in> pending sz bits i c"
    using f assms(2) by (simp add: pending_def)
  moreover have "8 * i + first_bit_of_byte c \<le> n" if "n \<in> pending sz bits i c" for n
  proof (cases "n div 8 = i")
    case True
    with that have "bit c (n mod 8)" by (auto simp: pending_def)
    with f have "first_bit_of_byte c \<le> n mod 8" by (meson not_le)
    with True show ?thesis by (metis add_left_mono mult_div_mod_eq)
  next
    case False
    with that have "Suc i \<le> n div 8" by (auto simp: pending_def)
    then have "8 * Suc i \<le> n" by (simp add: less_eq_div_iff_mult_less_eq mult.commute)
    with f show ?thesis by simp
  qed
  ultimately show ?thesis by blast
qed

lemma getfirstset_loop_spec:
  "i < sz \<Longrightarrow>
     (pending sz bits i c = {} \<and> getfirstset_loop sz bits i c = 8 * sz)
   \<or> (getfirstset_loop sz bits i c \<in> pending sz bits i c
       \<and> (\<forall>n\<in>pending sz bits i c. getfirstset_loop sz bits i c \<le> n))"
proof (induction sz bits i c rule: getfirstset_loop.induct)
  case (1 sz bits i c)
  show ?case
  proof (cases "c = 0")
    case False
    then show ?thesis using first_pending [OF False "1.prems", of bits]
      by (simp add: getfirstset_loop.simps [of sz bits i c])
  next
    case True
    show ?thesis
    proof (cases "Suc i < sz")
      case True
      with \<open>c = 0\<close> "1.IH" show ?thesis
        by (simp add: getfirstset_loop.simps [of sz bits i 0] pending_next)
    next
      case False
      with \<open>c = 0\<close> show ?thesis
        by (simp add: getfirstset_loop.simps [of sz bits i 0] pending_end)
    qed
  qed
qed

lemma getfirstset_loop_past: "sz \<le> i \<Longrightarrow> 8 * sz \<le> getfirstset_loop sz bits i c"
  by (subst getfirstset_loop.simps) auto

lemma le_div_mod8:
  "(at::nat) \<le> n \<longleftrightarrow> at div 8 < n div 8 \<or> at div 8 = n div 8 \<and> at mod 8 \<le> n mod 8"
proof -
  have "at = 8 * (at div 8) + at mod 8" "n = 8 * (n div 8) + n mod 8" "at mod 8 < 8" "n mod 8 < 8"
    by simp_all
  then show ?thesis by linarith
qed

lemma pending_start:
  assumes "at < 8 * sz"
  shows "pending sz bits (at div 8) (bits (at div 8) AND push_bit (at mod 8) 0xFF)
    = {n \<in> bitset sz bits. at \<le> n}"
proof -
  have m1: "(0xFF :: byte) = - 1" by simp
  have pb: "bit (push_bit (at mod 8) (- 1 :: byte)) k \<longleftrightarrow> at mod 8 \<le> k \<and> k < 8" for k
    by (auto simp: bit_simps)
  have b: "bit (bits (at div 8) AND push_bit (at mod 8) 0xFF) (n mod 8)
      \<longleftrightarrow> bit (bits (at div 8)) (n mod 8) \<and> at mod 8 \<le> n mod 8" for n
    unfolding bit_and_iff m1 pb by simp
  show ?thesis
    unfolding pending_def bitset_def membit_def b le_div_mod8 [of at] by auto
qed

lemma getfirstsetafter_cases:
  assumes "at < 8 * sz"
  obtains (none) "{n \<in> bitset sz bits. at \<le> n} = {}"
      "rdfstore_bits_getfirstsetafter sz bits at = 8 * sz"
    | (found) "rdfstore_bits_getfirstsetafter sz bits at \<in> bitset sz bits"
      "at \<le> rdfstore_bits_getfirstsetafter sz bits at"
      "\<And>n. n \<in> bitset sz bits \<Longrightarrow> at \<le> n \<Longrightarrow> rdfstore_bits_getfirstsetafter sz bits at \<le> n"
proof -
  have "at div 8 < sz" using assms by (simp add: div8_less)
  from getfirstset_loop_spec [OF this] pending_start [OF assms, of bits]
  show ?thesis using none found
    unfolding rdfstore_bits_getfirstsetafter_def by (metis (no_types, lifting) mem_Collect_eq)
qed

lemma getfirstsetafter_past:
  "8 * sz \<le> at \<Longrightarrow> 8 * sz \<le> rdfstore_bits_getfirstsetafter sz bits at"
  unfolding rdfstore_bits_getfirstsetafter_def
  by (rule getfirstset_loop_past) (simp add: less_eq_div_iff_mult_less_eq mult.commute)

lemma getfirstsetafter_less_iff:
  "rdfstore_bits_getfirstsetafter sz bits at < 8 * sz \<longleftrightarrow> (\<exists>n\<in>bitset sz bits. at \<le> n)"
proof (cases "at < 8 * sz")
  case True
  then show ?thesis
    by (cases rule: getfirstsetafter_cases [of at sz bits]) (auto simp: mem_bitset)
next
  case False
  then show ?thesis using getfirstsetafter_past [of sz at bits] by (auto simp: mem_bitset)
qed

lemma getfirstsetafter_found:
  assumes "rdfstore_bits_getfirstsetafter sz bits at < 8 * sz"
  shows "rdfstore_bits_getfirstsetafter sz bits at \<in> bitset sz bits"
    and "at \<le> rdfstore_bits_getfirstsetafter sz bits at"
    and "\<And>n. n \<in> bitset sz bits \<Longrightarrow> at \<le> n \<Longrightarrow> rdfstore_bits_getfirstsetafter sz bits at \<le> n"
proof -
  from assms have "at < 8 * sz" by (meson getfirstsetafter_past not_le)
  then show "rdfstore_bits_getfirstsetafter sz bits at \<in> bitset sz bits"
    and "at \<le> rdfstore_bits_getfirstsetafter sz bits at"
    and "\<And>n. n \<in> bitset sz bits \<Longrightarrow> at \<le> n \<Longrightarrow> rdfstore_bits_getfirstsetafter sz bits at \<le> n"
    using assms by (cases rule: getfirstsetafter_cases [of at sz bits]; simp)+
qed

theorem getfirstsetafter_least:
  assumes "at < 8 * sz"
  shows "rdfstore_bits_getfirstsetafter sz bits at =
    (if \<exists>n\<in>bitset sz bits. at \<le> n then Min {n \<in> bitset sz bits. at \<le> n} else 8 * sz)"
  using assms
proof (cases rule: getfirstsetafter_cases [of at sz bits])
  case none
  then show ?thesis by auto
next
  case found
  then have "Min {n \<in> bitset sz bits. at \<le> n} = rdfstore_bits_getfirstsetafter sz bits at"
    by (intro Min_eqI) auto
  with found show ?thesis by auto
qed

section \<open>Any bit set\<close>

lemma isanyset_loop_spec:
  assumes "rest < 8"
  shows "isanyset_loop sz bits i rest (push_bit rest 1) = (c, p) \<Longrightarrow>
    (if \<exists>k. i \<le> k \<and> k < sz \<and> membit bits (8 * k + rest)
     then c \<noteq> 0 \<and> (\<exists>k. i \<le> k \<and> k < sz \<and> membit bits (8 * k + rest) \<and> p = 8 * k + rest
            \<and> (\<forall>j. i \<le> j \<and> j < k \<longrightarrow> \<not> membit bits (8 * j + rest)))
     else c = 0)"
proof (induction "sz - i" arbitrary: i)
  case 0
  then show ?case by (simp add: isanyset_loop.simps [of sz bits i] split: if_splits)
next
  case (Suc d)
  have nz: "push_bit rest 1 \<noteq> (0::byte)" using assms by (simp add: push_bit_eq_0_iff)
  have here: "bits i AND push_bit rest 1 \<noteq> 0 \<longleftrightarrow> membit bits (8 * i + rest)"
    unfolding and_pow_eq_0_iff membit_def using assms by simp
  have lt: "i < sz" using Suc.hyps(2) by simp
  show ?case
  proof (cases "membit bits (8 * i + rest)")
    case True
    with Suc.prems nz lt here have "c \<noteq> 0" "p = 8 * i + rest"
      by (auto simp: isanyset_loop.simps [of sz bits i] Let_def split: if_splits)
    with True lt show ?thesis by auto
  next
    case False
    with Suc.prems nz lt here have "isanyset_loop sz bits (Suc i) rest (push_bit rest 1) = (c, p)"
      by (simp add: isanyset_loop.simps [of sz bits i] Let_def)
    moreover have "d = sz - Suc i" using Suc.hyps(2) by simp
    ultimately have IH: "(if \<exists>k. Suc i \<le> k \<and> k < sz \<and> membit bits (8 * k + rest)
     then c \<noteq> 0 \<and> (\<exists>k. Suc i \<le> k \<and> k < sz \<and> membit bits (8 * k + rest) \<and> p = 8 * k + rest
            \<and> (\<forall>j. Suc i \<le> j \<and> j < k \<longrightarrow> \<not> membit bits (8 * j + rest)))
     else c = 0)" by (intro Suc.hyps(1))
    have step: "i \<le> k \<longleftrightarrow> k = i \<or> Suc i \<le> k" for k by auto
    show ?thesis
    proof (cases "\<exists>k. Suc i \<le> k \<and> k < sz \<and> membit bits (8 * k + rest)")
      case True
      with IH obtain k where k: "c \<noteq> 0" "Suc i \<le> k" "k < sz" "membit bits (8 * k + rest)" "p = 8 * k + rest"
        "\<forall>j. Suc i \<le> j \<and> j < k \<longrightarrow> \<not> membit bits (8 * j + rest)" by auto
      then have "\<forall>j. i \<le> j \<and> j < k \<longrightarrow> \<not> membit bits (8 * j + rest)"
        using False by (metis Suc_leI le_neq_implies_less)
      with k have "\<exists>k. i \<le> k \<and> k < sz \<and> membit bits (8 * k + rest) \<and> p = 8 * k + rest
          \<and> (\<forall>j. i \<le> j \<and> j < k \<longrightarrow> \<not> membit bits (8 * j + rest))"
        by (intro exI [of _ k]) simp
      with k(1) show ?thesis by auto
    next
      case no: False
      with False step have "\<not> (\<exists>k. i \<le> k \<and> k < sz \<and> membit bits (8 * k + rest))" by auto
      moreover from no IH have "c = 0" by simp
      ultimately show ?thesis by simp
    qed
  qed
qed

theorem isanyset_at:
  assumes "rdfstore_bits_isanyset sz bits at 1 = (c, p)"
  shows "c \<noteq> 0 \<and> p = at \<longleftrightarrow> at \<in> bitset sz bits"
proof -
  have run: "isanyset_loop sz bits (at div 8) (at mod 8) (push_bit (at mod 8) 1) = (c, p)"
    using assms by (simp add: rdfstore_bits_isanyset_def Let_def)
  have at: "8 * (at div 8) + at mod 8 = at" by simp
  have "at mod 8 < 8" by simp
  note spec = isanyset_loop_spec [OF this run]
  show ?thesis
  proof (cases "at \<in> bitset sz bits")
    case True
    then have h: "at div 8 < sz" "membit bits (8 * (at div 8) + at mod 8)"
      by (simp_all add: mem_bitset div8_less)
    then have ex: "\<exists>k. at div 8 \<le> k \<and> k < sz \<and> membit bits (8 * k + at mod 8)" by blast
    with spec obtain k where k: "c \<noteq> 0" "at div 8 \<le> k" "p = 8 * k + at mod 8"
      "\<forall>j. at div 8 \<le> j \<and> j < k \<longrightarrow> \<not> membit bits (8 * j + at mod 8)" by auto
    with h(2) have "k = at div 8" by (metis le_neq_implies_less order_refl)
    with k True show ?thesis by simp
  next
    case False
    with spec at show ?thesis
      by (auto simp: mem_bitset div8_less split: if_splits)
  qed
qed

section \<open>Whole-vector operations\<close>

lemma bytes_loop_mem:
  "i \<le> n \<Longrightarrow> bytes_loop n f i len bc = (len', bc') \<Longrightarrow>
     bc' = (\<lambda>j. if i \<le> j \<and> j < n then f j else bc j)"
proof (induction n f i len bc arbitrary: len' rule: bytes_loop.induct)
  case (1 n f i len bc)
  show ?case
  proof (cases "i < n")
    case True
    have run: "bytes_loop n f (Suc i) (if f i \<noteq> 0 then Suc i else len) (bc(i := f i)) = (len', bc')"
      using "1.prems"(2) True by (simp add: bytes_loop.simps [of n f i] Let_def cong: if_cong)
    have "bc' = (\<lambda>j. if Suc i \<le> j \<and> j < n then f j else (bc(i := f i)) j)"
      by (rule "1.IH" [OF True refl _ run]) (use True in simp)
    with True show ?thesis by (auto simp: Suc_le_eq)
  next
    case False
    with 1 show ?thesis by (auto simp: bytes_loop.simps [of n f n] fun_eq_iff)
  qed
qed

lemma bytes_loop_len:
  "i \<le> n \<Longrightarrow> len \<le> i \<Longrightarrow> bytes_loop n f i len bc = (len', bc') \<Longrightarrow>
     len \<le> len' \<and> len' \<le> n \<and> (len' = len \<or> i < len' \<and> f (len' - 1) \<noteq> 0)
   \<and> (\<forall>j. i \<le> j \<and> j < n \<and> f j \<noteq> 0 \<longrightarrow> j < len')"
proof (induction n f i len bc arbitrary: len' rule: bytes_loop.induct)
  case (1 n f i len bc)
  show ?case
  proof (cases "i < n")
    case True
    let ?len = "if f i \<noteq> 0 then Suc i else len"
    have run: "bytes_loop n f (Suc i) ?len (bc(i := f i)) = (len', bc')"
      using "1.prems"(3) True by (simp add: bytes_loop.simps [of n f i] Let_def cong: if_cong)
    have "?len \<le> len' \<and> len' \<le> n \<and> (len' = ?len \<or> Suc i < len' \<and> f (len' - 1) \<noteq> 0)
        \<and> (\<forall>j. Suc i \<le> j \<and> j < n \<and> f j \<noteq> 0 \<longrightarrow> j < len')"
      by (rule "1.IH" [OF True refl _ _ run]) (use True "1.prems"(2) in auto)
    moreover have "i \<le> j \<longleftrightarrow> j = i \<or> Suc i \<le> j" for j by auto
    ultimately show ?thesis using "1.prems"(2) by (auto split: if_splits)
  next
    case False
    with 1 show ?thesis by (auto simp: bytes_loop.simps [of n f n])
  qed
qed

text \<open>
  What every whole-vector operation guarantees: the bits of the result are the bits of
  the bytes it computed, the returned length cuts no bit off, is not past the loop bound
  and has no zero byte at its end.
\<close>

lemma bytes_loop_bits:
  assumes "bytes_loop n f 0 0 bc = (len, bc')"
  shows "bitset len bc' = {k. k div 8 < n \<and> bit (f (k div 8)) (k mod 8)}"
    and "len \<le> n" and "0 < len \<Longrightarrow> bc' (len - 1) \<noteq> 0"
proof -
  note m = bytes_loop_mem [OF _ assms] and l = bytes_loop_len [OF _ _ assms]
  have bc: "bc' j = f j" if "j < n" for j using m that by simp
  show "len \<le> n" using l by simp
  have nz: "f j = 0" if "j < n" "\<not> j < len" for j using l that by auto
  show "0 < len \<Longrightarrow> bc' (len - 1) \<noteq> 0" using l bc by auto
  show "bitset len bc' = {k. k div 8 < n \<and> bit (f (k div 8)) (k mod 8)}"
  proof (rule set_eqI)
    fix k
    show "k \<in> bitset len bc' \<longleftrightarrow> k \<in> {k. k div 8 < n \<and> bit (f (k div 8)) (k mod 8)}"
    proof (cases "k div 8 < n")
      case True
      then show ?thesis using nz [OF True]
        by (cases "k div 8 < len") (simp_all add: mem_bitset div8_less membit_def bc)
    next
      case False
      then show ?thesis using \<open>len \<le> n\<close> by (simp add: mem_bitset div8_less)
    qed
  qed
qed

lemma bit_byte_or_0 [bitvec_simps]:
  "bit (byte_or_0 l m (k div 8)) (k mod 8) \<longleftrightarrow> k \<in> bitset l m"
  by (simp add: byte_or_0_def mem_bitset div8_less membit_def)

lemma in_bitset_less: "k \<in> bitset l m \<Longrightarrow> k div 8 < l"
  by (simp add: mem_bitset div8_less)

lemma bits_or_spec:
  assumes "rdfstore_bits_or la ba lb bb bc = (len, bc')"
  shows "bitset len bc' = bitset la ba \<union> bitset lb bb"
    and "len \<le> max la lb" and "0 < len \<Longrightarrow> bc' (len - 1) \<noteq> 0"
proof -
  note run = bytes_loop_bits [OF assms [unfolded rdfstore_bits_or_def Let_def]]
  show "bitset len bc' = bitset la ba \<union> bitset lb bb"
    unfolding run(1) by (auto simp: bit_or_iff bitvec_simps dest: in_bitset_less)
  show "len \<le> max la lb" and "0 < len \<Longrightarrow> bc' (len - 1) \<noteq> 0"
    using run(2,3) by blast+
qed

lemma bits_and_spec:
  assumes "rdfstore_bits_and la ba lb bb bc = (len, bc')"
  shows "bitset len bc' = bitset la ba \<inter> bitset lb bb"
    and "len \<le> min la lb" and "0 < len \<Longrightarrow> bc' (len - 1) \<noteq> 0"
proof -
  note run = bytes_loop_bits [OF assms [unfolded rdfstore_bits_and_def Let_def]]
  show "bitset len bc' = bitset la ba \<inter> bitset lb bb"
    unfolding run(1) by (auto simp: bit_and_iff bitvec_simps dest: in_bitset_less)
  show "len \<le> min la lb" and "0 < len \<Longrightarrow> bc' (len - 1) \<noteq> 0"
    using run(2,3) by blast+
qed

lemma bits_exor_spec:
  assumes "rdfstore_bits_exor la ba lb bb bc = (len, bc')"
  shows "bitset len bc' = bitset la ba - bitset lb bb"
    and "len \<le> max la lb" and "0 < len \<Longrightarrow> bc' (len - 1) \<noteq> 0"
proof -
  note run = bytes_loop_bits [OF assms [unfolded rdfstore_bits_exor_def Let_def]]
  show "bitset len bc' = bitset la ba - bitset lb bb"
    unfolding run(1) by (auto simp: bit_or_iff bit_xor_iff bitvec_simps dest: in_bitset_less)
  show "len \<le> max la lb" and "0 < len \<Longrightarrow> bc' (len - 1) \<noteq> 0"
    using run(2,3) by blast+
qed

lemma bits_not_spec:
  assumes "rdfstore_bits_not la ba bb = (len, bb')"
  shows "bitset len bb' = {..<8 * la} - bitset la ba"
    and "len \<le> la" and "0 < len \<Longrightarrow> bb' (len - 1) \<noteq> 0"
proof -
  note run = bytes_loop_bits [OF assms [unfolded rdfstore_bits_not_def Let_def]]
  show "bitset len bb' = {..<8 * la} - bitset la ba"
    unfolding run(1) by (auto simp: bit_not_iff bitvec_simps div8_less)
  show "len \<le> la" and "0 < len \<Longrightarrow> bb' (len - 1) \<noteq> 0"
    using run(2,3) by blast+
qed

lemma bits_shorten_le: "rdfstore_bits_shorten l m \<le> l"
  by (induction l) auto

lemma bits_shorten_bitset: "bitset (rdfstore_bits_shorten l m) m = bitset l m"
proof (induction l)
  case (Suc l)
  have "bitset (Suc l) m = bitset l m" if "m l = 0"
  proof (rule set_eqI)
    fix k
    show "k \<in> bitset (Suc l) m \<longleftrightarrow> k \<in> bitset l m"
      using that by (cases "k div 8 = l") (simp_all only: mem_bitset div8_less membit_def, auto)
  qed
  with Suc show ?case by simp
qed simp

lemma bits_shorten_tight: "0 < rdfstore_bits_shorten l m \<Longrightarrow> m (rdfstore_bits_shorten l m - 1) \<noteq> 0"
  by (induction l) auto

lemma bits_shorten_least: "bitset l' m = bitset l m \<Longrightarrow> rdfstore_bits_shorten l m \<le> l'"
proof (rule ccontr)
  let ?s = "rdfstore_bits_shorten l m"
  assume eq: "bitset l' m = bitset l m" and "\<not> ?s \<le> l'"
  then have pos: "0 < ?s" and lt: "l' \<le> ?s - 1" by auto
  from bits_shorten_tight [OF pos] obtain k where k: "k < 8" "bit (m (?s - 1)) k"
    by (auto simp: byte_eq_0_iff)
  then have "8 * (?s - 1) + k \<in> bitset ?s m"
    using pos by (auto simp: mem_bitset div8_less membit_def)
  then have "8 * (?s - 1) + k \<in> bitset l' m" using eq by (simp add: bits_shorten_bitset)
  with k lt show False by (auto simp: mem_bitset div8_less)
qed

theorem bits_shorten_minimal:
  "bitset (rdfstore_bits_shorten l m) m = bitset l m
   \<and> (\<forall>l'. bitset l' m = bitset l m \<longrightarrow> rdfstore_bits_shorten l m \<le> l')"
  using bits_shorten_bitset bits_shorten_least by blast

section \<open>Setting bits\<close>

lemma bit_masked_byte:
  "bit (ucast ((ucast (c :: byte) AND NOT m) OR (v :: u32)) :: byte) k
     \<longleftrightarrow> k < 8 \<and> (bit c k \<and> \<not> bit m k \<or> bit v k)"
  by (auto simp: bit_simps)

lemma fun_upd_same_mem: "(if d \<noteq> m i then m(i := d) else m) = m(i := d)"
  by simp

lemma setmask_loop_step:
  assumes "at < limit"
  defines "d \<equiv> \<lambda>bits m v. ucast ((ucast (bits at) AND NOT m) OR v) :: byte"
  shows "\<exists>ch'. setmask_loop limit sz at bits m v ch dep =
    (if drop_bit 8 m \<noteq> 0 \<and> Suc at < sz
     then setmask_loop limit sz (Suc at) (bits(at := d bits m v)) (drop_bit 8 m) (drop_bit 8 v) ch' (dep + 8)
     else Inr (bits(at := d bits m v), ch'))"
  unfolding d_def
  by (subst setmask_loop.simps, unfold Let_def fun_upd_same_mem) (use assms(1) in auto)

text \<open>
  The loop rewrites the bits from \<open>8 * at\<close> on by mask and value. The value must lie within
  the mask: the loop stops when the mask is used up.
\<close>

lemma setmask_loop_spec:
  "at < sz \<Longrightarrow> sz \<le> limit \<Longrightarrow> (\<forall>k. bit v k \<longrightarrow> bit m k) \<Longrightarrow>
   \<exists>bits' ch'. setmask_loop limit sz at bits m v ch dep = Inr (bits', ch')
     \<and> (\<forall>n. membit bits' n \<longleftrightarrow>
          (if 8 * at \<le> n \<and> n < 8 * sz
           then membit bits n \<and> \<not> bit m (n - 8 * at) \<or> bit v (n - 8 * at)
           else membit bits n))"
proof (induction "sz - at" arbitrary: at bits m v ch dep rule: less_induct)
  case less
  let ?d = "ucast ((ucast (bits at) AND NOT m) OR v) :: byte"
  let ?b = "bits(at := ?d)"
  have "at < limit" using less.prems by simp
  from setmask_loop_step [OF this, of sz bits m v ch dep] obtain ch1 where
    step: "setmask_loop limit sz at bits m v ch dep =
      (if drop_bit 8 m \<noteq> 0 \<and> Suc at < sz
       then setmask_loop limit sz (Suc at) ?b (drop_bit 8 m) (drop_bit 8 v) ch1 (dep + 8)
       else Inr (?b, ch1))" by blast
  have byte: "membit ?b n \<longleftrightarrow> membit bits n \<and> \<not> bit m (n - 8 * at) \<or> bit v (n - 8 * at)"
    if "n div 8 = at" for n
  proof -
    have "n - 8 * at = n mod 8" using that by (metis minus_mult_div_eq_mod)
    with that show ?thesis by (simp add: membit_def bit_masked_byte)
  qed
  have other: "membit ?b n \<longleftrightarrow> membit bits n" if "n div 8 \<noteq> at" for n
    using that by (simp add: membit_def)
  show ?case
  proof (cases "drop_bit 8 m \<noteq> 0 \<and> Suc at < sz")
    case True
    have sub: "\<forall>k. bit (drop_bit 8 v) k \<longrightarrow> bit (drop_bit 8 m) k"
      using less.prems(3) by (simp add: bit_drop_bit_eq)
    have "sz - Suc at < sz - at" using less.prems(1) by (intro diff_less_mono2) simp_all
    from less.hyps [OF this conjunct2 [OF True] less.prems(2) sub, of ?b ch1 "dep + 8"]
    obtain bits' ch' where run: "setmask_loop limit sz (Suc at) ?b (drop_bit 8 m) (drop_bit 8 v) ch1 (dep + 8)
        = Inr (bits', ch')"
      and res: "\<And>n. membit bits' n \<longleftrightarrow>
          (if 8 * Suc at \<le> n \<and> n < 8 * sz
           then membit ?b n \<and> \<not> bit (drop_bit 8 m) (n - 8 * Suc at) \<or> bit (drop_bit 8 v) (n - 8 * Suc at)
           else membit ?b n)"
      by blast
    have "membit bits' n \<longleftrightarrow>
          (if 8 * at \<le> n \<and> n < 8 * sz
           then membit bits n \<and> \<not> bit m (n - 8 * at) \<or> bit v (n - 8 * at)
           else membit bits n)" for n
    proof (cases "n div 8 = at")
      case True
      then have "8 * at \<le> n" "n < 8 * Suc at" "n < 8 * sz"
        using less.prems(1) by (auto simp: div8_less)
      with res byte [OF True] show ?thesis by auto
    next
      case False
      then have "8 * Suc at \<le> n \<longleftrightarrow> 8 * at \<le> n" by auto
      moreover have "8 + (n - 8 * Suc at) = n - 8 * at" if "8 * Suc at \<le> n" using that by simp
      ultimately show ?thesis using res other [OF False] by (simp add: bit_drop_bit_eq)
    qed
    moreover have "setmask_loop limit sz at bits m v ch dep = Inr (bits', ch')"
      using step run True by simp
    ultimately show ?thesis by blast
  next
    case False
    have run: "setmask_loop limit sz at bits m v ch dep = Inr (?b, ch1)"
      using step False by simp
    have "membit ?b n \<longleftrightarrow>
          (if 8 * at \<le> n \<and> n < 8 * sz
           then membit bits n \<and> \<not> bit m (n - 8 * at) \<or> bit v (n - 8 * at)
           else membit bits n)" for n
    proof (cases "n div 8 = at")
      case True
      then have "8 * at \<le> n" "n < 8 * sz" using less.prems(1) by (auto simp: div8_less)
      with byte [OF True] show ?thesis by simp
    next
      case ne: False
      have "\<not> bit m (n - 8 * at)" if "8 * at \<le> n" "n < 8 * sz"
      proof -
        from ne that have "8 \<le> n - 8 * at" "Suc at < sz" by auto
        with False have "drop_bit 8 m = 0" by simp
        then have "\<not> bit (drop_bit 8 m) (n - 8 * at - 8)" by simp
        with \<open>8 \<le> n - 8 * at\<close> show ?thesis by (simp add: bit_drop_bit_eq)
      qed
      with less.prems(3) other [OF ne] show ?thesis by auto
    qed
    with run show ?thesis by blast
  qed
qed

lemma ucast_byte_eq_0: "(ucast (w :: byte) :: u32) = 0 \<longleftrightarrow> w = 0"
proof
  assume "(ucast w :: u32) = 0"
  then have "bit (ucast w :: u32) k = False" for k by simp
  then show "w = 0" by (intro bit_word_eqI) (auto simp: bit_ucast_iff)
qed simp

lemma xor_eq_0_iff_eq: "(d XOR c :: byte) = 0 \<longleftrightarrow> d = c"
proof
  assume "d XOR c = 0"
  then have "(d XOR c) XOR c = c" by simp
  then show "d = c" by (simp add: xor.assoc)
qed simp

lemma bitset_bzero:
  "sz \<le> s \<Longrightarrow> bitset s (bzero_from sz s bits) = bitset sz bits"
  by (auto simp: bitset_def membit_def bzero_from_def div8_less not_le)

lemma bit_push_mask:
  fixes m :: u32
  assumes "r < 8" and "drop_bit 25 m = 0"
  shows "bit (push_bit r m) k \<longleftrightarrow> r \<le> k \<and> bit m (k - r)"
proof -
  have "j < 25" if "bit m j" for j
  proof (rule ccontr)
    assume "\<not> j < 25"
    with that have "bit (drop_bit 25 m) (j - 25)" by (simp add: bit_drop_bit_eq)
    with assms(2) show False by simp
  qed
  with assms(1) show ?thesis by (fastforce simp: bit_push_bit_iff)
qed

text \<open>The size the vector has after making room for position \<open>at\<close>, and its buffer.\<close>

lemma setmask_unfold:
  assumes "m \<noteq> 0" and "at div 8 < sz \<or> STEP * (1 + at div 8 div STEP) \<le> limit" and "sz \<le> limit"
  obtains sz' bits1 where "sz \<le> sz'" "sz' \<le> limit" "at div 8 < sz'" "bitset sz' bits1 = bitset sz bits"
    "\<And>v. rdfstore_bits_setmask sz bits at m v limit =
       (case setmask_loop limit sz' (at div 8) bits1 (push_bit (at mod 8) m) (push_bit (at mod 8) v) 0 0 of
          Inl e \<Rightarrow> Inl e | Inr (bits2, change) \<Rightarrow> Inr (sz', bits2, change))"
proof (cases "at div 8 < sz")
  case True
  with assms show ?thesis by (intro that [of sz bits]) (simp_all add: rdfstore_bits_setmask_def Let_def)
next
  case False
  define s where "s = STEP * (1 + at div 8 div STEP)"
  then have s': "STEP + STEP * (at div 8 div STEP) = s" by simp
  have "at div 8 < s" by (simp add: s_def STEP_def)
  moreover from this False have "sz \<le> s" by linarith
  moreover have "s \<le> limit" using assms(2) False by (simp add: s_def)
  ultimately show ?thesis using assms(1) False
    by (intro that [of s "bzero_from sz s bits"])
      (simp_all add: rdfstore_bits_setmask_def Let_def bitset_bzero s')
qed

theorem setmask_bits:
  assumes "m \<noteq> 0" and "v AND m = v" and "drop_bit 25 m = 0"
    and "at div 8 < sz \<or> STEP * (1 + at div 8 div STEP) \<le> limit" and "sz \<le> limit"
  shows "\<exists>sz' bits' ch. rdfstore_bits_setmask sz bits at m v limit = Inr (sz', bits', ch)
    \<and> sz \<le> sz' \<and> sz' \<le> limit \<and> at div 8 < sz'
    \<and> bitset sz' bits' = {n. n < 8 * sz'
        \<and> (if at \<le> n then n \<in> bitset sz bits \<and> \<not> bit m (n - at) \<or> bit v (n - at)
           else n \<in> bitset sz bits)}"
proof -
  from setmask_unfold [OF assms(1,4,5), of bits] obtain sz' bits1
    where sz: "sz \<le> sz'" "sz' \<le> limit" "at div 8 < sz'" and bs: "bitset sz' bits1 = bitset sz bits"
      and run: "\<And>v. rdfstore_bits_setmask sz bits at m v limit =
       (case setmask_loop limit sz' (at div 8) bits1 (push_bit (at mod 8) m) (push_bit (at mod 8) v) 0 0 of
          Inl e \<Rightarrow> Inl e | Inr (bits2, change) \<Rightarrow> Inr (sz', bits2, change))" by metis
  have sub: "bit v k \<Longrightarrow> bit m k" for k using assms(2) by (metis bit_and_iff)
  have "bit (drop_bit 25 m) k = False" for k using assms(3) by simp
  then have dv: "drop_bit 25 v = 0"
    using sub by (intro bit_word_eqI) (auto simp: bit_drop_bit_eq)
  have r: "at mod 8 < 8" by simp
  note pm = bit_push_mask [OF r assms(3)] and pv = bit_push_mask [OF r dv]
  have "\<forall>k. bit (push_bit (at mod 8) v) k \<longrightarrow> bit (push_bit (at mod 8) m) k"
    using sub by (simp add: pm pv)
  from setmask_loop_spec [OF sz(3,2) this, of bits1 0 0] obtain bits' ch where
    loop: "setmask_loop limit sz' (at div 8) bits1 (push_bit (at mod 8) m) (push_bit (at mod 8) v) 0 0
        = Inr (bits', ch)"
    and mb: "\<And>n. membit bits' n \<longleftrightarrow>
          (if 8 * (at div 8) \<le> n \<and> n < 8 * sz'
           then membit bits1 n \<and> \<not> bit (push_bit (at mod 8) m) (n - 8 * (at div 8))
                \<or> bit (push_bit (at mod 8) v) (n - 8 * (at div 8))
           else membit bits1 n)" by blast
  have split: "n - 8 * (at div 8) - at mod 8 = n - at"
    "at mod 8 \<le> n - 8 * (at div 8) \<longleftrightarrow> at \<le> n" if "8 * (at div 8) \<le> n" for n
    using that mult_div_mod_eq [of 8 at] by linarith+
  have "at \<le> n \<Longrightarrow> 8 * (at div 8) \<le> n" for n using mult_div_mod_eq [of 8 at] by linarith
  then have "n \<in> bitset sz' bits' \<longleftrightarrow> n < 8 * sz' \<and>
      (if at \<le> n then n \<in> bitset sz bits \<and> \<not> bit m (n - at) \<or> bit v (n - at) else n \<in> bitset sz bits)" for n
    unfolding bs [symmetric] mem_bitset mb pm pv using split [of n] by auto
  with run loop sz show ?thesis by auto
qed

theorem setmask_bits_witness:
  "\<exists>sz' bits' ch. rdfstore_bits_setmask 0 (\<lambda>_. 7) 21 3 2 64 = Inr (sz', bits', ch)
    \<and> 0 \<le> sz' \<and> sz' \<le> 64 \<and> 21 div 8 < sz'
    \<and> bitset sz' bits' = {n. n < 8 * sz'
        \<and> (if 21 \<le> n then n \<in> bitset 0 (\<lambda>_. 7) \<and> \<not> bit (3 :: u32) (n - 21) \<or> bit (2 :: u32) (n - 21)
           else n \<in> bitset 0 (\<lambda>_. 7))}"
  by (rule setmask_bits) (simp_all add: STEP_def drop_bit_eq_div)

text \<open>The way the store uses it, with one bit: a bit is set or cleared and the change reported.\<close>

theorem setmask_one:
  assumes "at div 8 < sz \<or> STEP * (1 + at div 8 div STEP) \<le> limit" and "sz \<le> limit"
  shows "\<exists>sz' bits' ch. rdfstore_bits_setmask sz bits at 1 (of_bool b) limit = Inr (sz', bits', ch)
    \<and> sz \<le> sz' \<and> sz' \<le> limit \<and> at div 8 < sz'
    \<and> bitset sz' bits' = (if b then insert at (bitset sz bits) else bitset sz bits - {at})
    \<and> (ch \<noteq> 0 \<longleftrightarrow> (at \<in> bitset sz bits) \<noteq> b)"
proof -
  let ?r = "at mod 8"
  have one: "(1::u32) \<noteq> 0" by simp
  from setmask_unfold [OF one assms, of bits] obtain sz' bits1
    where sz: "sz \<le> sz'" "sz' \<le> limit" "at div 8 < sz'" and bs: "bitset sz' bits1 = bitset sz bits"
      and run: "\<And>v. rdfstore_bits_setmask sz bits at 1 v limit =
       (case setmask_loop limit sz' (at div 8) bits1 (push_bit ?r 1) (push_bit ?r v) 0 0 of
          Inl e \<Rightarrow> Inl e | Inr (bits2, change) \<Rightarrow> Inr (sz', bits2, change))" by metis
  define c where "c = bits1 (at div 8)"
  define d where "d = (ucast ((ucast c AND NOT (push_bit ?r 1)) OR push_bit ?r (of_bool b :: u32)) :: byte)"
  have r: "?r < 8" by simp
  have last: "drop_bit 8 (push_bit ?r (1::u32)) = 0"
    using r by (intro bit_word_eqI) (auto simp: bit_simps)
  have bitd: "bit d k \<longleftrightarrow> k < 8 \<and> (if k = ?r then b else bit c k)" for k
    unfolding d_def bit_masked_byte by (auto simp: bit_simps)
  have "membit (bits1(at div 8 := d)) n \<longleftrightarrow> (if n = at then b else membit bits1 n)" for n
    by (auto simp: membit_def bitd c_def dest: div_mod8_cases)
  then have res: "bitset sz' (bits1(at div 8 := d)) = (if b then insert at (bitset sz bits) else bitset sz bits - {at})"
    unfolding bs [symmetric] using sz(3) by (auto simp: mem_bitset div8_less split: if_splits)
  have "at \<in> bitset sz bits \<longleftrightarrow> bit c ?r"
    unfolding bs [symmetric] c_def using sz(3) by (simp add: mem_bitset div8_less membit_def)
  moreover have "d = c \<longleftrightarrow> bit c ?r = b"
  proof
    show "d = c \<Longrightarrow> bit c ?r = b" using bitd [of ?r] r by simp
    show "bit c ?r = b \<Longrightarrow> d = c" by (rule bit_word_eqI) (auto simp: bitd)
  qed
  moreover have "(ucast (d XOR c) :: u32) = 0 \<longleftrightarrow> d = c"
    unfolding ucast_byte_eq_0 by (rule xor_eq_0_iff_eq)
  ultimately have ch: "(if d \<noteq> c then 0 OR push_bit 0 (ucast (d XOR c)) else (0 :: u32)) \<noteq> 0
      \<longleftrightarrow> (at \<in> bitset sz bits) \<noteq> b" by auto
  have "setmask_loop limit sz' (at div 8) bits1 (push_bit ?r 1) (push_bit ?r (of_bool b)) 0 0
      = Inr (bits1(at div 8 := d), if d \<noteq> c then 0 OR push_bit 0 (ucast (d XOR c)) else 0)"
    using last sz by (subst setmask_loop.simps) (simp add: Let_def d_def c_def)
  with run [of "of_bool b"] sz res ch show ?thesis by simp
qed

text \<open>The error path: the only way to fail inside a buffer is to need more room than it has.\<close>

theorem setmask_too_many:
  assumes "m \<noteq> 0" and "sz \<le> at div 8" and "limit < STEP * (1 + at div 8 div STEP)"
  shows "rdfstore_bits_setmask sz bits at m v limit = Inl Too_many_bits"
  using assms unfolding rdfstore_bits_setmask_def Let_def by simp

theorem setmask_too_many_witness:
  "rdfstore_bits_setmask 262144 (\<lambda>_. 0) 2097152 1 1 262144 = Inl Too_many_bits"
  by (rule setmask_too_many) (simp_all add: STEP_def)

section \<open>First record\<close>

text \<open>Record \<open>r\<close> is the four bits from \<open>4 * r\<close> on.\<close>

definition record_hit :: "mem \<Rightarrow> byte \<Rightarrow> nat \<Rightarrow> bool" where
  "record_hit bits msk r \<longleftrightarrow> (\<exists>k<4. bit msk k \<and> membit bits (4 * r + k))"

definition hit_in :: "byte \<Rightarrow> byte \<Rightarrow> nat \<Rightarrow> bool" where
  "hit_in c msk r \<longleftrightarrow> (\<exists>k<4. bit msk k \<and> bit c (4 * (r mod 2) + k))"

lemma record_hit_byte: "record_hit bits msk r \<longleftrightarrow> hit_in (bits (r div 2)) msk r"
proof -
  have "(4 * r + k) div 8 = r div 2 \<and> (4 * r + k) mod 8 = 4 * (r mod 2) + k" if "k < 4" for k
  proof -
    have e: "4 * r + k = (4 * (r mod 2) + k) + r div 2 * 8"
      using mult_div_mod_eq [of 2 r] by linarith
    have "r mod 2 < 2" by simp
    then have "4 * (r mod 2) + k < 8" using that by linarith
    then show ?thesis unfolding e by simp
  qed
  then show ?thesis by (auto simp: record_hit_def hit_in_def membit_def)
qed

lemma low_nibble_hit:
  fixes c msk :: byte
  shows "(c AND 0x0f) AND msk \<noteq> 0 \<longleftrightarrow> hit_in c msk (2 * i)"
proof -
  have f: "(0x0f :: byte) = mask 4" by (simp add: mask_eq_exp_minus_1)
  have b: "bit ((c AND 0x0f) AND msk) k \<longleftrightarrow> k < 4 \<and> bit c k \<and> bit msk k" for k
    unfolding f bit_and_iff bit_mask_iff by auto
  show ?thesis
    unfolding byte_eq_0_iff b hit_in_def
    by (rule iffI; clarsimp) (metis, metis less_trans numeral_less_iff semiring_norm(76,78,80))
qed

lemma high_nibble_hit:
  fixes c msk :: byte
  assumes "msk < 16"
  shows "(c AND 0xf0) AND push_bit 4 msk \<noteq> 0 \<longleftrightarrow> hit_in c msk (2 * i + 1)"
proof -
  have f: "(0xf0 :: byte) = push_bit 4 (mask 4)" by (simp add: mask_eq_exp_minus_1 push_bit_eq_mult)
  have b: "bit ((c AND 0xf0) AND push_bit 4 msk) k \<longleftrightarrow> 4 \<le> k \<and> k < 8 \<and> bit c k \<and> bit msk (k - 4)" for k
    unfolding f bit_and_iff bit_push_bit_iff bit_mask_iff by auto
  have "(\<exists>k<8. 4 \<le> k \<and> k < 8 \<and> bit c k \<and> bit msk (k - 4)) \<longleftrightarrow> (\<exists>k<4. bit msk k \<and> bit c (4 + k))"
  proof
    assume "\<exists>k<8. 4 \<le> k \<and> k < 8 \<and> bit c k \<and> bit msk (k - 4)"
    then obtain k where "4 \<le> k" "k < 8" "bit c k" "bit msk (k - 4)" by blast
    then show "\<exists>k<4. bit msk k \<and> bit c (4 + k)" by (intro exI [of _ "k - 4"]) simp
  next
    assume "\<exists>k<4. bit msk k \<and> bit c (4 + k)"
    then obtain k where "k < 4" "bit msk k" "bit c (4 + k)" by blast
    then show "\<exists>k<8. 4 \<le> k \<and> k < 8 \<and> bit c k \<and> bit msk (k - 4)" by (intro exI [of _ "4 + k"]) simp
  qed
  then show ?thesis
    unfolding byte_eq_0_iff b hit_in_def by auto
qed

lemma getfirstrecord_loop_step:
  assumes "msk < 16"
  shows "getfirstrecord_loop sz bits msk i c =
    (if hit_in c msk (2 * i) then 2 * i
     else if hit_in c msk (2 * i + 1) then 2 * i + 1
     else if Suc i < sz then getfirstrecord_loop sz bits msk (Suc i) (bits (Suc i)) else sz * 2)"
  by (subst getfirstrecord_loop.simps) (simp only: low_nibble_hit [of c msk i] high_nibble_hit [OF assms, of c i])

lemma getfirstrecord_loop_spec:
  assumes "msk < 16"
  defines "S \<equiv> \<lambda>sz bits i c. {r. r < 2 * sz \<and> (r div 2 = i \<and> hit_in c msk r \<or> i < r div 2 \<and> record_hit bits msk r)}"
  shows "i < sz \<Longrightarrow>
      S sz bits i c = {} \<and> getfirstrecord_loop sz bits msk i c = 2 * sz
    \<or> getfirstrecord_loop sz bits msk i c \<in> S sz bits i c
      \<and> (\<forall>r\<in>S sz bits i c. getfirstrecord_loop sz bits msk i c \<le> r)"
proof (induction "sz - i" arbitrary: i c rule: less_induct)
  case less
  have r2: "r div 2 = i \<longleftrightarrow> r = 2 * i \<or> r = 2 * i + 1" for r i :: nat by arith
  have gt: "i < r div 2 \<longleftrightarrow> 2 * i + 1 < r" for r i :: nat by arith
  note step = getfirstrecord_loop_step [OF assms(1), of sz bits i c]
  show ?case
  proof (cases "hit_in c msk (2 * i) \<or> hit_in c msk (2 * i + 1)")
    case True
    then show ?thesis using less.prems
      unfolding step S_def r2 gt by auto
  next
    case False
    have S: "S sz bits i c = S sz bits (Suc i) (bits (Suc i))"
    proof (rule set_eqI)
      fix r
      have "\<not> hit_in c msk r" if "r div 2 = i" using that False unfolding r2 by auto
      then show "r \<in> S sz bits i c \<longleftrightarrow> r \<in> S sz bits (Suc i) (bits (Suc i))"
        by (cases "r div 2 = Suc i") (auto simp: S_def record_hit_byte)
    qed
    show ?thesis
    proof (cases "Suc i < sz")
      case True
      then have "sz - Suc i < sz - i" by simp
      from less.hyps [OF this True, of "bits (Suc i)"] False True show ?thesis
        unfolding step S by simp
    next
      case no: False
      then have "S sz bits i c = {}"
        unfolding S unfolding S_def by auto
      then show ?thesis using False no unfolding step by simp
    qed
  qed
qed

theorem getfirstrecord_least:
  assumes "msk < 16" and "msk \<noteq> 0" and "at < 2 * sz"
  shows "rdfstore_bits_getfirstrecord sz bits at msk =
    Inr (if \<exists>r<2 * sz. at \<le> r \<and> record_hit bits msk r
         then LEAST r. r < 2 * sz \<and> at \<le> r \<and> record_hit bits msk r else 2 * sz)"
proof -
  let ?c = "if odd at then bits (at div 2) AND 0xf0 else bits (at div 2)"
  let ?r = "getfirstrecord_loop sz bits msk (at div 2) ?c"
  let ?P = "\<lambda>r. r < 2 * sz \<and> at \<le> r \<and> record_hit bits msk r"
  have f: "bit (0xf0 :: byte) (4 * j + k) \<longleftrightarrow> j = 1" if "k < 4" "j < 2" for j k
  proof -
    have "(0xf0 :: byte) = push_bit 4 (mask 4)" by (simp add: mask_eq_exp_minus_1 push_bit_eq_mult)
    then show ?thesis using that by (auto simp: bit_push_bit_iff bit_mask_iff less_Suc_eq numeral_eq_Suc)
  qed
  have f': "bit (0xf0 :: byte) (4 * (r mod 2) + k) \<longleftrightarrow> odd r" if "k < 4" for r k :: nat
    using f [OF that, of "r mod 2"] by (simp add: odd_iff_mod_2_eq_one)
  have "hit_in ?c msk r \<longleftrightarrow> (odd at \<longrightarrow> odd r) \<and> hit_in (bits (at div 2)) msk r" for r
  proof (cases "odd at")
    case True
    then have "hit_in ?c msk r \<longleftrightarrow> (\<exists>k<4. bit msk k \<and> bit (bits (at div 2)) (4 * (r mod 2) + k)
        \<and> bit (0xf0 :: byte) (4 * (r mod 2) + k))"
      unfolding hit_in_def by (simp only: if_True bit_and_iff not_False_eq_True)
    also have "\<dots> \<longleftrightarrow> (\<exists>k<4. bit msk k \<and> bit (bits (at div 2)) (4 * (r mod 2) + k) \<and> odd r)"
      using f' by metis
    finally show ?thesis using True by (auto simp: hit_in_def)
  qed simp
  note hit = this
  have le: "at \<le> r \<longleftrightarrow> at div 2 < r div 2 \<or> at div 2 = r div 2 \<and> (odd at \<longrightarrow> odd r)" for r
    by presburger
  have S: "{r. r < 2 * sz \<and> (r div 2 = at div 2 \<and> hit_in ?c msk r
      \<or> at div 2 < r div 2 \<and> record_hit bits msk r)} = {r. ?P r}"
  proof (rule Collect_cong)
    fix r
    show "r < 2 * sz \<and> (r div 2 = at div 2 \<and> hit_in ?c msk r \<or> at div 2 < r div 2 \<and> record_hit bits msk r)
        \<longleftrightarrow> ?P r"
      unfolding record_hit_byte hit le by (cases "r div 2 = at div 2") simp_all
  qed
  have "at div 2 < sz" using assms(3) by simp
  from getfirstrecord_loop_spec [OF assms(1) this, where bits = bits and c = ?c, unfolded S]
  have "?r = (if \<exists>r. ?P r then LEAST r. ?P r else 2 * sz)"
    by (auto intro: Least_equality [symmetric])
  then show ?thesis
    using assms(1,2) unfolding rdfstore_bits_getfirstrecord_def Let_def by simp
qed

theorem getfirstrecord_least_witness:
  "rdfstore_bits_getfirstrecord 2 (\<lambda>i. if i = 0 then 3 else 0x40) 1 4 = Inr 3
   \<and> (4 :: byte) < 16 \<and> (1::nat) < 2 * 2"
proof -
  have "rdfstore_bits_getfirstrecord 2 (\<lambda>i. if i = 0 then 3 else 0x40) 1 4 =
      Inr (if \<exists>r<2 * 2. 1 \<le> r \<and> record_hit (\<lambda>i. if i = 0 then 3 else 0x40) 4 r
         then LEAST r. r < 2 * 2 \<and> 1 \<le> r \<and> record_hit (\<lambda>i. if i = 0 then 3 else 0x40) 4 r else 2 * 2)"
    by (rule getfirstrecord_least) simp_all
  then show ?thesis
    by (simp add: rdfstore_bits_getfirstrecord_def Let_def getfirstrecord_loop.simps)
qed

section \<open>Rows of records\<close>

lemma div_mod8_eq: "x = 8 * q + j \<Longrightarrow> j < 8 \<Longrightarrow> x div 8 = q \<and> x mod 8 = (j::nat)"
  by simp

lemma fetch_record_bit:
  assumes "k < 8"
  shows "bit (fetch_record n bb i) k \<longleftrightarrow> membit bb (n * i + k)"
proof -
  define p where "p = n * i"
  define q where "q = p div 8"
  define r where "r = p mod 8"
  let ?hi = "push_bit 8 (ucast (bb (q + 1))) :: u32" and ?lo = "ucast (bb q) :: u32"
  have p: "p = 8 * q + r" and r: "r < 8" by (simp_all add: q_def r_def)
  have hi: "bit ?hi j \<longleftrightarrow> 8 \<le> j \<and> j < 16 \<and> bit (bb (q + 1)) (j - 8)" for j
    by (auto simp: bit_push_bit_iff bit_ucast_iff dest: bit_imp_le_length)
  have lo: "bit ?lo j \<longleftrightarrow> j < 8 \<and> bit (bb q) j" for j
    by (auto simp: bit_ucast_iff dest: bit_imp_le_length)
  have "?hi AND ?lo = 0" by (rule bit_word_eqI) (unfold bit_and_iff hi lo, auto)
  then have sum: "?hi + ?lo = ?hi OR ?lo" by (rule disjunctive_add_eq_or)
  have "bit (fetch_record n bb i) k \<longleftrightarrow> bit (?hi OR ?lo) (r + k)"
    unfolding fetch_record_def Let_def p_def [symmetric] q_def [symmetric] r_def [symmetric] sum
    by (simp only: bit_drop_bit_eq comp_apply)
  also have "\<dots> \<longleftrightarrow> membit bb (p + k)"
  proof (cases "r + k < 8")
    case True
    define j where "j = r + k"
    have "p + k = 8 * q + j" and "j < 8" using True by (simp_all add: p j_def)
    then have "(p + k) div 8 = q" "(p + k) mod 8 = j" by simp_all
    then show ?thesis using \<open>j < 8\<close> unfolding j_def [symmetric] bit_or_iff hi lo membit_def by simp
  next
    case False
    define j where "j = r + k - 8"
    have "p + k = 8 * (q + 1) + j" and "j < 8" and rk: "r + k = 8 + j"
      using False assms r by (simp_all add: p j_def)
    then have "(p + k) div 8 = q + 1" "(p + k) mod 8 = j" using div_mod8_eq by blast+
    then show ?thesis using \<open>j < 8\<close> unfolding rk bit_or_iff hi lo membit_def by simp
  qed
  finally show ?thesis by (simp add: p_def)
qed

lemma fetch_record_masked:
  fixes msk :: byte
  shows "fetch_record n bb i AND ucast msk \<noteq> 0 \<longleftrightarrow> (\<exists>k<8. bit msk k \<and> membit bb (n * i + k))"
proof -
  have "fetch_record n bb i AND ucast msk \<noteq> 0 \<longleftrightarrow> (\<exists>k. bit (fetch_record n bb i AND ucast msk) k)"
    by (metis bit_0_eq bit_word_eqI bot_apply bot_bool_def)
  also have "\<dots> \<longleftrightarrow> (\<exists>k<8. bit msk k \<and> membit bb (n * i + k))"
  proof -
    have "bit msk k \<Longrightarrow> k < 8" for k by (auto dest: bit_imp_le_length)
    then have "bit (fetch_record n bb i AND ucast msk) k \<longleftrightarrow> k < 8 \<and> bit msk k \<and> membit bb (n * i + k)" for k
      using fetch_record_bit [of k n bb i] by (fastforce simp: bit_and_iff bit_ucast_iff)
    then show ?thesis by auto
  qed
  finally show ?thesis .
qed

lemma records_loop_spec:
  "i \<le> endbit \<Longrightarrow> records_loop endbit sel i bc = (len, bc') \<Longrightarrow>
     len = endbit div 8 \<and> (\<forall>n. membit bc' n \<longleftrightarrow> membit bc n \<or> i \<le> n \<and> n < endbit \<and> sel n)"
proof (induction "endbit - i" arbitrary: i bc rule: less_induct)
  case less
  show ?case
  proof (cases "i < endbit")
    case True
    let ?bc = "if sel i then bc(i div 8 := bc (i div 8) OR push_bit (i mod 8) 1) else bc"
    have run: "records_loop endbit sel (Suc i) ?bc = (len, bc')"
      using less.prems(2) True by (simp add: records_loop.simps [of endbit sel i])
    have one: "bit (push_bit (i mod 8) (1 :: byte)) k \<longleftrightarrow> k = i mod 8" for k
      unfolding bit_push_bit_iff bit_1_iff by auto
    have set: "membit ?bc n \<longleftrightarrow> membit bc n \<or> n = i \<and> sel i" for n
    proof (cases "n div 8 = i div 8")
      case True
      then have "membit ?bc n \<longleftrightarrow> membit bc n \<or> sel i \<and> bit (push_bit (i mod 8) (1 :: byte)) (n mod 8)"
        by (simp add: membit_def bit_or_iff del: push_bit_of_1)
      moreover have "n mod 8 = i mod 8 \<longleftrightarrow> n = i" using True div_mod8_cases by metis
      ultimately show ?thesis unfolding one by auto
    qed (auto simp: membit_def)
    have "len = endbit div 8
        \<and> (\<forall>n. membit bc' n \<longleftrightarrow> membit ?bc n \<or> Suc i \<le> n \<and> n < endbit \<and> sel n)"
      by (rule less.hyps [OF _ _ run]) (use True in simp_all)
    then have res: "len = endbit div 8" "\<And>n. membit bc' n \<longleftrightarrow> (membit bc n \<or> n = i \<and> sel i) \<or> Suc i \<le> n \<and> n < endbit \<and> sel n"
      unfolding set by blast+
    have "membit bc' n \<longleftrightarrow> membit bc n \<or> i \<le> n \<and> n < endbit \<and> sel n" for n
      using res(2) [of n] True by (cases "n = i") auto
    with res(1) show ?thesis by blast
  next
    case False
    with less.prems show ?thesis by (auto simp: records_loop.simps [of endbit sel endbit])
  qed
qed

lemma membit_bzero_0: "membit (bzero_from 0 la bc) n \<longleftrightarrow> la \<le> n div 8 \<and> membit bc n"
  by (simp add: membit_def bzero_from_def not_less)

text \<open>With a record for every bit of A, the two operations are what their comments say.\<close>

theorem bits_and2_spec:
  assumes "0 < n" and "n \<le> 8" and "unat msk < 2 ^ n" and "la * 8 \<le> lb * 8 div n"
  shows "\<exists>bc'. rdfstore_bits_and2 n la ba lb bb msk bc = Inr (la, bc')
    \<and> bitset la bc' = {i \<in> bitset la ba. \<exists>k<8. bit msk k \<and> membit bb (n * i + k)}"
proof -
  let ?sel = "\<lambda>i. ba (i div 8) AND push_bit (i mod 8) 1 \<noteq> 0 \<and> fetch_record n bb i AND ucast msk \<noteq> 0"
  obtain len bc' where run: "records_loop (la * 8) ?sel 0 (bzero_from 0 la bc) = (len, bc')"
    by fastforce
  note spec = records_loop_spec [OF le0 run]
  have "ba (i div 8) AND push_bit (i mod 8) 1 \<noteq> 0 \<longleftrightarrow> membit ba i" for i
    unfolding and_pow_eq_0_iff by (simp add: membit_def)
  then have "bitset la bc' = {i \<in> bitset la ba. \<exists>k<8. bit msk k \<and> membit bb (n * i + k)}"
    using spec unfolding fetch_record_masked by (auto simp: mem_bitset membit_bzero_0 div8_less)
  moreover have "rdfstore_bits_and2 n la ba lb bb msk bc = Inr (la, bc')"
    using assms run spec by (simp add: rdfstore_bits_and2_def records_endbit_def)
  ultimately show ?thesis by blast
qed

theorem bits_and2_spec_witness:
  "\<exists>bc'. rdfstore_bits_and2 6 1 (\<lambda>_. 0xFF) 6 (\<lambda>_. 0x55) 9 (\<lambda>_. 0) = Inr (1, bc')
    \<and> bitset 1 bc' = {i \<in> bitset 1 (\<lambda>_. 0xFF). \<exists>k<8. bit (9 :: byte) k \<and> membit (\<lambda>_. 0x55) (6 * i + k)}"
  by (rule bits_and2_spec) simp_all

text \<open>
  With fewer records than bits in A, the bound the code computes (\<open>(lb*8/n) * 8\<close>, a number of
  records taken for a number of bytes) is past the end of A as soon as B has more than \<open>la\<close>
  records: the returned length, in bytes, is then more than the \<open>la\<close> bytes the comment
  promises for the output, and the loop has read A and written the output up to there.
\<close>

theorem bits_and2_overruns:
  assumes "0 < n" and "n \<le> 8" and "unat msk < 2 ^ n" and "la < lb * 8 div n" and "lb * 8 div n < la * 8"
  shows "\<exists>len bc'. rdfstore_bits_and2 n la ba lb bb msk bc = Inr (len, bc') \<and> la < len \<and> len = lb * 8 div n
    \<and> (\<forall>i<8 * len. membit ba i \<and> (\<exists>k<8. bit msk k \<and> membit bb (n * i + k)) \<longrightarrow> membit bc' i)"
proof -
  let ?sel = "\<lambda>i. ba (i div 8) AND push_bit (i mod 8) 1 \<noteq> 0 \<and> fetch_record n bb i AND ucast msk \<noteq> 0"
  obtain len bc' where run: "records_loop (lb * 8 div n * 8) ?sel 0 (bzero_from 0 la bc) = (len, bc')"
    by fastforce
  note spec = records_loop_spec [OF le0 run]
  have "ba (i div 8) AND push_bit (i mod 8) 1 \<noteq> 0 \<longleftrightarrow> membit ba i" for i
    unfolding and_pow_eq_0_iff by (simp add: membit_def)
  then have "\<forall>i<8 * len. membit ba i \<and> (\<exists>k<8. bit msk k \<and> membit bb (n * i + k)) \<longrightarrow> membit bc' i"
    using spec unfolding fetch_record_masked by auto
  moreover have "rdfstore_bits_and2 n la ba lb bb msk bc = Inr (len, bc')"
    using assms run by (simp add: rdfstore_bits_and2_def records_endbit_def)
  ultimately show ?thesis using assms(4) spec by auto
qed

theorem bits_and2_overruns_witness:
  "\<exists>len bc'. rdfstore_bits_and2 6 2 (\<lambda>_. 0xFF) 8 (\<lambda>_. 0xFF) 1 (\<lambda>_. 0) = Inr (len, bc') \<and> 2 < len \<and> len = 8 * 8 div 6
    \<and> (\<forall>i<8 * len. membit (\<lambda>_. 0xFF) i \<and> (\<exists>k<8. bit (1 :: byte) k \<and> membit (\<lambda>_. 0xFF) (6 * i + k))
        \<longrightarrow> membit bc' i)"
  by (rule bits_and2_overruns) simp_all

theorem bits_or2_spec:
  assumes "0 < n" and "n \<le> 8" and "unat msk < 2 ^ n" and "la * 8 \<le> lb * 8 div n"
  shows "\<exists>bc'. rdfstore_bits_or2 n la ba lb bb msk bc = Inr (la, bc')
    \<and> bitset la bc' = {i. i < 8 * la \<and> (membit ba i \<or> (\<exists>k<8. bit msk k \<and> membit bb (n * i + k)))}"
proof -
  let ?sel = "\<lambda>i. (ucast (ba (i div 8) AND push_bit (i mod 8) 1) :: u32)
                    OR (fetch_record n bb i AND ucast msk) \<noteq> 0"
  obtain len bc' where run: "records_loop (la * 8) ?sel 0 (bzero_from 0 la bc) = (len, bc')"
    by fastforce
  note spec = records_loop_spec [OF le0 run]
  have "?sel i \<longleftrightarrow> membit ba i \<or> (\<exists>k<8. bit msk k \<and> membit bb (n * i + k))" for i
    unfolding or_eq_0_iff ucast_byte_eq_0 and_pow_eq_0_iff de_Morgan_conj fetch_record_masked
    by (simp add: membit_def)
  then have "bitset la bc' = {i. i < 8 * la \<and> (membit ba i \<or> (\<exists>k<8. bit msk k \<and> membit bb (n * i + k)))}"
    using spec by (auto simp: mem_bitset membit_bzero_0 div8_less)
  moreover have "rdfstore_bits_or2 n la ba lb bb msk bc = Inr (la, bc')"
    using assms run spec by (simp add: rdfstore_bits_or2_def records_endbit_def)
  ultimately show ?thesis by blast
qed

theorem getfirstsetafter_least_witness:
  "rdfstore_bits_getfirstsetafter 3 (\<lambda>i. if i = 2 then 4 else 1) 9 =
    (if \<exists>n\<in>bitset 3 (\<lambda>i. if i = 2 then 4 else 1). 9 \<le> n
     then Min {n \<in> bitset 3 (\<lambda>i. if i = 2 then 4 else 1). 9 \<le> n} else 8 * 3)
   \<and> rdfstore_bits_getfirstsetafter 3 (\<lambda>i. if i = 2 then 4 else 1) 9 = 18"
proof -
  have "rdfstore_bits_getfirstsetafter 3 (\<lambda>i. if i = 2 then 4 else 1) 9 = 18" by code_simp
  with getfirstsetafter_least [of 9 3 "\<lambda>i. if i = 2 then 4 else 1"] show ?thesis by linarith
qed

theorem bits_or2_spec_witness:
  "\<exists>bc'. rdfstore_bits_or2 6 1 (\<lambda>_. 2) 6 (\<lambda>_. 1) 9 (\<lambda>_. 7) = Inr (1, bc')
    \<and> bitset 1 bc' = {i. i < 8 * 1 \<and> (membit (\<lambda>_. 2) i \<or> (\<exists>k<8. bit (9 :: byte) k \<and> membit (\<lambda>_. 1) (6 * i + k)))}"
  by (rule bits_or2_spec) simp_all

end
