(* ===== verification/Flatdb.thy ===== *)
theory Flatdb
  imports Prelude
begin

text \<open>
  What the code over a flat store sees of it (\<open>src/include/rdfstore_flat_store.h\<close>,
  \<open>src/include/backend_store.h\<close>): the error codes and the table of operations a backend
  declares, and the contracts of these operations as locales. A key or a value is the list
  of the bytes of a \<open>DBT\<close>; every operation is a function of the state of the instance.
\<close>

type_synonym flat_key = "byte list"

type_synonym flat_data = "byte list"

type_synonym flat_error = int

definition FLAT_STORE_E_UNDEF :: flat_error where "FLAT_STORE_E_UNDEF = 2000"

definition FLAT_STORE_E_NONNUL :: flat_error where "FLAT_STORE_E_NONNUL = 2001"

definition FLAT_STORE_E_NOMEM :: flat_error where "FLAT_STORE_E_NOMEM = 2002"

definition FLAT_STORE_E_NOPE :: flat_error where "FLAT_STORE_E_NOPE = 2003"

definition FLAT_STORE_E_KEYEMPTY :: flat_error where "FLAT_STORE_E_KEYEMPTY = 2004"

definition FLAT_STORE_E_KEYEXIST :: flat_error where "FLAT_STORE_E_KEYEXIST = 2005"

definition FLAT_STORE_E_NOTFOUND :: flat_error where "FLAT_STORE_E_NOTFOUND = 2006"

definition FLAT_STORE_E_OLD_VERSION :: flat_error where "FLAT_STORE_E_OLD_VERSION = 2007"

definition FLAT_STORE_E_DBMS :: flat_error where "FLAT_STORE_E_DBMS = 2008"

definition FLAT_STORE_E_CANNOTOPEN :: flat_error where "FLAT_STORE_E_CANNOTOPEN = 2009"

definition FLAT_STORE_E_BUG :: flat_error where "FLAT_STORE_E_BUG = 2010"

lemmas flat_error_codes = FLAT_STORE_E_UNDEF_def FLAT_STORE_E_NONNUL_def FLAT_STORE_E_NOMEM_def
  FLAT_STORE_E_NOPE_def FLAT_STORE_E_KEYEMPTY_def FLAT_STORE_E_KEYEXIST_def
  FLAT_STORE_E_NOTFOUND_def FLAT_STORE_E_OLD_VERSION_def FLAT_STORE_E_DBMS_def
  FLAT_STORE_E_CANNOTOPEN_def FLAT_STORE_E_BUG_def

section \<open>The operations of a backend\<close>

text \<open>
  The part of \<open>backend_store_t\<close> that works on the table. An operation that hands out a key or
  a value returns \<open>Inl\<close> of its error code or \<open>Inr\<close> of what it found; the others return their
  code, \<open>0\<close> for success.
\<close>

record 's backend =
  be_fetch :: "'s \<Rightarrow> flat_key \<Rightarrow> 's \<times> (flat_error + flat_data)"
  be_store :: "'s \<Rightarrow> flat_key \<Rightarrow> flat_data \<Rightarrow> 's \<times> flat_error"
  be_exists :: "'s \<Rightarrow> flat_key \<Rightarrow> 's \<times> flat_error"
  be_delete :: "'s \<Rightarrow> flat_key \<Rightarrow> 's \<times> flat_error"
  be_inc :: "'s \<Rightarrow> flat_key \<Rightarrow> 's \<times> (flat_error + flat_data)"
  be_dec :: "'s \<Rightarrow> flat_key \<Rightarrow> 's \<times> (flat_error + flat_data)"
  be_first :: "'s \<Rightarrow> 's \<times> (flat_error + flat_key)"
  be_next :: "'s \<Rightarrow> flat_key \<Rightarrow> 's \<times> (flat_error + flat_key)"
  be_from :: "'s \<Rightarrow> flat_key \<Rightarrow> 's \<times> (flat_error + flat_key)"
  be_sync :: "'s \<Rightarrow> 's \<times> flat_error"
  be_close :: "'s \<Rightarrow> 's \<times> flat_error"

section \<open>Contracts\<close>

text \<open>
  \<open>flat_table\<close>: the instance \<open>s\<close> (with its invariant \<open>ok\<close>) is a map \<open>tbl s\<close> from keys to values.
  A deletion may report \<open>FLAT_STORE_E_NOTFOUND\<close> for a key that was there, never success for one
  that was not. \<open>walk s ks\<close> says that the cursor of \<open>s\<close> has the keys \<open>ks\<close> to go.
\<close>

locale flat_table =
  fixes B :: "'s backend"
    and ok :: "'s \<Rightarrow> bool"
    and tbl :: "'s \<Rightarrow> flat_key \<Rightarrow> flat_data option"
  assumes fetch: "ok s \<Longrightarrow> be_fetch B s k = (s', r) \<Longrightarrow>
      ok s' \<and> tbl s' = tbl s
      \<and> r = (case tbl s k of None \<Rightarrow> Inl FLAT_STORE_E_NOTFOUND | Some v \<Rightarrow> Inr v)"
    and store: "ok s \<Longrightarrow> be_store B s k v = (s', e) \<Longrightarrow>
      ok s' \<and> tbl s' = (tbl s)(k \<mapsto> v) \<and> (e = 0 \<or> e = FLAT_STORE_E_KEYEXIST)"
    and exists: "ok s \<Longrightarrow> be_exists B s k = (s', e) \<Longrightarrow>
      ok s' \<and> tbl s' = tbl s \<and> (e = 0 \<longleftrightarrow> tbl s k \<noteq> None)"
    and delete: "ok s \<Longrightarrow> be_delete B s k = (s', e) \<Longrightarrow>
      ok s' \<and> tbl s' = (tbl s)(k := None)
      \<and> (e = 0 \<or> e = FLAT_STORE_E_NOTFOUND) \<and> (e = 0 \<longrightarrow> tbl s k \<noteq> None)"
    and sync: "ok s \<Longrightarrow> be_sync B s = (s', e) \<Longrightarrow> ok s' \<and> tbl s' = tbl s"

text \<open>
  \<open>bounded_table\<close>: the same for the keys and values that \<open>fits\<close> accepts, which is all a table
  behind a protocol can promise.
\<close>

locale bounded_table =
  fixes B :: "'s backend"
    and ok :: "'s \<Rightarrow> bool"
    and tbl :: "'s \<Rightarrow> flat_key \<Rightarrow> flat_data option"
    and fits :: "flat_key \<Rightarrow> flat_data \<Rightarrow> bool"
  assumes fetch: "ok s \<Longrightarrow> fits k [] \<Longrightarrow> be_fetch B s k = (s', r) \<Longrightarrow>
      ok s' \<and> tbl s' = tbl s
      \<and> r = (case tbl s k of None \<Rightarrow> Inl FLAT_STORE_E_NOTFOUND | Some v \<Rightarrow> Inr v)"
    and store: "ok s \<Longrightarrow> fits k v \<Longrightarrow> be_store B s k v = (s', e) \<Longrightarrow>
      ok s' \<and> tbl s' = (tbl s)(k \<mapsto> v) \<and> (e = 0 \<or> e = FLAT_STORE_E_KEYEXIST)"
    and exists: "ok s \<Longrightarrow> fits k [] \<Longrightarrow> be_exists B s k = (s', e) \<Longrightarrow>
      ok s' \<and> tbl s' = tbl s \<and> (e = 0 \<longleftrightarrow> tbl s k \<noteq> None)"
    and delete: "ok s \<Longrightarrow> fits k [] \<Longrightarrow> be_delete B s k = (s', e) \<Longrightarrow>
      ok s' \<and> tbl s' = (tbl s)(k := None)
      \<and> (e = 0 \<or> e = FLAT_STORE_E_NOTFOUND) \<and> (e = 0 \<longrightarrow> tbl s k \<noteq> None)"
    and sync: "ok s \<Longrightarrow> be_sync B s = (s', e) \<Longrightarrow> ok s' \<and> tbl s' = tbl s"

sublocale flat_table \<subseteq> unbounded: bounded_table B ok tbl "\<lambda>_ _. True"
  using fetch store exists delete sync by unfold_locales blast+

locale flat_cursor = flat_table +
  fixes walk :: "'s \<Rightarrow> flat_key list \<Rightarrow> bool"
  assumes first: "ok s \<Longrightarrow> be_first B s = (s', r) \<Longrightarrow>
      ok s' \<and> tbl s' = tbl s
      \<and> (\<exists>ks. distinct ks \<and> set ks = dom (tbl s)
           \<and> (case ks of [] \<Rightarrow> \<exists>e. r = Inl e | k # ks' \<Rightarrow> r = Inr k \<and> walk s' ks'))"
    and step: "ok s \<Longrightarrow> walk s ks \<Longrightarrow> be_next B s k = (s', r) \<Longrightarrow>
      ok s' \<and> tbl s' = tbl s
      \<and> (case ks of [] \<Rightarrow> \<exists>e. r = Inl e | k' # ks' \<Rightarrow> r = Inr k' \<and> walk s' ks')"
    and walk_fetch: "ok s \<Longrightarrow> walk s ks \<Longrightarrow> be_fetch B s k = (s', r) \<Longrightarrow> walk s' ks"

section \<open>Histories\<close>

text \<open>A history of calls on a table with what they return, and the same on a map.\<close>

datatype table_op =
    Op_fetch flat_key
  | Op_store flat_key flat_data
  | Op_exists flat_key
  | Op_delete flat_key
  | Op_sync

datatype table_result =
    R_fetch "flat_error + flat_data"
  | R_stored bool
  | R_exists bool
  | R_done

fun run_op :: "'s backend \<Rightarrow> table_op \<Rightarrow> 's \<Rightarrow> 's \<times> table_result" where
  "run_op B (Op_fetch k) s = (let (s, r) = be_fetch B s k in (s, R_fetch r))"
| "run_op B (Op_store k v) s =
     (let (s, e) = be_store B s k v in (s, R_stored (e = 0 \<or> e = FLAT_STORE_E_KEYEXIST)))"
| "run_op B (Op_exists k) s = (let (s, e) = be_exists B s k in (s, R_exists (e = 0)))"
| "run_op B (Op_delete k) s = (let (s, e) = be_delete B s k in (s, R_done))"
| "run_op B Op_sync s = (let (s, e) = be_sync B s in (s, R_done))"

fun map_op :: "table_op \<Rightarrow> (flat_key \<Rightarrow> flat_data option) \<Rightarrow> (flat_key \<Rightarrow> flat_data option) \<times> table_result" where
  "map_op (Op_fetch k) T =
     (T, R_fetch (case T k of None \<Rightarrow> Inl FLAT_STORE_E_NOTFOUND | Some v \<Rightarrow> Inr v))"
| "map_op (Op_store k v) T = (T(k \<mapsto> v), R_stored True)"
| "map_op (Op_exists k) T = (T, R_exists (T k \<noteq> None))"
| "map_op (Op_delete k) T = (T(k := None), R_done)"
| "map_op Op_sync T = (T, R_done)"

fun run_ops :: "'s backend \<Rightarrow> table_op list \<Rightarrow> 's \<Rightarrow> 's \<times> table_result list" where
  "run_ops B [] s = (s, [])"
| "run_ops B (p # ps) s =
     (let (s, r) = run_op B p s; (s, rs) = run_ops B ps s in (s, r # rs))"

fun map_ops :: "table_op list \<Rightarrow> (flat_key \<Rightarrow> flat_data option) \<Rightarrow> (flat_key \<Rightarrow> flat_data option) \<times> table_result list" where
  "map_ops [] T = (T, [])"
| "map_ops (p # ps) T =
     (let (T, r) = map_op p T; (T, rs) = map_ops ps T in (T, r # rs))"

text \<open>The operations within the bounds\<close>

fun op_fits :: "(flat_key \<Rightarrow> flat_data \<Rightarrow> bool) \<Rightarrow> table_op \<Rightarrow> bool" where
  "op_fits fits (Op_fetch k) = fits k []"
| "op_fits fits (Op_store k v) = fits k v"
| "op_fits fits (Op_exists k) = fits k []"
| "op_fits fits (Op_delete k) = fits k []"
| "op_fits fits Op_sync = True"

lemma op_fits_all: "op_fits (\<lambda>_ _. True) p"
  by (cases p) simp_all

context bounded_table
begin

lemma run_op_map:
  assumes "ok s" and "op_fits fits p" and "run_op B p s = (s', r)"
  shows "ok s'" and "map_op p (tbl s) = (tbl s', r)"
proof -
  have "ok s' \<and> map_op p (tbl s) = (tbl s', r)"
  proof (cases p)
    case (Op_fetch k)
    obtain s2 r2 where b: "be_fetch B s k = (s2, r2)" by (metis prod.collapse)
    with fetch [OF assms(1) _ b] assms(2,3) Op_fetch show ?thesis by simp
  next
    case (Op_store k v)
    obtain s2 e where b: "be_store B s k v = (s2, e)" by (metis prod.collapse)
    with store [OF assms(1) _ b] assms(2,3) Op_store show ?thesis by simp
  next
    case (Op_exists k)
    obtain s2 e where b: "be_exists B s k = (s2, e)" by (metis prod.collapse)
    with exists [OF assms(1) _ b] assms(2,3) Op_exists show ?thesis by simp
  next
    case (Op_delete k)
    obtain s2 e where b: "be_delete B s k = (s2, e)" by (metis prod.collapse)
    with delete [OF assms(1) _ b] assms(2,3) Op_delete show ?thesis by simp
  next
    case Op_sync
    obtain s2 e where b: "be_sync B s = (s2, e)" by (metis prod.collapse)
    with sync [OF assms(1) b] assms(2,3) Op_sync show ?thesis by simp
  qed
  then show "ok s'" "map_op p (tbl s) = (tbl s', r)" by simp_all
qed

lemma run_ops_map:
  assumes "ok s" and "list_all (op_fits fits) ps" and "run_ops B ps s = (s', rs)"
  shows "ok s' \<and> map_ops ps (tbl s) = (tbl s', rs)"
  using assms
proof (induction ps arbitrary: s s' rs)
  case (Cons p ps)
  obtain s1 r where one: "run_op B p s = (s1, r)" by (metis prod.collapse)
  obtain s2 rs2 where rest: "run_ops B ps s1 = (s2, rs2)" by (metis prod.collapse)
  note op = run_op_map [OF Cons.prems(1) _ one]
  from Cons.IH [OF op(1) _ rest] op(2) one rest Cons.prems(2,3) show ?case by simp
qed simp

end

context flat_table
begin

lemma run_ops_map:
  assumes "ok s" and "run_ops B ps s = (s', rs)"
  shows "ok s' \<and> map_ops ps (tbl s) = (tbl s', rs)"
  using unbounded.run_ops_map [OF assms(1) _ assms(2)] by (simp add: list_all_iff op_fits_all)

end

end
