(* ===== verification/Statement.thy ===== *)
theory Statement
  imports Flatdb
begin

text \<open>
  RDF nodes and statements (\<open>src/include/rdfstore.h\<close>), the record the \<open>nodes\<close> table keeps
  of a statement as \<open>rdfstore_insert\<close> writes it (\<open>src/rdfstore_kernel.c\<close>) and as
  \<open>rdfstore_iterator_fetch_statement\<close> reads it back (\<open>src/rdfstore_iterator.c\<close>). A record is
  seven integers in network byte order, the lengths of the parts, one byte of flags, and
  the bytes of the parts. The lemmas show that reading gives back what was written, up to
  the normal form \<open>stored_form\<close>, and how many bytes are written.

  A counted string (\<open>identifier\<close>, \<open>string\<close>) is the list of its bytes; a C string (\<open>lang\<close>,
  \<open>dataType\<close>) is the list of the bytes before its zero. The cached hash codes of nodes and
  the back pointers \<open>model\<close> are not part of the records.
\<close>

section \<open>Nodes and statements\<close>

definition RDFSTORE_MAX_LANG_LENGTH :: nat where
  "RDFSTORE_MAX_LANG_LENGTH = 50"

definition RDFSTORE_RDF_PARSETYPE_LITERAL :: "byte list" where
  "RDFSTORE_RDF_PARSETYPE_LITERAL = bytes_of ''http://www.w3.org/1999/02/22-rdf-syntax-ns#XMLLiteral''"

record resource =
  rtype :: int
  ident :: "byte list"

record literal =
  lit_string :: "byte list option"
  parseType :: int
  lang :: "byte list"
  dataType :: "byte list option"

text \<open>The union \<open>value\<close> of a node, told apart by \<open>type == 1\<close>.\<close>

datatype RDF_Node = Resource resource | Literal literal

record RDF_Statement =
  subject :: resource
  predicate :: resource
  object :: RDF_Node
  st_context :: "resource option"
  st_node :: "resource option"
  hashcode :: u32
  isreified :: int

text \<open>\<open>s ? strlen : 0\<close> for the optional parts\<close>

definition opt_bytes :: "byte list option \<Rightarrow> byte list" where
  "opt_bytes s = (case s of None \<Rightarrow> [] | Some b \<Rightarrow> b)"

definition context_bytes :: "resource option \<Rightarrow> byte list" where
  "context_bytes c = (case c of None \<Rightarrow> [] | Some r \<Rightarrow> ident r)"

definition pack_length :: "byte list \<Rightarrow> byte list" where
  "pack_length s = packInt (of_nat (length s))"

section \<open>Writing a record\<close>

text \<open>The size \<open>rdfstore_insert\<close> allocates for the record when its local buffer is too small.\<close>

definition record_alloc :: "RDF_Statement \<Rightarrow> resource option \<Rightarrow> nat" where
  "record_alloc st ctx = 4 * 7 + 1 + length (ident (subject st))
     + length (ident (predicate st))
     + (case object st of
          Resource r \<Rightarrow> length (ident r)
        | Literal l \<Rightarrow> length (opt_bytes (lit_string l)) + length (lang l)
            + length (opt_bytes (dataType l)))
     + length (context_bytes ctx) + length (context_bytes (st_node st))"

definition NODEBUF_SIZE :: nat where
  "NODEBUF_SIZE = 32 * 1024"

definition record_mask :: "RDF_Statement \<Rightarrow> resource option \<Rightarrow> byte" where
  "record_mask st ctx =
     (case object st of Literal l \<Rightarrow> 1 | Resource r \<Rightarrow> 0)
     OR (if rtype (subject st) = 2 then 2 else 0)
     OR (if rtype (predicate st) = 2 then 4 else 0)
     OR (case object st of Literal l \<Rightarrow> 0 | Resource r \<Rightarrow> if rtype r = 2 then 8 else 0)
     OR (case ctx of None \<Rightarrow> 0 | Some c \<Rightarrow> if rtype c = 2 then 16 else 0)
     OR (if isreified st = 1 then 32 else 0)"

definition record_lengths :: "RDF_Statement \<Rightarrow> resource option \<Rightarrow> byte list" where
  "record_lengths st ctx =
     pack_length (ident (subject st))
     @ pack_length (ident (predicate st))
     @ (case object st of
          Resource r \<Rightarrow> pack_length (ident r) @ packInt 0 @ packInt 0
        | Literal l \<Rightarrow> pack_length (opt_bytes (lit_string l)) @ pack_length (lang l)
            @ pack_length (opt_bytes (dataType l)))
     @ pack_length (context_bytes ctx)
     @ pack_length (context_bytes (st_node st))"

definition record_object :: "RDF_Node \<Rightarrow> byte list" where
  "record_object obj = (case obj of
     Resource r \<Rightarrow> ident r
   | Literal l \<Rightarrow> opt_bytes (lit_string l) @ lang l @ opt_bytes (dataType l))"

text \<open>The bytes stored under the identifier of the statement, the last zero included.\<close>

definition insert_record :: "RDF_Statement \<Rightarrow> resource option \<Rightarrow> byte list" where
  "insert_record st ctx =
     record_lengths st ctx @ [record_mask st ctx]
     @ ident (subject st) @ ident (predicate st) @ record_object (object st)
     @ context_bytes ctx @ context_bytes (st_node st) @ [0]"

section \<open>Reading a record\<close>

datatype memory_fault = Read_past_end | Negative_length | Lang_overflow

definition unpack_length :: "byte list \<Rightarrow> nat \<Rightarrow> memory_fault + nat" where
  "unpack_length d off =
     (if off + 4 \<le> length d
      then let n = unat (unpackInt (take 4 (drop off d)))
           in if n < 2 ^ 31 then Inr n else Inl Negative_length
      else Inl Read_past_end)"

text \<open>One part: its length from the header, its bytes from \<open>p\<close>, and \<open>p\<close> moved past them.\<close>

definition fetch_part :: "byte list \<Rightarrow> nat \<Rightarrow> nat \<Rightarrow> memory_fault + (byte list \<times> nat)" where
  "fetch_part d off p =
     bindE (unpack_length d off) (\<lambda>n.
       if p + n \<le> length d then Inr (take n (drop p d), p + n) else Inl Read_past_end)"

definition fetch_literal :: "byte list \<Rightarrow> nat \<Rightarrow> memory_fault + (RDF_Node \<times> nat)" where
  "fetch_literal d p =
     bindE (fetch_part d (4 * 2) p) (\<lambda>(s, p).
     bindE (fetch_part d (4 * 3) p) (\<lambda>(l, p).
     if length l + 1 > RDFSTORE_MAX_LANG_LENGTH then Inl Lang_overflow
     else
     bindE (fetch_part d (4 * 4) p) (\<lambda>(dt, p).
       Inr (Literal \<lparr> lit_string = Some s,
              parseType =
                (if dt \<noteq> [] then
                   if strncmp0 (length dt) dt (RDFSTORE_RDF_PARSETYPE_LITERAL @ [0]) then 1 else 0
                 else 0),
              lang = l, dataType = (if dt \<noteq> [] then Some dt else None) \<rparr>, p))))"

definition fetch_optional :: "byte list \<Rightarrow> nat \<Rightarrow> int \<Rightarrow> nat \<Rightarrow> memory_fault + (resource option \<times> nat)" where
  "fetch_optional d off t p =
     bindE (fetch_part d off p) (\<lambda>(c, p).
       Inr (if c \<noteq> [] then Some \<lparr> rtype = t, ident = c \<rparr> else None, p))"

text \<open>The context, and the statement as a resource.\<close>

definition fetch_context :: "byte list \<Rightarrow> byte \<Rightarrow> nat \<Rightarrow> memory_fault + (resource option \<times> nat)" where
  "fetch_context d flg p = fetch_optional d (4 * 5) (if flg AND 16 \<noteq> 0 then 2 else 0) p"

definition fetch_node :: "byte list \<Rightarrow> nat \<Rightarrow> memory_fault + (resource option \<times> nat)" where
  "fetch_node d p = fetch_optional d (4 * 6) 0 p"

definition fetch_record_parts :: "byte list \<Rightarrow> memory_fault + RDF_Statement" where
  "fetch_record_parts d =
     (if length d < 4 * 7 + 1 then Inl Read_past_end
      else
        let mask = d ! 28 in
        bindE (fetch_part d 0 29) (\<lambda>(s, p).
        bindE (fetch_part d 4 p) (\<lambda>(pr, p).
        bindE (if mask AND 1 \<noteq> 0 then fetch_literal d p
               else bindE (fetch_part d (4 * 2) p) (\<lambda>(ob, p).
                 Inr (Resource \<lparr> rtype = (if mask AND 8 \<noteq> 0 then 2 else 0), ident = ob \<rparr>, p)))
          (\<lambda>(ob, p).
        bindE (fetch_context d mask p) (\<lambda>(c, p).
        bindE (fetch_node d p) (\<lambda>(n, p).
          Inr \<lparr> subject = \<lparr> rtype = (if mask AND 2 \<noteq> 0 then 2 else 0), ident = s \<rparr>,
                predicate = \<lparr> rtype = (if mask AND 4 \<noteq> 0 then 2 else 0), ident = pr \<rparr>,
                object = ob, st_context = c, st_node = n, hashcode = 0, isreified = 0 \<rparr>))))))"

text \<open>
  \<open>rdfstore_iterator_fetch_statement\<close> for the iterator fields \<open>size\<close> and \<open>pos\<close> and a
  fetch from the \<open>nodes\<close> table (\<open>Inl\<close> its error code). \<open>None\<close> is the null pointer.
\<close>

definition fetch_statement ::
  "(flat_key \<Rightarrow> flat_error + flat_data) \<Rightarrow> nat \<Rightarrow> nat \<Rightarrow> memory_fault + RDF_Statement option"
where
  "fetch_statement nodes sz pos =
     (if sz = 0 then Inr None
      else case nodes (packInt (of_nat pos)) of
        Inl err \<Rightarrow> Inr None
      | Inr d \<Rightarrow> bindE (fetch_record_parts d) (\<lambda>st. Inr (Some st)))"

section \<open>What survives a round trip\<close>

definition stored_type :: "int \<Rightarrow> int" where
  "stored_type t = (if t = 2 then 2 else 0)"

definition stored_object :: "RDF_Node \<Rightarrow> RDF_Node" where
  "stored_object obj = (case obj of
     Resource r \<Rightarrow> Resource (r\<lparr>rtype := stored_type (rtype r)\<rparr>)
   | Literal l \<Rightarrow>
       let dt = opt_bytes (dataType l)
       in Literal \<lparr> lit_string = Some (opt_bytes (lit_string l)),
            parseType = (if dt \<noteq> [] \<and> (\<exists>x. RDFSTORE_RDF_PARSETYPE_LITERAL = dt @ x) then 1 else 0),
            lang = lang l, dataType = (if dt = [] then None else Some dt) \<rparr>)"

definition stored_optional :: "(int \<Rightarrow> int) \<Rightarrow> resource option \<Rightarrow> resource option" where
  "stored_optional f c = (case c of None \<Rightarrow> None
     | Some r \<Rightarrow> if ident r = [] then None else Some (r\<lparr>rtype := f (rtype r)\<rparr>))"

definition stored_form :: "RDF_Statement \<Rightarrow> resource option \<Rightarrow> RDF_Statement" where
  "stored_form st ctx =
     \<lparr> subject = (subject st)\<lparr>rtype := stored_type (rtype (subject st))\<rparr>,
       predicate = (predicate st)\<lparr>rtype := stored_type (rtype (predicate st))\<rparr>,
       object = stored_object (object st),
       st_context = stored_optional stored_type ctx,
       st_node = stored_optional (\<lambda>t. 0) (st_node st),
       hashcode = 0, isreified = 0 \<rparr>"

text \<open>What C guarantees of a literal: its strings are zero terminated and \<open>lang\<close> fits its array.\<close>

definition literal_ok :: "RDF_Node \<Rightarrow> bool" where
  "literal_ok obj = (case obj of Resource r \<Rightarrow> True
     | Literal l \<Rightarrow> length (lang l) < RDFSTORE_MAX_LANG_LENGTH
         \<and> cstring (opt_bytes (dataType l)))"

section \<open>The round trip\<close>

text \<open>The seven parts, in the order of their lengths and of their bytes.\<close>

definition record_parts :: "RDF_Statement \<Rightarrow> resource option \<Rightarrow> byte list list" where
  "record_parts st ctx =
     [ident (subject st), ident (predicate st)]
     @ (case object st of
          Resource r \<Rightarrow> [ident r, [], []]
        | Literal l \<Rightarrow> [opt_bytes (lit_string l), lang l, opt_bytes (dataType l)])
     @ [context_bytes ctx, context_bytes (st_node st)]"

lemma length_record_parts [simp]: "length (record_parts st ctx) = 7"
  by (simp add: record_parts_def split: RDF_Node.splits)

lemma length_pack_length [simp]: "length (pack_length s) = 4"
  by (simp add: pack_length_def)

lemma pack_length_Nil: "packInt 0 = pack_length []"
  by (simp add: pack_length_def)

lemma insert_record_parts:
  "insert_record st ctx =
     concat (map pack_length (record_parts st ctx)) @ [record_mask st ctx]
     @ concat (record_parts st ctx) @ [0]"
  by (cases "object st")
    (simp_all add: insert_record_def record_lengths_def record_object_def record_parts_def
      pack_length_Nil)

lemma length_concat_packed [simp]: "length (concat (map pack_length P)) = 4 * length P"
  by (induction P) simp_all

lemma length_insert_record: "length (insert_record st ctx) = 30 + length (concat (record_parts st ctx))"
  by (simp add: insert_record_parts)

lemma insert_record_mask: "insert_record st ctx ! 28 = record_mask st ctx"
  by (simp add: insert_record_parts nth_append)

lemma packed_nth:
  "k < length P \<Longrightarrow> take 4 (drop (4 * k) (concat (map pack_length P) @ rest)) = pack_length (P ! k)"
proof (induction P arbitrary: k)
  case (Cons s P)
  then show ?case by (cases k) simp_all
qed simp

lemma concat_part:
  assumes "k < length P"
  shows "concat P = concat (take k P) @ P ! k @ concat (drop (Suc k) P)"
  by (metis assms append_take_drop_id concat.simps(2) concat_append id_take_nth_drop)

lemma unpack_of_length: "n < 2 ^ 31 \<Longrightarrow> unat (of_nat n :: u32) = n"
  by (simp add: unat_of_nat take_bit_nat_eq_self)

definition part_start :: "RDF_Statement \<Rightarrow> resource option \<Rightarrow> nat \<Rightarrow> nat" where
  "part_start st ctx k = 29 + length (concat (take k (record_parts st ctx)))"

lemma part_start_0 [simp]: "part_start st ctx 0 = 29"
  by (simp add: part_start_def)

lemma fetch_part_record:
  assumes k: "k < 7" and len: "length (record_parts st ctx ! k) < 2 ^ 31"
    and off: "off = 4 * k" and p: "p = part_start st ctx k"
  shows "fetch_part (insert_record st ctx) off p
    = Inr (record_parts st ctx ! k, part_start st ctx (Suc k))"
proof -
  let ?P = "record_parts st ctx" and ?d = "insert_record st ctx"
  have hdr: "take 4 (drop (4 * k) ?d) = pack_length (?P ! k)"
    unfolding insert_record_parts using packed_nth [of k ?P] k by simp
  have next': "part_start st ctx (Suc k) = p + length (?P ! k)"
    unfolding p part_start_def using k by (simp add: take_Suc_conv_app_nth)
  have d: "?d = (concat (map pack_length ?P) @ [record_mask st ctx] @ concat (take k ?P))
      @ ?P ! k @ concat (drop (Suc k) ?P) @ [0]"
    unfolding insert_record_parts using concat_part [of k ?P] k by simp
  have lp: "p = length (concat (map pack_length ?P) @ [record_mask st ctx] @ concat (take k ?P))"
    unfolding p part_start_def by simp
  have "take (length (?P ! k)) (drop p ?d) = ?P ! k" "p + length (?P ! k) \<le> length ?d"
    using d lp by simp_all
  moreover have "unpack_length ?d (4 * k) = Inr (length (?P ! k))"
    unfolding unpack_length_def hdr using len k length_insert_record [of st ctx]
    by (simp add: pack_length_def unpack_of_length Let_def)
  ultimately show ?thesis
    unfolding fetch_part_def off next' by simp
qed

definition flags :: "bool \<Rightarrow> bool \<Rightarrow> bool \<Rightarrow> bool \<Rightarrow> bool \<Rightarrow> bool \<Rightarrow> byte" where
  "flags l s p b c r = (if l then 1 else 0) OR (if s then 2 else 0) OR (if p then 4 else 0)
     OR (if b then 8 else 0) OR (if c then 16 else 0) OR (if r then 32 else 0)"

lemma flags_and:
  "flags l s p b c r AND 1 = (if l then 1 else 0)"
  "flags l s p b c r AND 2 = (if s then 2 else 0)"
  "flags l s p b c r AND 4 = (if p then 4 else 0)"
  "flags l s p b c r AND 8 = (if b then 8 else 0)"
  "flags l s p b c r AND 16 = (if c then 16 else 0)"
  unfolding flags_def by (cases l; cases s; cases p; cases b; cases c; cases r; simp)+

lemma record_mask_flags:
  "record_mask st ctx =
     flags (case object st of Literal l \<Rightarrow> True | Resource r \<Rightarrow> False)
       (rtype (subject st) = 2) (rtype (predicate st) = 2)
       (case object st of Literal l \<Rightarrow> False | Resource r \<Rightarrow> rtype r = 2)
       (case ctx of None \<Rightarrow> False | Some c \<Rightarrow> rtype c = 2) (isreified st = 1)"
  unfolding record_mask_def flags_def by (cases "object st"; cases ctx) simp_all

lemma fetch_parts:
  assumes len: "\<forall>s\<in>set (record_parts st ctx). length s < 2 ^ 31"
  shows "fetch_part (insert_record st ctx) 0 29 = Inr (ident (subject st), part_start st ctx (Suc 0))"
    and "fetch_part (insert_record st ctx) 4 (part_start st ctx (Suc 0)) = Inr (ident (predicate st), part_start st ctx 2)"
    and "fetch_part (insert_record st ctx) 8 (part_start st ctx 2) = Inr (record_parts st ctx ! 2, part_start st ctx 3)"
    and "fetch_part (insert_record st ctx) 12 (part_start st ctx 3) = Inr (record_parts st ctx ! 3, part_start st ctx 4)"
    and "fetch_part (insert_record st ctx) 16 (part_start st ctx 4) = Inr (record_parts st ctx ! 4, part_start st ctx 5)"
    and "fetch_part (insert_record st ctx) 20 (part_start st ctx 5) = Inr (context_bytes ctx, part_start st ctx 6)"
    and "fetch_part (insert_record st ctx) 24 (part_start st ctx 6) = Inr (context_bytes (st_node st), part_start st ctx 7)"
proof -
  have l: "length (record_parts st ctx ! k) < 2 ^ 31" if "k < 7" for k
    using len that by (metis length_record_parts nth_mem)
  have n: "Suc 0 = 1" "Suc 1 = 2" "Suc 2 = 3" "Suc 3 = 4" "Suc 4 = 5" "Suc 5 = 6" "Suc 6 = 7" by simp_all
  have parts: "record_parts st ctx ! 0 = ident (subject st)" "record_parts st ctx ! 1 = ident (predicate st)"
    "record_parts st ctx ! 5 = context_bytes ctx" "record_parts st ctx ! 6 = context_bytes (st_node st)"
    by (simp_all add: record_parts_def split: RDF_Node.splits)
  note fp = fetch_part_record [OF _ l refl refl]
  show "fetch_part (insert_record st ctx) 0 29 = Inr (ident (subject st), part_start st ctx (Suc 0))"
    using fp [of 0] unfolding parts n by simp
  show "fetch_part (insert_record st ctx) 4 (part_start st ctx (Suc 0)) = Inr (ident (predicate st), part_start st ctx 2)"
    using fp [of 1] unfolding parts n by simp
  show "fetch_part (insert_record st ctx) 8 (part_start st ctx 2) = Inr (record_parts st ctx ! 2, part_start st ctx 3)"
    using fp [of 2] unfolding n by simp
  show "fetch_part (insert_record st ctx) 12 (part_start st ctx 3) = Inr (record_parts st ctx ! 3, part_start st ctx 4)"
    using fp [of 3] unfolding n by simp
  show "fetch_part (insert_record st ctx) 16 (part_start st ctx 4) = Inr (record_parts st ctx ! 4, part_start st ctx 5)"
    using fp [of 4] unfolding n by simp
  show "fetch_part (insert_record st ctx) 20 (part_start st ctx 5) = Inr (context_bytes ctx, part_start st ctx 6)"
    using fp [of 5] unfolding parts n by simp
  show "fetch_part (insert_record st ctx) 24 (part_start st ctx 6) = Inr (context_bytes (st_node st), part_start st ctx 7)"
    using fp [of 6] unfolding parts n by simp
qed

lemma fetch_literal_record:
  assumes obj: "object st = Literal l" and ok: "literal_ok (object st)"
    and len: "\<forall>s\<in>set (record_parts st ctx). length s < 2 ^ 31"
  shows "fetch_literal (insert_record st ctx) (part_start st ctx 2)
    = Inr (stored_object (object st), part_start st ctx 5)"
proof -
  have parts: "record_parts st ctx ! 2 = opt_bytes (lit_string l)" "record_parts st ctx ! 3 = lang l"
    "record_parts st ctx ! 4 = opt_bytes (dataType l)"
    by (simp_all add: record_parts_def obj)
  have "length (lang l) < 50" "cstring (opt_bytes (dataType l))"
    using ok obj by (simp_all add: literal_ok_def RDFSTORE_MAX_LANG_LENGTH_def)
  then show ?thesis
    unfolding fetch_literal_def
    by (simp add: fetch_parts [OF len] parts obj stored_object_def
        RDFSTORE_MAX_LANG_LENGTH_def strncmp0_prefix Let_def)
qed

lemma part_start_resource:
  "object st = Resource r \<Longrightarrow> part_start st ctx 3 = part_start st ctx 5"
  by (simp add: part_start_def record_parts_def numeral_eq_Suc)

lemma stored_optional_parts:
  "(if context_bytes c \<noteq> [] then Some \<lparr> rtype = t, ident = context_bytes c \<rparr> else None)
     = stored_optional (\<lambda>_. t) c"
  by (auto simp: context_bytes_def stored_optional_def split: option.splits)

lemma stored_context:
  "stored_optional (\<lambda>_. if (case ctx of None \<Rightarrow> False | Some c \<Rightarrow> rtype c = 2) then 2 else 0) ctx
     = stored_optional stored_type ctx"
  by (auto simp: stored_optional_def stored_type_def split: option.splits)

lemma fetch_optional_parts:
  assumes len: "\<forall>s\<in>set (record_parts st ctx). length s < 2 ^ 31"
  shows "fetch_optional (insert_record st ctx) 20 t (part_start st ctx 5)
      = Inr (stored_optional (\<lambda>_. t) ctx, part_start st ctx 6)"
    and "fetch_optional (insert_record st ctx) 24 t (part_start st ctx 6)
      = Inr (stored_optional (\<lambda>_. t) (st_node st), part_start st ctx 7)"
  unfolding fetch_optional_def fetch_parts [OF len] by (simp_all add: stored_optional_parts)

lemma fetch_record_insert_record:
  assumes ok: "literal_ok (object st)" and len: "\<forall>s\<in>set (record_parts st ctx). length s < 2 ^ 31"
  shows "fetch_record_parts (insert_record st ctx) = Inr (stored_form st ctx)"
proof -
  have size: "\<not> length (insert_record st ctx) < 29"
    by (simp add: length_insert_record)
  have mask: "(record_mask st ctx AND 16 \<noteq> 0) = (case ctx of None \<Rightarrow> False | Some c \<Rightarrow> rtype c = 2)"
    "(record_mask st ctx AND 2 \<noteq> 0) = (rtype (subject st) = 2)"
    "(record_mask st ctx AND 4 \<noteq> 0) = (rtype (predicate st) = 2)"
    by (simp_all add: record_mask_flags flags_and)
  show ?thesis
  proof (cases "object st")
    case (Resource r)
    have ob: "record_parts st ctx ! 2 = ident r" by (simp add: record_parts_def Resource)
    have m: "(record_mask st ctx AND 1 \<noteq> 0) = False" "(record_mask st ctx AND 8 \<noteq> 0) = (rtype r = 2)"
      by (simp_all add: record_mask_flags flags_and Resource)
    show ?thesis
      unfolding fetch_record_parts_def fetch_context_def fetch_node_def insert_record_mask mask m Let_def
      using size
      by (simp add: fetch_parts [OF len] fetch_optional_parts [OF len] ob Resource
          part_start_resource [OF Resource] stored_form_def stored_object_def
          stored_type_def stored_context split del: if_split)
  next
    case (Literal lit)
    have m: "(record_mask st ctx AND 1 \<noteq> 0) = True"
      by (simp_all add: record_mask_flags flags_and Literal)
    show ?thesis
      unfolding fetch_record_parts_def fetch_context_def fetch_node_def insert_record_mask mask m Let_def
      using size
      by (simp add: fetch_parts [OF len] fetch_optional_parts [OF len] 
          fetch_literal_record [OF Literal ok len] stored_form_def stored_type_def
          stored_context)
  qed
qed


definition sample_statement :: RDF_Statement where
  "sample_statement =
     \<lparr> subject = \<lparr> rtype = 0, ident = bytes_of ''http://a'' \<rparr>,
       predicate = \<lparr> rtype = 0, ident = bytes_of ''http://p'' \<rparr>,
       object = Literal \<lparr> lit_string = Some (bytes_of ''42''), parseType = 0, lang = bytes_of ''en'',
         dataType = Some (bytes_of ''http://int'') \<rparr>,
       st_context = None, st_node = None, hashcode = 7, isreified = 1 \<rparr>"


text \<open>Statements that survive as they are.\<close>

definition storable_object :: "RDF_Node \<Rightarrow> bool" where
  "storable_object obj = (case obj of
     Resource r \<Rightarrow> rtype r \<in> {0, 2}
   | Literal l \<Rightarrow> lit_string l \<noteq> None \<and> length (lang l) < RDFSTORE_MAX_LANG_LENGTH
       \<and> (case dataType l of
            None \<Rightarrow> parseType l = 0
          | Some dt \<Rightarrow> dt \<noteq> [] \<and> cstring dt
              \<and> parseType l = (if \<exists>x. RDFSTORE_RDF_PARSETYPE_LITERAL = dt @ x then 1 else 0)))"

definition storable_optional :: "int set \<Rightarrow> resource option \<Rightarrow> bool" where
  "storable_optional T c = (case c of None \<Rightarrow> True | Some r \<Rightarrow> ident r \<noteq> [] \<and> rtype r \<in> T)"

definition storable :: "RDF_Statement \<Rightarrow> bool" where
  "storable st \<longleftrightarrow>
     rtype (subject st) \<in> {0, 2} \<and> rtype (predicate st) \<in> {0, 2} \<and> storable_object (object st)
     \<and> storable_optional {0, 2} (st_context st) \<and> storable_optional {0} (st_node st)
     \<and> hashcode st = 0 \<and> isreified st = 0"

lemma stored_object_storable: "storable_object obj \<Longrightarrow> stored_object obj = obj"
proof (cases obj)
  case (Resource r)
  then show "storable_object obj \<Longrightarrow> ?thesis"
    by (cases r) (auto simp: storable_object_def stored_object_def stored_type_def)
next
  case (Literal l)
  then show "storable_object obj \<Longrightarrow> ?thesis"
    by (cases l; cases "lit_string l"; cases "dataType l")
      (simp_all add: storable_object_def stored_object_def opt_bytes_def Let_def)
qed

lemma stored_optional_storable:
  "storable_optional {0, 2} c \<Longrightarrow> stored_optional stored_type c = c"
  "storable_optional {0} c \<Longrightarrow> stored_optional (\<lambda>t. 0) c = c"
  by (cases c; auto simp: storable_optional_def stored_optional_def stored_type_def)+

lemma stored_type_storable: "rtype r \<in> {0, 2} \<Longrightarrow> r\<lparr>rtype := stored_type (rtype r)\<rparr> = r"
  by (cases r) (auto simp: stored_type_def)

lemma stored_form_storable: "storable st \<Longrightarrow> stored_form st (st_context st) = st"
  unfolding storable_def stored_form_def
  by (simp only: stored_type_storable stored_object_storable stored_optional_storable) simp

lemma storable_literal_ok: "storable st \<Longrightarrow> literal_ok (object st)"
  by (auto simp: storable_def storable_object_def literal_ok_def opt_bytes_def cstring_def
      split: RDF_Node.splits option.splits)

theorem insert_record_inject:
  assumes "storable st" and "storable st'"
    and "\<forall>s\<in>set (record_parts st (st_context st)). length s < 2 ^ 31"
    and "\<forall>s\<in>set (record_parts st' (st_context st')). length s < 2 ^ 31"
    and "insert_record st (st_context st) = insert_record st' (st_context st')"
  shows "st = st'"
proof -
  have "fetch_record_parts (insert_record st (st_context st)) = Inr st"
    using fetch_record_insert_record [OF storable_literal_ok [OF assms(1)] assms(3)]
    unfolding stored_form_storable [OF assms(1)] .
  moreover have "fetch_record_parts (insert_record st' (st_context st')) = Inr st'"
    using fetch_record_insert_record [OF storable_literal_ok [OF assms(2)] assms(4)]
    unfolding stored_form_storable [OF assms(2)] .
  ultimately show ?thesis unfolding assms(5) by simp
qed

theorem insert_record_overruns_alloc:
  "length (insert_record st ctx) = Suc (record_alloc st ctx)"
  by (cases "object st")
    (simp_all add: length_insert_record record_parts_def record_alloc_def context_bytes_def)

text \<open>A data type that is a proper prefix of the URI of \<open>rdf:XMLLiteral\<close> is taken for it.\<close>

theorem parseType_of_prefix:
  assumes "object st = Literal l" and "dataType l = Some dt" and "parseType l = 0"
    and "dt \<noteq> []" and "RDFSTORE_RDF_PARSETYPE_LITERAL = dt @ x"
    and "\<forall>s\<in>set (record_parts st ctx). length s < 2 ^ 31" and "literal_ok (object st)"
  shows "\<exists>st'. fetch_record_parts (insert_record st ctx) = Inr st'
    \<and> (\<exists>l'. object st' = Literal l' \<and> parseType l' = 1 \<and> dataType l' = Some dt)"
  using assms(1-5) fetch_record_insert_record [OF assms(7,6)]
  by (auto simp: stored_form_def stored_object_def opt_bytes_def Let_def)

theorem parseType_of_prefix_witness:
  "\<exists>st'. fetch_record_parts (insert_record
       (sample_statement\<lparr>object := Literal \<lparr> lit_string = None, parseType = 0, lang = [],
          dataType = Some (bytes_of ''http://www.w3.org/'') \<rparr>\<rparr>) None) = Inr st'
     \<and> (\<exists>l'. object st' = Literal l' \<and> parseType l' = 1
          \<and> dataType l' = Some (bytes_of ''http://www.w3.org/''))"
  by (rule parseType_of_prefix [where x = "bytes_of ''1999/02/22-rdf-syntax-ns#XMLLiteral''"
        and l = "\<lparr> lit_string = None, parseType = 0, lang = [],
          dataType = Some (bytes_of ''http://www.w3.org/'') \<rparr>"])
    (simp_all add: sample_statement_def literal_ok_def opt_bytes_def bytes_of_def cstring_def
      RDFSTORE_MAX_LANG_LENGTH_def record_parts_def context_bytes_def
      RDFSTORE_RDF_PARSETYPE_LITERAL_def)

theorem insert_record_inject_witness:
  "sample_statement\<lparr>object := Resource \<lparr> rtype = 2, ident = [1] \<rparr>, hashcode := 0, isreified := 0\<rparr>
     = \<lparr> subject = \<lparr> rtype = 0, ident = bytes_of ''http://a'' \<rparr>,
         predicate = \<lparr> rtype = 0, ident = bytes_of ''http://p'' \<rparr>,
         object = Resource \<lparr> rtype = 2, ident = [1] \<rparr>,
         st_context = None, st_node = None, hashcode = 0, isreified = 0 \<rparr>"
  by (rule insert_record_inject)
    (simp_all add: sample_statement_def storable_def storable_object_def storable_optional_def
      record_parts_def context_bytes_def bytes_of_def)

end
