(* ===== verification/Cdll.thy ===== *)
theory Cdll
  imports Prelude
begin

text \<open>
  The circular doubly linked list of the caching store (\<open>cdll_t\<close> of
  \<open>src/backend_caching_store.c\<close>) on an explicit heap: taking an element out and putting one
  in front of the head, with the pointer assignments in the order of the code. \<open>ring h xs\<close>
  says that the nodes \<open>xs\<close>, all different, are linked in this order and back to the first.
\<close>

record 'd cdll =
  c_data :: 'd
  c_cnt :: nat
  c_prev :: nat
  c_nxt :: nat

type_synonym 'd cdll_heap = "nat \<Rightarrow> 'd cdll"

definition set_nxt :: "'d cdll_heap \<Rightarrow> nat \<Rightarrow> nat \<Rightarrow> 'd cdll_heap" where
  "set_nxt h a b = h(a := (h a)\<lparr>c_nxt := b\<rparr>)"

definition set_prev :: "'d cdll_heap \<Rightarrow> nat \<Rightarrow> nat \<Rightarrow> 'd cdll_heap" where
  "set_prev h a b = h(a := (h a)\<lparr>c_prev := b\<rparr>)"

definition set_data :: "'d cdll_heap \<Rightarrow> nat \<Rightarrow> 'd \<Rightarrow> 'd cdll_heap" where
  "set_data h a d = h(a := (h a)\<lparr>c_data := d\<rparr>)"

definition set_cnt :: "'d cdll_heap \<Rightarrow> nat \<Rightarrow> nat \<Rightarrow> 'd cdll_heap" where
  "set_cnt h a n = h(a := (h a)\<lparr>c_cnt := n\<rparr>)"

text \<open>\<open>remove item from the list\<close>\<close>

definition unlink :: "'d cdll_heap \<Rightarrow> nat \<Rightarrow> 'd cdll_heap" where
  "unlink h i =
     (let h = set_prev h (c_nxt (h i)) (c_prev (h i))
      in set_nxt h (c_prev (h i)) (c_nxt (h i)))"

text \<open>\<open>squeeze it in at head\<close>; on an empty list the element is linked to itself\<close>

definition insert_head :: "'d cdll_heap \<Rightarrow> nat option \<Rightarrow> nat \<Rightarrow> 'd cdll_heap" where
  "insert_head h head i = (case head of
     Some f \<Rightarrow>
       (let h = set_nxt h i f;
            h = set_prev h i (c_prev (h f));
            h = set_nxt h (c_prev (h f)) i
        in set_prev h f i)
   | None \<Rightarrow> set_prev (set_nxt h i i) i i)"

text \<open>\<open>Remove from the tail\<close>: the last element, the new head and the new heap\<close>

definition drop_tail :: "'d cdll_heap \<Rightarrow> nat \<Rightarrow> nat \<times> nat \<times> 'd cdll_heap" where
  "drop_tail h head =
     (let last = c_prev (h head);
          head = c_nxt (h last);
          h = set_prev h head (c_prev (h last));
          h = set_nxt h (c_prev (h head)) head
      in (last, head, h))"

section \<open>Chains and rings\<close>

fun chain :: "'d cdll_heap \<Rightarrow> nat list \<Rightarrow> bool" where
  "chain h (a # b # r) \<longleftrightarrow> c_nxt (h a) = b \<and> c_prev (h b) = a \<and> chain h (b # r)"
| "chain h [a] \<longleftrightarrow> True"
| "chain h [] \<longleftrightarrow> True"

definition ring :: "'d cdll_heap \<Rightarrow> nat list \<Rightarrow> bool" where
  "ring h xs \<longleftrightarrow> distinct xs \<and> (xs \<noteq> [] \<longrightarrow> chain h (xs @ [hd xs]))"

lemma chain_append: "chain h (xs @ y # zs) \<longleftrightarrow> chain h (xs @ [y]) \<and> chain h (y # zs)"
proof (induction xs)
  case (Cons a xs)
  then show ?case by (cases xs) auto
qed simp

lemma chain_snoc: "xs \<noteq> [] \<Longrightarrow>
  chain h (xs @ [y]) \<longleftrightarrow> chain h xs \<and> c_nxt (h (last xs)) = y \<and> c_prev (h y) = last xs"
  by (metis append_Cons append_Nil append_butlast_last_id append_eq_append_conv2 chain.simps(1) chain.simps(2) chain_append)

lemma chain_cong:
  "(\<And>a. a \<in> set (butlast xs) \<Longrightarrow> c_nxt (h a) = c_nxt (h' a)) \<Longrightarrow>
   (\<And>a. a \<in> set (tl xs) \<Longrightarrow> c_prev (h a) = c_prev (h' a)) \<Longrightarrow> chain h xs \<longleftrightarrow> chain h' xs"
proof (induction h xs rule: chain.induct)
  case (1 h a b r)
  have "chain h (b # r) \<longleftrightarrow> chain h' (b # r)"
    by (rule "1.IH") (use "1.prems" in auto)
  with "1.prems" show ?case by auto
qed auto

lemma set_nxt_simps [simp]:
  "c_nxt (set_nxt h a b x) = (if x = a then b else c_nxt (h x))"
  "c_prev (set_nxt h a b x) = c_prev (h x)" "c_data (set_nxt h a b x) = c_data (h x)"
  by (simp_all add: set_nxt_def)

lemma set_prev_simps [simp]:
  "c_prev (set_prev h a b x) = (if x = a then b else c_prev (h x))"
  "c_nxt (set_prev h a b x) = c_nxt (h x)" "c_data (set_prev h a b x) = c_data (h x)"
  by (simp_all add: set_prev_def)

lemma set_data_simps [simp]:
  "c_data (set_data h a d x) = (if x = a then d else c_data (h x))"
  "c_nxt (set_data h a d x) = c_nxt (h x)" "c_prev (set_data h a d x) = c_prev (h x)"
  by (simp_all add: set_data_def)

lemma set_cnt_simps [simp]:
  "c_data (set_cnt h a n x) = c_data (h x)"
  "c_nxt (set_cnt h a n x) = c_nxt (h x)" "c_prev (set_cnt h a n x) = c_prev (h x)"
  by (simp_all add: set_cnt_def)

lemma ring_cong:
  assumes "\<And>a. c_nxt (h a) = c_nxt (h' a)" and "\<And>a. c_prev (h a) = c_prev (h' a)"
  shows "ring h xs \<longleftrightarrow> ring h' xs"
  using chain_cong [of "xs @ [hd xs]" h h'] assms by (auto simp: ring_def)

lemma data_insert_head [simp]: "c_data (insert_head h head i x) = c_data (h x)"
  by (simp add: insert_head_def Let_def split: option.split)

lemma data_unlink [simp]: "c_data (unlink h i x) = c_data (h x)"
  by (simp add: unlink_def Let_def)

lemma ring_head:
  assumes "ring h xs" and "xs \<noteq> []"
  shows "c_prev (h (hd xs)) = last xs" and "c_nxt (h (last xs)) = hd xs" and "chain h xs"
  using assms chain_snoc [of xs h "hd xs"] by (auto simp: ring_def)

lemma hd_notin_tl: "distinct xs \<Longrightarrow> xs \<noteq> [] \<Longrightarrow> hd xs \<notin> set (tl xs)"
  by (cases xs) auto

lemma last_notin_butlast: "distinct xs \<Longrightarrow> xs \<noteq> [] \<Longrightarrow> last xs \<notin> set (butlast xs)"
  by (metis append_butlast_last_id distinct_append not_distinct_conv_prefix)

lemma ring_insert_head:
  assumes r: "ring h xs" and n: "i \<notin> set xs"
    and hd: "head = (if xs = [] then None else Some (hd xs))"
  shows "ring (insert_head h head i) (i # xs)"
proof (cases "xs = []")
  case True
  then show ?thesis by (simp add: hd ring_def insert_head_def)
next
  case False
  let ?h = "insert_head h head i"
  note rh = ring_head [OF r False]
  have d: "distinct xs" using r by (simp add: ring_def)
  have ne: "hd xs \<noteq> i" "last xs \<noteq> i" using n False by auto
  have nxt: "c_nxt (?h a) = (if a = last xs then i else if a = i then hd xs else c_nxt (h a))" for a
    using False ne rh(1) by (simp add: hd insert_head_def Let_def)
  have prev: "c_prev (?h a) = (if a = hd xs then i else if a = i then last xs else c_prev (h a))" for a
    using False ne rh(1) by (simp add: hd insert_head_def Let_def)
  have "chain ?h xs \<longleftrightarrow> chain h xs"
  proof (rule chain_cong)
    fix a assume "a \<in> set (butlast xs)"
    then show "c_nxt (?h a) = c_nxt (h a)"
      using last_notin_butlast [OF d False] n by (auto simp: nxt dest: in_set_butlastD)
  next
    fix a assume "a \<in> set (tl xs)"
    then show "c_prev (?h a) = c_prev (h a)"
      using hd_notin_tl [OF d False] n by (auto simp: prev dest: list.set_sel(2) [OF False])
  qed
  then have "chain ?h (xs @ [i])" using rh(3) False ne by (simp add: chain_snoc nxt prev)
  moreover have "chain ?h (i # xs @ [i]) \<longleftrightarrow> c_nxt (?h i) = hd xs \<and> c_prev (?h (hd xs)) = i \<and> chain ?h (xs @ [i])"
    using False by (cases xs) simp_all
  ultimately show ?thesis using d n ne by (simp add: ring_def nxt prev)
qed

lemma ring_unlink:
  assumes r: "ring h (as @ i # bs)" and ne: "as \<noteq> []"
  shows "ring (unlink h i) (as @ bs)"
proof -
  let ?h = "unlink h i"
  define p where "p = last as"
  obtain q rest where q: "bs @ [hd as] = q # rest" by (cases bs) auto
  have d: "distinct (as @ i # bs)" using r by (simp add: ring_def)
  have "chain h (as @ i # (bs @ [hd as]))" using r ne by (simp add: ring_def)
  then have c: "chain h (as @ [i])" "chain h (i # q # rest)"
    using chain_append [of h as i "bs @ [hd as]"] q by simp_all
  have iq: "i \<noteq> q" "i \<noteq> p"
    using d ne q unfolding p_def by (cases bs, auto)
  have p: "c_prev (h i) = p" "chain h as" using c(1) ne by (simp_all add: chain_snoc p_def)
  have cq: "c_nxt (h i) = q" "chain h (q # rest)" using c(2) by simp_all
  have nxt: "c_nxt (?h a) = (if a = p then q else c_nxt (h a))"
    and prev: "c_prev (?h a) = (if a = q then p else c_prev (h a))" for a
    using iq p cq by (auto simp: unlink_def Let_def)
  have "chain ?h as \<longleftrightarrow> chain h as"
  proof (rule chain_cong)
    fix a assume "a \<in> set (butlast as)"
    moreover have "p \<notin> set (butlast as)" unfolding p_def using last_notin_butlast ne d by auto
    ultimately show "c_nxt (?h a) = c_nxt (h a)" by (auto simp: nxt)
  next
    fix a assume a: "a \<in> set (tl as)"
    have "q \<notin> set (tl as)"
    proof (cases bs)
      case Nil
      then show ?thesis using q hd_notin_tl ne d by auto
    next
      case (Cons b bs')
      then show ?thesis using q d list.set_sel(2) [OF ne] by auto
    qed
    with a show "c_prev (?h a) = c_prev (h a)" by (auto simp: prev)
  qed
  moreover have "chain ?h (q # rest) \<longleftrightarrow> chain h (q # rest)"
  proof (rule chain_cong)
    fix a assume a: "a \<in> set (butlast (q # rest))"
    have "butlast (q # rest) = bs" by (simp flip: q)
    then have "a \<in> set bs" using a by simp
    moreover have "p \<in> set as" using ne by (simp add: p_def)
    ultimately have "a \<noteq> p" using d by auto
    then show "c_nxt (?h a) = c_nxt (h a)" by (simp add: nxt)
  next
    fix a assume a: "a \<in> set (tl (q # rest))"
    have "q \<notin> set rest"
    proof (cases bs)
      case Nil
      then show ?thesis using q by simp
    next
      case (Cons b bs')
      then have "rest = bs' @ [hd as]" "q = b" using q by auto
      then show ?thesis using Cons d ne hd_in_set [OF ne] by auto
    qed
    with a show "c_prev (?h a) = c_prev (h a)" by (auto simp: prev)
  qed
  ultimately have "chain ?h as" "chain ?h (q # rest)" using p cq by simp_all
  moreover have "c_nxt (?h (last as)) = q" "c_prev (?h q) = last as" by (simp_all add: nxt prev p_def)
  ultimately have "chain ?h (as @ q # rest)"
    using chain_append [of ?h as q rest] ne by (simp add: chain_snoc)
  then have "chain ?h ((as @ bs) @ [hd (as @ bs)])" using ne q by simp
  then show ?thesis using d by (simp add: ring_def)
qed

lemma drop_tail_unlink:
  assumes "ring h (xs @ [i])" and "xs \<noteq> []"
  shows "drop_tail h (hd xs) = (i, hd xs, unlink h i)"
proof -
  have l: "c_prev (h (hd xs)) = i" "c_nxt (h i) = hd xs"
    using ring_head [OF assms(1)] assms(2) by simp_all
  have "i \<noteq> hd xs" using assms by (cases xs) (auto simp: ring_def)
  then show ?thesis using l by (simp add: drop_tail_def unlink_def Let_def)
qed

end
