(* ===== verification/Caching.thy ===== *)
theory Caching
  imports Cdll Flatdb "HOL-Library.List_Lexorder"
begin

text \<open>
  The caching store of \<open>src/backend_caching_store.c\<close>: a write-back cache of at most
  \<open>maxcache\<close> keys in front of a backend. The first part is the program: the nodes of the
  cache on a heap, the circular list \<open>head\<close> with the most recently used key first, the index
  \<open>idx\<close> sorted by key and searched with \<open>bsearch\<close>. The second part is the same cache as one
  list of records, most recently used first, and a simulation between the two. The third
  part shows that cache and backend together are again a table (\<open>flat_table\<close>).

  The value of a record that has none is the empty list. Allocation succeeds; a failed
  assertion is \<open>None\<close>.
\<close>

section \<open>Records and their order\<close>

datatype cstate = UNDEF | EXISTS | CHANGED | NOTFOUND | DELETED

record data_t =
  d_key :: flat_key
  d_val :: flat_data
  d_state :: cstate

fun memcmp :: "nat \<Rightarrow> byte list \<Rightarrow> byte list \<Rightarrow> int" where
  "memcmp (Suc n) (x # a) (y # b) = (if x < y then - 1 else if y < x then 1 else memcmp n a b)"
| "memcmp n a b = 0"

text \<open>\<open>_cmp\<close> on the keys of two records\<close>

definition key_cmp :: "flat_key \<Rightarrow> flat_key \<Rightarrow> int" where
  "key_cmp k l =
     (let c = memcmp (min (length k) (length l)) k l in
      if c \<noteq> 0 then c
      else if length k < length l then - 1
      else if length k > length l then 1
      else 0)"

section \<open>Callbacks\<close>

text \<open>\<open>_fetch\<close>: both positives and negatives are cached; after any other error the record stays as it was\<close>

definition cb_fetch :: "'s backend \<Rightarrow> 's \<Rightarrow> data_t \<Rightarrow> 's \<times> flat_error \<times> data_t" where
  "cb_fetch B s d =
     (case be_fetch B s (d_key d) of
        (s', Inr v) \<Rightarrow> (s', 0, d\<lparr>d_val := v, d_state := EXISTS\<rparr>)
      | (s', Inl e) \<Rightarrow>
          if e = FLAT_STORE_E_NOTFOUND then (s', 0, d\<lparr>d_state := NOTFOUND\<rparr>) else (s', e, d))"

definition cb_store :: "'s backend \<Rightarrow> 's \<Rightarrow> data_t \<Rightarrow> 's \<times> flat_error" where
  "cb_store B s d =
     (if d_state d \<noteq> CHANGED then (s, 0)
      else case be_store B s (d_key d) (d_val d) of
        (s', e) \<Rightarrow> (s', if e = FLAT_STORE_E_KEYEXIST then 0 else e))"

definition cb_delete :: "'s backend \<Rightarrow> 's \<Rightarrow> data_t \<Rightarrow> 's \<times> flat_error \<times> data_t" where
  "cb_delete B s d =
     (case be_delete B s (d_key d) of
        (s', e) \<Rightarrow> (s', if e = FLAT_STORE_E_KEYEXIST then 0 else e, d\<lparr>d_state := NOTFOUND\<rparr>))"

section \<open>The cache on the heap\<close>

record caching_store =
  maxcache :: nat
  idx :: "nat list"
  heap :: "data_t cdll_heap"
  c_head :: "nat option"
  n_hit :: nat
  n_miss :: nat
  n_drop :: nat
  brk :: nat

definition DEFAULTMAXCACHE :: nat where
  "DEFAULTMAXCACHE = 1000"

definition init_cachingstore :: "nat \<Rightarrow> caching_store" where
  "init_cachingstore max_cache_nelems =
     \<lparr> maxcache = (if max_cache_nelems \<noteq> 0 then max_cache_nelems else DEFAULTMAXCACHE), idx = [],
       heap = (\<lambda>_. \<lparr> c_data = \<lparr> d_key = [], d_val = [], d_state = UNDEF \<rparr>, c_cnt = 0, c_prev = 0, c_nxt = 0 \<rparr>),
       c_head = None, n_hit = 0, n_miss = 0, n_drop = 0, brk = 0 \<rparr>"

definition node_key :: "data_t cdll_heap \<Rightarrow> nat \<Rightarrow> flat_key" where
  "node_key h a = d_key (c_data (h a))"

text \<open>\<open>bsearch\<close> of the C library on \<open>idx\<close> with \<open>cmp_key\<close>: the position of an entry with the key\<close>

function bsearch_loop :: "data_t cdll_heap \<Rightarrow> nat list \<Rightarrow> flat_key \<Rightarrow> nat \<Rightarrow> nat \<Rightarrow> nat option" where
  "bsearch_loop h ix k l u =
     (if l < u then
        let m = (l + u) div 2; c = key_cmp k (node_key h (ix ! m)) in
        if c < 0 then bsearch_loop h ix k l m
        else if c > 0 then bsearch_loop h ix k (m + 1) u
        else Some m
      else None)"
  by pat_completeness auto
termination
  by (relation "measure (\<lambda>(h, ix, k, l, u). u - l)") auto

declare bsearch_loop.simps [simp del]

definition bsearch_idx :: "caching_store \<Rightarrow> flat_key \<Rightarrow> nat option" where
  "bsearch_idx me k = (if idx me = [] then None else bsearch_loop (heap me) (idx me) k 0 (length (idx me)))"

text \<open>\<open>qsort\<close> with \<open>cmp_pair\<close>\<close>

definition sort_idx :: "caching_store \<Rightarrow> caching_store" where
  "sort_idx me = (if length (idx me) > 1 then me\<lparr>idx := sort_key (node_key (heap me)) (idx me)\<rparr> else me)"

datatype bc_op = BC_READ | BC_WRITE | BC_EXISTS | BC_DELETE

text \<open>What an operation puts into the record of a key that is new, of one that is cached.\<close>

definition miss_data :: "'s backend \<Rightarrow> bc_op \<Rightarrow> 's \<Rightarrow> data_t \<Rightarrow> 's \<times> flat_error \<times> data_t" where
  "miss_data B op s d = (case op of
     BC_WRITE \<Rightarrow> (s, 0, d)
   | BC_DELETE \<Rightarrow> cb_delete B s d
   | BC_READ \<Rightarrow> cb_fetch B s d
   | BC_EXISTS \<Rightarrow> cb_fetch B s d)"

definition hit_data :: "'s backend \<Rightarrow> bc_op \<Rightarrow> 's \<Rightarrow> data_t \<Rightarrow> data_t \<Rightarrow> 's \<times> flat_error \<times> data_t" where
  "hit_data B op s d old = (case op of
     BC_WRITE \<Rightarrow> (s, 0, d)
   | BC_DELETE \<Rightarrow> cb_delete B s d
   | BC_READ \<Rightarrow> (s, 0, old)
   | BC_EXISTS \<Rightarrow> (s, 0, old))"

text \<open>The slot of a new key: that of the key at the tail when the cache is full, else a fresh one.\<close>

definition make_room :: "'s backend \<Rightarrow> 's \<times> caching_store \<Rightarrow> ('s \<times> caching_store \<times> nat) option" where
  "make_room B sm =
     (let (s, me) = sm in
      if length (idx me) \<ge> maxcache me then
        let (last, head, h) = drop_tail (heap me) (the (c_head me)) in
        case bsearch_idx (me\<lparr>heap := h\<rparr>) (node_key h last) of
          None \<Rightarrow> None
        | Some i \<Rightarrow>
            Some (fst (cb_store B s (c_data (h last))),
              me\<lparr>heap := h, c_head := Some head, n_drop := n_drop me + 1\<rparr>, idx me ! i)
      else Some (s, me\<lparr>idx := idx me @ [brk me], brk := brk me + 1\<rparr>, brk me))"

text \<open>\<open>if not already in front - move to the front\<close>\<close>

definition move_to_front :: "caching_store \<Rightarrow> nat \<Rightarrow> caching_store" where
  "move_to_front me a =
     (if c_head me \<noteq> None \<and> c_head me \<noteq> Some a
      then me\<lparr>heap := insert_head (unlink (heap me) a) (c_head me) a, c_head := Some a\<rparr>
      else me)"

text \<open>The state of backend and cache afterwards, the error code, and the record handed out.\<close>

definition cachekey ::
  "'s backend \<Rightarrow> bc_op \<Rightarrow> data_t \<Rightarrow> 's \<times> caching_store \<Rightarrow> (('s \<times> caching_store) \<times> flat_error \<times> data_t) option"
where
  "cachekey B op d sm =
     (let (s, me) = sm in
      case bsearch_idx me (d_key d) of
        None \<Rightarrow>
          (case make_room B (s, me\<lparr>n_miss := n_miss me + 1\<rparr>) of
             None \<Rightarrow> None
           | Some (s, me, a) \<Rightarrow>
               let (s, e, d') = miss_data B op s d;
                   h = set_cnt (set_data (heap me) a d') a 0;
                   me = me\<lparr>heap := insert_head h (c_head me) a, c_head := Some a\<rparr>
               in Some ((s, sort_idx me), e, d'))
      | Some i \<Rightarrow>
          let a = idx me ! i;
              me = move_to_front (me\<lparr>n_hit := n_hit me + 1\<rparr>) a;
              (s, e, d') = hit_data B op s d (c_data (heap me a));
              h = set_data (heap me) a d'
          in Some ((s, me\<lparr>heap := set_cnt h a (c_cnt (h a) + 1)\<rparr>), e, d'))"

text \<open>The nodes from the head on, as the \<open>nxt\<close> pointers give them.\<close>

fun follow :: "data_t cdll_heap \<Rightarrow> nat \<Rightarrow> nat \<Rightarrow> nat list" where
  "follow h a 0 = []"
| "follow h a (Suc n) = a # follow h (c_nxt (h a)) n"

definition nodes_of :: "caching_store \<Rightarrow> nat list" where
  "nodes_of me = (case c_head me of None \<Rightarrow> [] | Some a \<Rightarrow> follow (heap me) a (length (idx me)))"

text \<open>\<open>purgecache\<close>: every record to the backend, from the head on\<close>

definition purgecache :: "'s backend \<Rightarrow> 's \<times> caching_store \<Rightarrow> 's \<times> caching_store" where
  "purgecache B sm =
     (let (s, me) = sm in
      case c_head me of None \<Rightarrow> (s, me)
      | Some a \<Rightarrow>
          (foldl (\<lambda>s a. fst (cb_store B s (c_data (heap me a)))) s (nodes_of me),
           me\<lparr>c_head := None, idx := []\<rparr>))"

section \<open>Order and search\<close>

lemma key_cmp_Cons [simp]:
  "key_cmp (x # k) (y # l) = (if x < y then - 1 else if y < x then 1 else key_cmp k l)"
  by (simp add: key_cmp_def Let_def)

lemma key_cmp_Nil [simp]:
  "key_cmp [] l = (if l = [] then 0 else - 1)" "key_cmp k [] = (if k = [] then 0 else 1)"
  by (cases l; cases k; simp add: key_cmp_def Let_def)+

lemma key_cmp_less: "key_cmp k l < 0 \<longleftrightarrow> k < l" and key_cmp_greater: "key_cmp k l > 0 \<longleftrightarrow> l < k"
proof (induction k arbitrary: l)
  case Nil
  { case 1 show ?case by (cases l) simp_all }
  { case 2 show ?case by (cases l) simp_all }
next
  case (Cons x k)
  { case 1 show ?case using Cons by (cases l) (auto simp: not_less_iff_gr_or_eq) }
  { case 2 show ?case using Cons by (cases l) (auto simp: not_less_iff_gr_or_eq) }
qed

lemma bsearch_loop_spec:
  assumes "sorted_wrt (<) (map (node_key h) ix)" and "u \<le> length ix"
    and "\<forall>j<l. node_key h (ix ! j) < k" and "\<forall>j. u \<le> j \<and> j < length ix \<longrightarrow> k < node_key h (ix ! j)"
  shows "case bsearch_loop h ix k l u of
      Some m \<Rightarrow> m < length ix \<and> node_key h (ix ! m) = k
    | None \<Rightarrow> \<forall>j<length ix. node_key h (ix ! j) \<noteq> k"
  using assms
proof (induction h ix k l u rule: bsearch_loop.induct)
  case (1 h ix k l u)
  let ?m = "(l + u) div 2" and ?key = "\<lambda>j. node_key h (ix ! j)"
  have srt: "i < j \<Longrightarrow> j < length ix \<Longrightarrow> ?key i < ?key j" for i j
    using "1.prems"(1) by (simp add: sorted_wrt_iff_nth_less)
  show ?case
  proof (cases "l < u")
    case False
    with "1.prems"(3,4) have "\<forall>j<length ix. ?key j \<noteq> k" by (metis less_irrefl not_less order_le_less_trans)
    with False show ?thesis by (simp add: bsearch_loop.simps [of h ix k l u])
  next
    case True
    then have m: "l \<le> ?m" "?m < u" "?m < length ix" using "1.prems"(2) by auto
    consider (lt) "k < ?key ?m" | (gt) "?key ?m < k" | (eq) "?key ?m = k" using linorder_cases by blast
    then show ?thesis
    proof cases
      case lt
      then have c: "key_cmp k (?key ?m) < 0" by (simp add: key_cmp_less)
      have hi: "\<forall>j. ?m \<le> j \<and> j < length ix \<longrightarrow> k < ?key j"
        using lt srt [of ?m] by (metis le_neq_implies_less order_less_trans)
      show ?thesis
        using "1.IH"(1) [OF True refl refl c "1.prems"(1) _ "1.prems"(3) hi] m(3) c True
        by (simp add: bsearch_loop.simps [of h ix k l u] Let_def)
    next
      case gt
      then have c: "\<not> key_cmp k (?key ?m) < 0" "key_cmp k (?key ?m) > 0"
        using key_cmp_less key_cmp_greater less_asym by blast+
      have lo: "\<forall>j<?m + 1. ?key j < k"
        using gt srt [of _ ?m] m(3) by (metis Suc_eq_plus1 less_Suc_eq order_less_trans)
      show ?thesis
        using "1.IH"(2) [OF True refl refl c "1.prems"(1,2) lo "1.prems"(4)] c True
        by (simp add: bsearch_loop.simps [of h ix k l u] Let_def)
    next
      case eq
      then have "\<not> key_cmp k (?key ?m) < 0" "\<not> key_cmp k (?key ?m) > 0"
        by (simp_all add: key_cmp_less key_cmp_greater)
      with True m eq show ?thesis by (simp add: bsearch_loop.simps [of h ix k l u] Let_def)
    qed
  qed
qed

lemma bsearch_idx_spec:
  assumes "sorted_wrt (<) (map (node_key (heap me)) (idx me))"
  shows "case bsearch_idx me k of
      Some i \<Rightarrow> i < length (idx me) \<and> node_key (heap me) (idx me ! i) = k
    | None \<Rightarrow> \<forall>a\<in>set (idx me). node_key (heap me) a \<noteq> k"
proof -
  have "case bsearch_loop (heap me) (idx me) k 0 (length (idx me)) of
      Some m \<Rightarrow> m < length (idx me) \<and> node_key (heap me) (idx me ! m) = k
    | None \<Rightarrow> \<forall>j<length (idx me). node_key (heap me) (idx me ! j) \<noteq> k"
    using assms by (intro bsearch_loop_spec) auto
  then show ?thesis
    by (auto simp: bsearch_idx_def in_set_conv_nth split: option.splits)
qed

section \<open>The cache as a list\<close>

text \<open>One step on the list of records, most recently used first.\<close>

definition lru_key ::
  "'s backend \<Rightarrow> bc_op \<Rightarrow> data_t \<Rightarrow> nat \<Rightarrow> 's \<times> data_t list \<Rightarrow> ('s \<times> data_t list) \<times> flat_error \<times> data_t"
where
  "lru_key B op d M sL =
     (let (s, L) = sL in
      case find (\<lambda>x. d_key x = d_key d) L of
        None \<Rightarrow>
          let (s, L) = (if length L \<ge> M then (fst (cb_store B s (last L)), butlast L) else (s, L));
              (s, e, d') = miss_data B op s d
          in ((s, d' # L), e, d')
      | Some x \<Rightarrow>
          let (s, e, d') = hit_data B op s d x
          in ((s, d' # filter (\<lambda>y. d_key y \<noteq> d_key d) L), e, d'))"

definition cache_rep :: "caching_store \<Rightarrow> nat list \<Rightarrow> bool" where
  "cache_rep me xs \<longleftrightarrow> ring (heap me) xs \<and> set xs = set (idx me) \<and> distinct (idx me)
     \<and> c_head me = (if xs = [] then None else Some (hd xs))
     \<and> sorted_wrt (<) (map (node_key (heap me)) (idx me))
     \<and> length (idx me) \<le> maxcache me \<and> 2 \<le> maxcache me \<and> (\<forall>a\<in>set xs. a < brk me)"

definition records :: "caching_store \<Rightarrow> nat list \<Rightarrow> data_t list" where
  "records me xs = map (\<lambda>a. c_data (heap me a)) xs"

lemma cache_rep_length: "cache_rep me xs \<Longrightarrow> length xs = length (idx me)"
  by (metis cache_rep_def distinct_card ring_def)

lemma cache_rep_keys:
  assumes "cache_rep me xs"
  shows "inj_on (node_key (heap me)) (set xs)"
proof -
  have "distinct (map (node_key (heap me)) (idx me))"
    using assms strict_sorted_iff by (auto simp: cache_rep_def)
  then show ?thesis using assms by (simp add: distinct_map cache_rep_def)
qed

lemma sort_idx_rep:
  assumes "ring (heap me) xs" "set xs = set (idx me)" "distinct (idx me)"
    and "c_head me = (if xs = [] then None else Some (hd xs))"
    and "inj_on (node_key (heap me)) (set (idx me))"
    and "length (idx me) \<le> maxcache me" "2 \<le> maxcache me" "\<forall>a\<in>set xs. a < brk me"
  shows "cache_rep (sort_idx me) xs" and "heap (sort_idx me) = heap me"
    and "maxcache (sort_idx me) = maxcache me"
proof -
  have "sorted_wrt (<) (map (node_key (heap me)) (sort_key (node_key (heap me)) (idx me)))"
    using assms(3,5) by (simp add: strict_sorted_iff distinct_map)
  moreover have "sorted_wrt (<) (map (node_key (heap me)) (idx me))" if "\<not> 1 < length (idx me)"
    using that by (cases "idx me" rule: remdups_adj.cases) auto
  ultimately show "cache_rep (sort_idx me) xs"
    using assms by (simp add: cache_rep_def sort_idx_def)
  show "heap (sort_idx me) = heap me" "maxcache (sort_idx me) = maxcache me"
    by (simp_all add: sort_idx_def)
qed

lemma find_records:
  "find (\<lambda>x. d_key x = k) (records me xs) = map_option (\<lambda>a. c_data (heap me a)) (find (\<lambda>a. node_key (heap me) a = k) xs)"
  by (induction xs) (auto simp: records_def node_key_def)


lemma find_node:
  assumes "cache_rep me xs"
  shows "case bsearch_idx me k of
      None \<Rightarrow> find (\<lambda>a. node_key (heap me) a = k) xs = None
    | Some i \<Rightarrow> idx me ! i \<in> set xs \<and> node_key (heap me) (idx me ! i) = k
        \<and> find (\<lambda>a. node_key (heap me) a = k) xs = Some (idx me ! i)"
proof -
  have srt: "sorted_wrt (<) (map (node_key (heap me)) (idx me))" and set: "set xs = set (idx me)"
    using assms by (simp_all add: cache_rep_def)
  show ?thesis
  proof (cases "bsearch_idx me k")
    case None
    then show ?thesis using bsearch_idx_spec [OF srt, of k] set by (simp add: find_None_iff)
  next
    case (Some i)
    then have i: "idx me ! i \<in> set xs" "node_key (heap me) (idx me ! i) = k"
      using bsearch_idx_spec [OF srt, of k] set by auto
    then obtain b where b: "find (\<lambda>a. node_key (heap me) a = k) xs = Some b"
      by (metis (mono_tags, lifting) find_None_iff not_None_eq)
    then have "b \<in> set xs" "node_key (heap me) b = k" by (auto simp: find_Some_iff)
    then have "b = idx me ! i" using i cache_rep_keys [OF assms] by (auto dest: inj_onD)
    with Some i b show ?thesis by simp
  qed
qed

lemma miss_data_key: "miss_data B op s d = (s', e, d') \<Longrightarrow> d_key d' = d_key d"
  by (auto simp: miss_data_def cb_fetch_def cb_delete_def split: bc_op.splits prod.splits sum.splits if_splits)

lemma hit_data_key: "hit_data B op s d x = (s', e, d') \<Longrightarrow> d_key x = d_key d \<Longrightarrow> d_key d' = d_key d"
  by (auto simp: hit_data_def cb_delete_def split: bc_op.splits prod.splits)

subsection \<open>A hit\<close>

lemma move_to_front_rep:
  assumes rep: "cache_rep me xs" and a: "a \<in> set xs"
  shows "cache_rep (move_to_front me a) (a # filter (\<lambda>b. b \<noteq> a) xs)"
    and "c_data (heap (move_to_front me a) b) = c_data (heap me b)"
    and "idx (move_to_front me a) = idx me" and "maxcache (move_to_front me a) = maxcache me"
proof -
  have xs: "distinct xs" "xs \<noteq> []" "c_head me = Some (hd xs)" "ring (heap me) xs"
    using rep a by (auto simp: cache_rep_def ring_def)
  show d: "c_data (heap (move_to_front me a) b) = c_data (heap me b)" for b
    by (simp add: move_to_front_def)
  show i: "idx (move_to_front me a) = idx me" "maxcache (move_to_front me a) = maxcache me"
    by (simp_all add: move_to_front_def)
  show "cache_rep (move_to_front me a) (a # filter (\<lambda>b. b \<noteq> a) xs)"
  proof (cases "hd xs = a")
    case True
    then have "filter (\<lambda>b. b \<noteq> a) xs = tl xs" "xs = a # tl xs"
      using xs(1,2) by (cases xs; auto simp: filter_id_conv)+
    with rep True show ?thesis by (simp add: move_to_front_def xs(3))
  next
    case False
    from a obtain as bs where split: "xs = as @ a # bs" by (meson split_list)
    with False have ne: "as \<noteq> []" by auto
    have "filter (\<lambda>b. b \<noteq> a) as = as" "filter (\<lambda>b. b \<noteq> a) bs = bs"
      using xs(1) unfolding split by (auto simp: filter_id_conv)
    then have f: "filter (\<lambda>b. b \<noteq> a) xs = as @ bs" by (simp add: split)
    have "ring (unlink (heap me) a) (as @ bs)" using ring_unlink ne xs(4) split by blast
    then have "ring (insert_head (unlink (heap me) a) (Some (hd xs)) a) (a # as @ bs)"
      using xs(1) ne by (intro ring_insert_head) (auto simp: split)
    then have "ring (heap (move_to_front me a)) (a # filter (\<lambda>b. b \<noteq> a) xs)"
      unfolding f using False xs(3) by (simp add: move_to_front_def)
    moreover have "node_key (heap (move_to_front me a)) = node_key (heap me)"
      by (simp add: node_key_def d fun_eq_iff)
    moreover have "set (a # filter (\<lambda>b. b \<noteq> a) xs) = set xs" using a by auto
    moreover have "c_head (move_to_front me a) = Some a" "brk (move_to_front me a) = brk me"
      using False xs(3) by (simp_all add: move_to_front_def)
    ultimately show ?thesis using rep by (simp add: cache_rep_def i)
  qed
qed

lemma replace_data_rep:
  assumes "cache_rep me xs" and "d_key d = node_key (heap me) a"
  shows "cache_rep (me\<lparr>heap := set_cnt (set_data (heap me) a d) a n\<rparr>) xs"
proof -
  have "node_key (set_cnt (set_data (heap me) a d) a n) = node_key (heap me)"
    using assms(2) by (simp add: node_key_def fun_eq_iff)
  moreover have "ring (set_cnt (set_data (heap me) a d) a n) xs = ring (heap me) xs"
    by (rule ring_cong) simp_all
  ultimately show ?thesis using assms(1) by (simp add: cache_rep_def)
qed

lemma cachekey_hit:
  assumes rep: "cache_rep me xs" and i: "bsearch_idx me (d_key d) = Some i"
  shows "\<exists>s' me' e d' xs'. cachekey B op d (s, me) = Some ((s', me'), e, d') \<and> cache_rep me' xs'
    \<and> maxcache me' = maxcache me
    \<and> lru_key B op d (maxcache me) (s, records me xs) = ((s', records me' xs'), e, d')"
proof -
  let ?a = "idx me ! i"
  have a: "?a \<in> set xs" "node_key (heap me) ?a = d_key d"
    "find (\<lambda>a. node_key (heap me) a = d_key d) xs = Some ?a"
    using find_node [OF rep, of "d_key d"] i by simp_all
  define me1 where "me1 = move_to_front (me\<lparr>n_hit := Suc (n_hit me)\<rparr>) ?a"
  let ?xs = "?a # filter (\<lambda>b. b \<noteq> ?a) xs"
  have rep1: "cache_rep (me\<lparr>n_hit := Suc (n_hit me)\<rparr>) xs" using rep by (simp add: cache_rep_def)
  note mv = move_to_front_rep [OF rep1 a(1)]
  have d1: "c_data (heap me1 b) = c_data (heap me b)" for b unfolding me1_def mv(2) by simp
  obtain s' e d' where op: "hit_data B op s d (c_data (heap me ?a)) = (s', e, d')"
    by (metis prod.collapse)
  have key: "d_key d' = d_key d" using hit_data_key [OF op] a(2) by (simp add: node_key_def)
  define me2 where "me2 = me1\<lparr>heap := set_cnt (set_data (heap me1) ?a d') ?a (c_cnt (set_data (heap me1) ?a d' ?a) + 1)\<rparr>"
  have "cache_rep me2 ?xs"
    unfolding me2_def by (rule replace_data_rep) (use mv(1) a(2) key d1 in \<open>simp_all add: me1_def node_key_def\<close>)
  moreover have "cachekey B op d (s, me) = Some ((s', me2), e, d')"
    using i op by (simp add: cachekey_def Let_def me2_def me1_def [symmetric] d1)
  moreover have "filter (\<lambda>y. d_key y \<noteq> d_key d) (records me xs) = records me (filter (\<lambda>b. b \<noteq> ?a) xs)"
  proof -
    have "d_key (c_data (heap me b)) = d_key d \<longleftrightarrow> b = ?a" if "b \<in> set xs" for b
      using cache_rep_keys [OF rep] that a by (auto simp: inj_on_def node_key_def)
    then show ?thesis by (simp add: records_def filter_map comp_def cong: filter_cong)
  qed
  moreover have "records me2 ?xs = d' # records me (filter (\<lambda>b. b \<noteq> ?a) xs)"
    by (simp add: records_def me2_def d1)
  moreover have "maxcache me2 = maxcache me" by (simp add: me2_def me1_def mv(4))
  moreover have "find (\<lambda>x. d_key x = d_key d) (records me xs) = Some (c_data (heap me ?a))"
    by (simp add: find_records a(3))
  ultimately show ?thesis using op by (auto simp: lru_key_def)
qed

subsection \<open>A miss\<close>

definition room_for :: "caching_store \<Rightarrow> nat \<Rightarrow> nat list \<Rightarrow> bool" where
  "room_for me a ys \<longleftrightarrow> ring (heap me) ys \<and> a \<notin> set ys
     \<and> c_head me = (if ys = [] then None else Some (hd ys))
     \<and> set (idx me) = insert a (set ys) \<and> distinct (idx me)
     \<and> length (idx me) \<le> maxcache me \<and> 2 \<le> maxcache me \<and> (\<forall>b\<in>insert a (set ys). b < brk me)"

lemma make_room_append:
  assumes rep: "cache_rep me xs" and "length (idx me) < maxcache me"
  shows "\<exists>me1 a. make_room B (s, me) = Some (s, me1, a) \<and> room_for me1 a xs
    \<and> maxcache me1 = maxcache me \<and> (\<forall>b. c_data (heap me1 b) = c_data (heap me b))"
  using assms by (auto simp: make_room_def room_for_def cache_rep_def less_Suc_eq)

lemma make_room_evict:
  assumes rep: "cache_rep me xs" and full: "length (idx me) \<ge> maxcache me"
  shows "\<exists>me1. make_room B (s, me)
      = Some (fst (cb_store B s (c_data (heap me (last xs)))), me1, last xs)
    \<and> room_for me1 (last xs) (butlast xs)
    \<and> maxcache me1 = maxcache me \<and> (\<forall>b. c_data (heap me1 b) = c_data (heap me b))"
proof -
  have len: "2 \<le> length xs" using full rep cache_rep_length [OF rep] by (simp add: cache_rep_def)
  define ys l where "ys = butlast xs" and "l = last xs"
  have "xs \<noteq> []" using len by auto
  then have xs: "xs = ys @ [l]" by (simp add: ys_def l_def)
  then have ys: "ys \<noteq> []" using len by (cases ys) auto
  have r: "ring (heap me) (ys @ [l])" and d: "distinct (ys @ [l])"
    using rep xs by (simp_all add: cache_rep_def ring_def)
  note dt = drop_tail_unlink [OF r ys]
  have hd: "c_head me = Some (hd ys)" using rep ys by (simp add: cache_rep_def xs)
  let ?h = "unlink (heap me) l"
  have "node_key ?h = node_key (heap me)" by (simp add: node_key_def fun_eq_iff)
  then have "cache_rep me xs \<Longrightarrow> sorted_wrt (<) (map (node_key ?h) (idx me))" by (simp add: cache_rep_def)
  then have bs: "case bsearch_idx (me\<lparr>heap := ?h\<rparr>) (node_key ?h l) of
      Some i \<Rightarrow> i < length (idx me) \<and> node_key ?h (idx me ! i) = node_key ?h l
    | None \<Rightarrow> \<forall>a\<in>set (idx me). node_key ?h a \<noteq> node_key ?h l"
    using bsearch_idx_spec [of "me\<lparr>heap := ?h\<rparr>" "node_key ?h l"] rep by (simp split: option.splits)
  have l: "l \<in> set (idx me)" using rep xs by (auto simp: cache_rep_def)
  then obtain i where i: "bsearch_idx (me\<lparr>heap := ?h\<rparr>) (node_key ?h l) = Some i"
    "i < length (idx me)" "node_key (heap me) (idx me ! i) = node_key (heap me) l"
    using bs by (cases "bsearch_idx (me\<lparr>heap := ?h\<rparr>) (node_key ?h l)") (auto simp: node_key_def)
  then have a: "idx me ! i = l"
    using cache_rep_keys [OF rep] l rep by (auto simp: cache_rep_def inj_on_def)
  have "ring ?h ys" using ring_unlink [of "heap me" ys l "[]"] r ys by simp
  moreover have "set (idx me) = insert l (set ys)" using rep xs by (auto simp: cache_rep_def)
  ultimately have "room_for (me\<lparr>heap := ?h, c_head := Some (hd ys), n_drop := n_drop me + 1\<rparr>) l ys"
    using rep d ys xs by (auto simp: room_for_def cache_rep_def)
  moreover have "make_room B (s, me) = Some (fst (cb_store B s (c_data (heap me l))),
      me\<lparr>heap := ?h, c_head := Some (hd ys), n_drop := n_drop me + 1\<rparr>, l)"
    using full dt i(1) a by (simp add: make_room_def hd Let_def)
  ultimately show ?thesis unfolding ys_def [symmetric] l_def [symmetric] by auto
qed

lemma fill_room:
  assumes room: "room_for me a ys" and new: "\<forall>b\<in>set ys. node_key (heap me) b \<noteq> d_key d"
    and inj: "inj_on (node_key (heap me)) (set ys)"
  defines "me' \<equiv> sort_idx (me\<lparr>heap := insert_head (set_cnt (set_data (heap me) a d) a 0) (c_head me) a,
    c_head := Some a\<rparr>)"
  shows "cache_rep me' (a # ys)" and "records me' (a # ys) = d # records me ys"
    and "maxcache me' = maxcache me"
proof -
  let ?h = "insert_head (set_cnt (set_data (heap me) a d) a 0) (c_head me) a"
  have "ring (set_cnt (set_data (heap me) a d) a 0) ys = ring (heap me) ys"
    by (rule ring_cong) simp_all
  then have r: "ring ?h (a # ys)" using room by (intro ring_insert_head) (simp_all add: room_for_def)
  have data: "c_data (?h b) = (if b = a then d else c_data (heap me b))" for b by simp
  have keys: "inj_on (node_key ?h) (insert a (set ys))"
    using inj room new by (auto simp: inj_on_def node_key_def room_for_def data)
  show "records me' (a # ys) = d # records me ys" and "maxcache me' = maxcache me"
    using room by (auto simp: me'_def sort_idx_def records_def room_for_def)
  show "cache_rep me' (a # ys)"
    unfolding me'_def using room r keys by (intro sort_idx_rep(1)) (simp_all add: room_for_def)
qed

lemma records_cong: "(\<And>b. c_data (heap me1 b) = c_data (heap me b)) \<Longrightarrow> records me1 xs = records me xs"
  by (simp add: records_def)

lemma cachekey_miss:
  assumes rep: "cache_rep me xs" and i: "bsearch_idx me (d_key d) = None"
  shows "\<exists>s' me' e d' xs'. cachekey B op d (s, me) = Some ((s', me'), e, d') \<and> cache_rep me' xs'
    \<and> maxcache me' = maxcache me
    \<and> lru_key B op d (maxcache me) (s, records me xs) = ((s', records me' xs'), e, d')"
proof -
  define me0 where "me0 = me\<lparr>n_miss := Suc (n_miss me)\<rparr>"
  have rep0: "cache_rep me0 xs" and me0: "heap me0 = heap me" "idx me0 = idx me" "maxcache me0 = maxcache me"
    using rep by (simp_all add: cache_rep_def me0_def)
  have none: "find (\<lambda>a. node_key (heap me) a = d_key d) xs = None"
    using find_node [OF rep, of "d_key d"] i by simp
  let ?full = "length (records me xs) \<ge> maxcache me"
  have full: "?full \<longleftrightarrow> length (idx me) \<ge> maxcache me"
    using cache_rep_length [OF rep] by (simp add: records_def)
  have "\<exists>s1 me1 a ys. make_room B (s, me0) = Some (s1, me1, a) \<and> room_for me1 a ys
      \<and> maxcache me1 = maxcache me \<and> (\<forall>b. c_data (heap me1 b) = c_data (heap me b))
      \<and> set ys \<subseteq> set xs
      \<and> (s1, records me ys) = (if ?full then (fst (cb_store B s (last (records me xs))), butlast (records me xs))
                               else (s, records me xs))"
  proof (cases ?full)
    case True
    then have ne: "xs \<noteq> []" using rep by (auto simp: records_def cache_rep_def)
    from make_room_evict [OF rep0, of B s] True full me0 obtain me1 where
      "make_room B (s, me0) = Some (fst (cb_store B s (c_data (heap me (last xs)))), me1, last xs)"
      "room_for me1 (last xs) (butlast xs)" "maxcache me1 = maxcache me"
      "\<forall>b. c_data (heap me1 b) = c_data (heap me b)" by auto
    moreover have "set (butlast xs) \<subseteq> set xs" by (auto dest: in_set_butlastD)
    moreover have "last (records me xs) = c_data (heap me (last xs))"
      "butlast (records me xs) = records me (butlast xs)"
      using ne by (simp_all add: records_def last_map map_butlast)
    ultimately show ?thesis using True by auto
  next
    case False
    from make_room_append [OF rep0, of B s] False full me0 show ?thesis by auto
  qed
  then obtain s1 me1 a ys where room: "make_room B (s, me0) = Some (s1, me1, a)" "room_for me1 a ys"
    and me1: "maxcache me1 = maxcache me" "\<And>b. c_data (heap me1 b) = c_data (heap me b)"
    and ys: "set ys \<subseteq> set xs"
      "(s1, records me ys) = (if ?full then (fst (cb_store B s (last (records me xs))), butlast (records me xs))
                               else (s, records me xs))" by metis
  obtain s2 e d' where op: "miss_data B op s1 d = (s2, e, d')" by (metis prod.collapse)
  have key: "d_key d' = d_key d" by (rule miss_data_key [OF op])
  have nk: "node_key (heap me1) = node_key (heap me)" by (simp add: node_key_def me1 fun_eq_iff)
  have new: "\<forall>b\<in>set ys. node_key (heap me1) b \<noteq> d_key d'"
    using none ys(1) by (auto simp: find_None_iff nk key)
  have inj: "inj_on (node_key (heap me1)) (set ys)"
    using cache_rep_keys [OF rep] ys(1) by (auto simp: nk inj_on_def)
  note fill = fill_room [OF room(2) new inj]
  define me2 where "me2 = sort_idx (me1\<lparr>heap := insert_head (set_cnt (set_data (heap me1) a d') a 0) (c_head me1) a,
    c_head := Some a\<rparr>)"
  have "cachekey B op d (s, me) = Some ((s2, me2), e, d')"
    using i room(1) op by (simp add: cachekey_def me0_def me2_def Let_def)
  moreover have "lru_key B op d (maxcache me) (s, records me xs) = ((s2, d' # records me ys), e, d')"
    using none op ys(2) by (simp add: lru_key_def find_records Let_def split: if_splits)
  moreover have "records me1 ys = records me ys" by (rule records_cong) (rule me1(2))
  ultimately show ?thesis using fill me1(1) unfolding me2_def by metis
qed

text \<open>The cache on the heap does what the list does, and no assertion fails.\<close>

lemma cachekey_simulates:
  assumes "cache_rep me xs"
  shows "\<exists>s' me' e d' xs'. cachekey B op d (s, me) = Some ((s', me'), e, d') \<and> cache_rep me' xs'
    \<and> maxcache me' = maxcache me
    \<and> lru_key B op d (maxcache me) (s, records me xs) = ((s', records me' xs'), e, d')"
proof (cases "bsearch_idx me (d_key d)")
  case None
  then show ?thesis by (rule cachekey_miss [OF assms])
next
  case (Some i)
  then show ?thesis by (rule cachekey_hit [OF assms])
qed

lemma follow_chain: "chain h (xs @ [y]) \<Longrightarrow> xs \<noteq> [] \<Longrightarrow> follow h (hd xs) (length xs) = xs"
proof (induction xs)
  case (Cons a xs)
  then show ?case by (cases xs) auto
qed simp

lemma nodes_of_rep: "cache_rep me xs \<Longrightarrow> nodes_of me = xs"
  using follow_chain [of "heap me" xs "hd xs"] cache_rep_length [of me xs]
  by (auto simp: nodes_of_def cache_rep_def ring_def)

lemma purgecache_simulates:
  assumes "cache_rep me xs"
  shows "\<exists>me'. purgecache B (s, me) = (foldl (\<lambda>s d. fst (cb_store B s d)) s (records me xs), me')
    \<and> cache_rep me' [] \<and> maxcache me' = maxcache me"
proof (cases "xs = []")
  case True
  with assms show ?thesis by (auto simp: purgecache_def records_def cache_rep_def)
next
  case False
  then have "c_head me = Some (hd xs)" using assms by (simp add: cache_rep_def)
  then show ?thesis using assms nodes_of_rep [OF assms]
    by (auto simp: purgecache_def records_def foldl_map cache_rep_def ring_def)
qed

lemma init_cachingstore_rep:
  "n \<noteq> 1 \<Longrightarrow> cache_rep (init_cachingstore n) []"
  by (auto simp: cache_rep_def init_cachingstore_def ring_def DEFAULTMAXCACHE_def)

section \<open>The operations of the caching store\<close>

type_synonym 's cached = "'s \<times> caching_store"

definition lookup_record :: "flat_key \<Rightarrow> data_t" where
  "lookup_record k = \<lparr> d_key = k, d_val = [], d_state = UNDEF \<rparr>"

text \<open>\<open>backend_caching_open\<close> on an open backend\<close>

definition backend_caching_open :: "'s \<Rightarrow> 's cached" where
  "backend_caching_open s = (s, init_cachingstore 0)"

definition backend_caching_fetch ::
  "'s backend \<Rightarrow> 's cached \<Rightarrow> flat_key \<Rightarrow> ('s cached \<times> (flat_error + flat_data)) option"
where
  "backend_caching_fetch B sm k =
     map_option (\<lambda>(sm, e, out).
         (sm, if e \<noteq> 0 then Inl e
              else if d_state out = NOTFOUND then Inl FLAT_STORE_E_NOTFOUND
              else Inr (d_val out)))
       (cachekey B BC_READ (lookup_record k) sm)"

definition backend_caching_store ::
  "'s backend \<Rightarrow> 's cached \<Rightarrow> flat_key \<Rightarrow> flat_data \<Rightarrow> ('s cached \<times> flat_error) option"
where
  "backend_caching_store B sm k v =
     map_option (\<lambda>(sm, e, out). (sm, e))
       (cachekey B BC_WRITE \<lparr> d_key = k, d_val = v, d_state = CHANGED \<rparr> sm)"

definition backend_caching_exists ::
  "'s backend \<Rightarrow> 's cached \<Rightarrow> flat_key \<Rightarrow> ('s cached \<times> flat_error) option"
where
  "backend_caching_exists B sm k =
     map_option (\<lambda>(sm, e, out).
         (sm, if e \<noteq> 0 then e
              else if d_state out = EXISTS \<or> d_state out = CHANGED then 0 else FLAT_STORE_E_NOTFOUND))
       (cachekey B BC_EXISTS (lookup_record k) sm)"

definition backend_caching_delete ::
  "'s backend \<Rightarrow> 's cached \<Rightarrow> flat_key \<Rightarrow> ('s cached \<times> flat_error) option"
where
  "backend_caching_delete B sm k =
     map_option (\<lambda>(sm, e, out). (sm, e)) (cachekey B BC_DELETE (lookup_record k) sm)"

text \<open>
  \<open>inc\<close> and \<open>dec\<close> rewrite the first four bytes of the value they fetched and store it.
\<close>

definition counter_step ::
  "(u32 \<Rightarrow> u32) \<Rightarrow> 's backend \<Rightarrow> 's cached \<Rightarrow> flat_key \<Rightarrow> ('s cached \<times> (flat_error + flat_data)) option"
where
  "counter_step f B sm k =
     (case backend_caching_fetch B sm k of
        None \<Rightarrow> None
      | Some (sm, Inl e) \<Rightarrow> Some (sm, Inl e)
      | Some (sm, Inr v) \<Rightarrow>
          (let v = packInt (f (unpackInt v)) @ drop 4 v in
           map_option (\<lambda>(sm, e). (sm, if e \<noteq> 0 then Inl e else Inr v))
             (backend_caching_store B sm k v)))"

definition backend_caching_inc where
  "backend_caching_inc B = counter_step (\<lambda>l. l + 1) B"

definition backend_caching_dec where
  "backend_caching_dec B = counter_step (\<lambda>l. l - 1) B"

text \<open>These empty the cache into the backend first.\<close>

definition backend_caching_first :: "'s backend \<Rightarrow> 's cached \<Rightarrow> 's cached \<times> (flat_error + flat_key)" where
  "backend_caching_first B sm =
     (let (s, me) = purgecache B sm; (s, r) = be_first B s in ((s, me), r))"

definition backend_caching_next ::
  "'s backend \<Rightarrow> 's cached \<Rightarrow> flat_key \<Rightarrow> 's cached \<times> (flat_error + flat_key)"
where
  "backend_caching_next B sm k =
     (let (s, me) = purgecache B sm; (s, r) = be_next B s k in ((s, me), r))"

definition backend_caching_from ::
  "'s backend \<Rightarrow> 's cached \<Rightarrow> flat_key \<Rightarrow> 's cached \<times> (flat_error + flat_key)"
where
  "backend_caching_from B sm k =
     (let (s, me) = purgecache B sm; (s, r) = be_from B s k in ((s, me), r))"

definition backend_caching_sync :: "'s backend \<Rightarrow> 's cached \<Rightarrow> 's cached \<times> flat_error" where
  "backend_caching_sync B sm =
     (let (s, me) = purgecache B sm; (s, e) = be_sync B s in ((s, me), e))"

definition backend_caching_close :: "'s backend \<Rightarrow> 's cached \<Rightarrow> 's cached \<times> flat_error" where
  "backend_caching_close B sm =
     (let (s, me) = purgecache B sm; (s, e) = be_close B s in ((s, me), e))"

text \<open>Compressed values are passed to the backend without a look at the cache.\<close>

definition backend_caching_fetch_compressed ::
  "'s backend \<Rightarrow> (flat_data \<Rightarrow> flat_data) \<Rightarrow> 's cached \<Rightarrow> flat_key \<Rightarrow> 's cached \<times> (flat_error + flat_data)"
where
  "backend_caching_fetch_compressed B decode sm k =
     (let (s, me) = sm; (s, r) = be_fetch B s k
      in ((s, me), map_sum id decode r))"

definition backend_caching_store_compressed ::
  "'s backend \<Rightarrow> (flat_data \<Rightarrow> flat_data) \<Rightarrow> 's cached \<Rightarrow> flat_key \<Rightarrow> flat_data \<Rightarrow> 's cached \<times> flat_error"
where
  "backend_caching_store_compressed B encode sm k v =
     (let (s, me) = sm; (s, e) = be_store B s k (encode v) in ((s, me), e))"

text \<open>The operations as a backend of their own; that they return is shown below.\<close>

definition caching_backend :: "'s backend \<Rightarrow> 's cached backend" where
  "caching_backend B =
     \<lparr> be_fetch = (\<lambda>sm k. the (backend_caching_fetch B sm k)),
       be_store = (\<lambda>sm k v. the (backend_caching_store B sm k v)),
       be_exists = (\<lambda>sm k. the (backend_caching_exists B sm k)),
       be_delete = (\<lambda>sm k. the (backend_caching_delete B sm k)),
       be_inc = (\<lambda>sm k. the (backend_caching_inc B sm k)),
       be_dec = (\<lambda>sm k. the (backend_caching_dec B sm k)),
       be_first = backend_caching_first B, be_next = backend_caching_next B,
       be_from = backend_caching_from B, be_sync = backend_caching_sync B,
       be_close = backend_caching_close B \<rparr>"

section \<open>What the cache stands for\<close>

text \<open>A table seen through the records of the cache, and records that tell the truth about it.\<close>

definition lview :: "(flat_key \<Rightarrow> flat_data option) \<Rightarrow> data_t list \<Rightarrow> flat_key \<Rightarrow> flat_data option" where
  "lview T L k = (case find (\<lambda>d. d_key d = k) L of
     None \<Rightarrow> T k
   | Some d \<Rightarrow> if d_state d = NOTFOUND then None else Some (d_val d))"

definition coherent :: "(flat_key \<Rightarrow> flat_data option) \<Rightarrow> data_t list \<Rightarrow> bool" where
  "coherent T L \<longleftrightarrow> distinct (map d_key L)
     \<and> (\<forall>d\<in>set L. (d_state d = EXISTS \<or> d_state d = CHANGED \<or> d_state d = NOTFOUND)
          \<and> (d_state d = EXISTS \<longrightarrow> T (d_key d) = Some (d_val d))
          \<and> (d_state d = NOTFOUND \<longrightarrow> T (d_key d) = None))"

definition store_record :: "(flat_key \<Rightarrow> flat_data option) \<Rightarrow> data_t \<Rightarrow> flat_key \<Rightarrow> flat_data option" where
  "store_record T d = (if d_state d = CHANGED then T(d_key d \<mapsto> d_val d) else T)"

lemma lview_Nil [simp]: "lview T [] = T"
  by (simp add: lview_def fun_eq_iff)

lemma lview_Cons:
  "lview T (d # L) = (lview T L)(d_key d := if d_state d = NOTFOUND then None else Some (d_val d))"
  by (auto simp: lview_def fun_eq_iff)

lemma find_key_None: "find (\<lambda>d. d_key d = k) L = None \<longleftrightarrow> k \<notin> d_key ` set L"
  by (auto simp: find_None_iff)

lemma lview_upd: "k \<notin> d_key ` set L \<Longrightarrow> lview (T(k := x)) L = (lview T L)(k := x)"
  by (induction L) (auto simp: lview_Cons fun_eq_iff)

lemma lview_notin: "k \<notin> d_key ` set L \<Longrightarrow> lview T L k = T k"
  by (induction L) (auto simp: lview_Cons)

lemma lview_filter: "lview T (filter (\<lambda>y. d_key y \<noteq> k) L) = (lview T L)(k := T k)"
  by (induction L) (auto simp: lview_Cons fun_eq_iff)

lemma lview_snoc:
  assumes "d_key d \<notin> d_key ` set L"
  shows "lview T (L @ [d]) = lview (T(d_key d := if d_state d = NOTFOUND then None else Some (d_val d))) L"
  using assms by (induction L) (auto simp: lview_Cons fun_eq_iff)

lemma coherent_Cons:
  "coherent T (d # L) \<longleftrightarrow> d_key d \<notin> d_key ` set L \<and> coherent T L
     \<and> (d_state d = EXISTS \<or> d_state d = CHANGED \<or> d_state d = NOTFOUND)
     \<and> (d_state d = EXISTS \<longrightarrow> T (d_key d) = Some (d_val d))
     \<and> (d_state d = NOTFOUND \<longrightarrow> T (d_key d) = None)"
  by (auto simp: coherent_def)

lemma coherent_Nil [simp]: "coherent T []"
  by (simp add: coherent_def)

lemma coherent_upd: "k \<notin> d_key ` set L \<Longrightarrow> coherent (T(k := x)) L \<longleftrightarrow> coherent T L"
  by (auto simp: coherent_def image_iff)

lemma coherent_filter: "coherent T L \<Longrightarrow> coherent T (filter P L)"
  by (auto simp: coherent_def distinct_map_filter)

lemma coherent_snoc:
  "coherent T (L @ [d]) \<longleftrightarrow> d_key d \<notin> d_key ` set L \<and> coherent T L
     \<and> (d_state d = EXISTS \<or> d_state d = CHANGED \<or> d_state d = NOTFOUND)
     \<and> (d_state d = EXISTS \<longrightarrow> T (d_key d) = Some (d_val d))
     \<and> (d_state d = NOTFOUND \<longrightarrow> T (d_key d) = None)"
  by (auto simp: coherent_def)

text \<open>Dropping the last record: after it is stored the rest of the cache shows the same table.\<close>

lemma store_last:
  assumes "coherent T (L @ [d])"
  shows "coherent (store_record T d) L" and "lview (store_record T d) L = lview T (L @ [d])"
proof -
  have k: "d_key d \<notin> d_key ` set L" using assms by (simp add: coherent_snoc)
  show "coherent (store_record T d) L"
    using assms by (auto simp: coherent_snoc store_record_def coherent_upd)
  show "lview (store_record T d) L = lview T (L @ [d])"
    using assms lview_notin [OF k, of T]
    by (cases "d_state d")
      (simp_all add: coherent_snoc store_record_def lview_snoc lview_upd fun_upd_idem)
qed

lemma store_first:
  assumes "coherent T (d # L)"
  shows "coherent (store_record T d) L" and "lview (store_record T d) L = lview T (d # L)"
proof -
  show "coherent (store_record T d) L"
    using assms by (auto simp: coherent_Cons store_record_def coherent_upd)
  have k: "d_key d \<notin> d_key ` set L" using assms by (simp add: coherent_Cons)
  have e: "lview T L (d_key d) = T (d_key d)" by (rule lview_notin [OF k])
  show "lview (store_record T d) L = lview T (d # L)"
    using assms e lview_upd [OF k]
    by (cases "d_state d") (simp_all add: coherent_Cons store_record_def lview_Cons fun_upd_idem)
qed

lemma store_all: "coherent T L \<Longrightarrow> foldl store_record T L = lview T L"
  by (induction L arbitrary: T) (simp_all add: store_first)

section \<open>Over a backend that keeps its contract\<close>

definition cached_inv :: "('s \<Rightarrow> bool) \<Rightarrow> ('s \<Rightarrow> flat_key \<Rightarrow> flat_data option) \<Rightarrow> 's cached \<Rightarrow> bool" where
  "cached_inv ok tbl sm \<longleftrightarrow> ok (fst sm) \<and> cache_rep (snd sm) (nodes_of (snd sm))
     \<and> coherent (tbl (fst sm)) (records (snd sm) (nodes_of (snd sm)))"

definition cached_tbl :: "('s \<Rightarrow> flat_key \<Rightarrow> flat_data option) \<Rightarrow> 's cached \<Rightarrow> flat_key \<Rightarrow> flat_data option" where
  "cached_tbl tbl sm = lview (tbl (fst sm)) (records (snd sm) (nodes_of (snd sm)))"

definition cached_walk :: "('s \<Rightarrow> flat_key list \<Rightarrow> bool) \<Rightarrow> 's cached \<Rightarrow> flat_key list \<Rightarrow> bool" where
  "cached_walk walk sm ks \<longleftrightarrow> walk (fst sm) ks
     \<and> (\<forall>d\<in>set (records (snd sm) (nodes_of (snd sm))). d_state d \<noteq> CHANGED)"

lemma find_split_coherent:
  assumes "coherent T L" and "find (\<lambda>d. d_key d = k) L = Some x"
  shows "x \<in> set L" and "d_key x = k" and "lview T L k = (if d_state x = NOTFOUND then None else Some (d_val x))"
proof -
  show "lview T L k = (if d_state x = NOTFOUND then None else Some (d_val x))"
    by (simp add: lview_def assms(2))
  show "x \<in> set L" "d_key x = k" using assms(2) by (auto simp: find_Some_iff)
qed

context flat_table
begin

lemma cb_store_table:
  assumes "ok s" and "cb_store B s d = (s', e)"
  shows "ok s'" and "tbl s' = store_record (tbl s) d" and "e = 0"
proof -
  obtain s2 e2 where r: "be_store B s (d_key d) (d_val d) = (s2, e2)" by (metis prod.collapse)
  show "ok s'" "tbl s' = store_record (tbl s) d" "e = 0"
    using assms r store [OF assms(1) r]
    by (auto simp: cb_store_def store_record_def split: if_splits)
qed

lemma cb_fetch_table:
  assumes "ok s" and "cb_fetch B s (lookup_record k) = (s', e, d')"
  shows "ok s'" and "tbl s' = tbl s" and "e = 0"
    and "d' = (case tbl s k of None \<Rightarrow> \<lparr> d_key = k, d_val = [], d_state = NOTFOUND \<rparr>
              | Some v \<Rightarrow> \<lparr> d_key = k, d_val = v, d_state = EXISTS \<rparr>)"
proof -
  obtain s2 r where r: "be_fetch B s k = (s2, r)" by (metis prod.collapse)
  note f = fetch [OF assms(1) r]
  show "ok s'" "tbl s' = tbl s" "e = 0"
    "d' = (case tbl s k of None \<Rightarrow> \<lparr> d_key = k, d_val = [], d_state = NOTFOUND \<rparr>
              | Some v \<Rightarrow> \<lparr> d_key = k, d_val = v, d_state = EXISTS \<rparr>)"
    using assms(2) r f by (auto simp: cb_fetch_def lookup_record_def split: option.splits)
qed

lemma cb_delete_table:
  assumes "ok s" and "cb_delete B s (lookup_record k) = (s', e, d')"
  shows "ok s'" and "tbl s' = (tbl s)(k := None)" and "e = 0 \<or> e = FLAT_STORE_E_NOTFOUND"
    and "e = 0 \<Longrightarrow> tbl s k \<noteq> None" and "d' = \<lparr> d_key = k, d_val = [], d_state = NOTFOUND \<rparr>"
proof -
  obtain s2 e2 where r: "be_delete B s k = (s2, e2)" by (metis prod.collapse)
  note f = delete [OF assms(1) r]
  show "ok s'" "tbl s' = (tbl s)(k := None)" "e = 0 \<or> e = FLAT_STORE_E_NOTFOUND"
    "e = 0 \<Longrightarrow> tbl s k \<noteq> None" "d' = \<lparr> d_key = k, d_val = [], d_state = NOTFOUND \<rparr>"
    using assms(2) r f
    by (auto simp: cb_delete_def lookup_record_def FLAT_STORE_E_KEYEXIST_def FLAT_STORE_E_NOTFOUND_def
        split: if_splits)
qed

text \<open>Making room for a new key changes nothing that can be seen.\<close>

lemma evict_table:
  assumes "ok s" and "coherent (tbl s) L" and "0 < M"
    and "(s1, L1) = (if length L \<ge> M then (fst (cb_store B s (last L)), butlast L) else (s, L))"
  shows "ok s1" and "coherent (tbl s1) L1" and "lview (tbl s1) L1 = lview (tbl s) L"
    and "set L1 \<subseteq> set L"
proof -
  have "ok s1 \<and> coherent (tbl s1) L1 \<and> lview (tbl s1) L1 = lview (tbl s) L \<and> set L1 \<subseteq> set L"
  proof (cases "length L \<ge> M")
    case True
    then have "L = butlast L @ [last L]" using assms(3) by (cases L rule: rev_cases) auto
    moreover obtain e where "cb_store B s (last L) = (s1, e)" using assms(4) True by (metis fst_conv prod.collapse)
    ultimately show ?thesis
      using store_last [of "tbl s" "butlast L" "last L"] cb_store_table [OF assms(1)] assms(2,4) True
      by (auto dest: in_set_butlastD)
  qed (use assms in simp)
  then show "ok s1" "coherent (tbl s1) L1" "lview (tbl s1) L1 = lview (tbl s) L" "set L1 \<subseteq> set L"
    by simp_all
qed

lemma lru_read_table:
  assumes "ok s" and "coherent (tbl s) L" and "0 < M" and op: "op = BC_READ \<or> op = BC_EXISTS"
    and "lru_key B op (lookup_record k) M (s, L) = ((s', L'), e, d')"
  shows "ok s'" and "coherent (tbl s') L'" and "lview (tbl s') L' = lview (tbl s) L" and "e = 0"
    and "d_state d' = NOTFOUND \<or> d_state d' = EXISTS \<or> d_state d' = CHANGED"
    and "lview (tbl s) L k = (if d_state d' = NOTFOUND then None else Some (d_val d'))"
proof -
  have key: "d_key (lookup_record k) = k" by (simp add: lookup_record_def)
  have "ok s' \<and> coherent (tbl s') L' \<and> lview (tbl s') L' = lview (tbl s) L \<and> e = 0
    \<and> (d_state d' = NOTFOUND \<or> d_state d' = EXISTS \<or> d_state d' = CHANGED)
    \<and> lview (tbl s) L k = (if d_state d' = NOTFOUND then None else Some (d_val d'))"
  proof (cases "find (\<lambda>d. d_key d = k) L")
    case None
    obtain s1 L1 where ev: "(s1, L1) = (if length L \<ge> M then (fst (cb_store B s (last L)), butlast L) else (s, L))"
      by (metis prod.collapse)
    note room = evict_table [OF assms(1,2,3) ev]
    obtain s2 e2 d2 where f: "cb_fetch B s1 (lookup_record k) = (s2, e2, d2)" by (metis prod.collapse)
    note ft = cb_fetch_table [OF room(1) f]
    have "lru_key B op (lookup_record k) M (s, L) = ((s2, d2 # L1), e2, d2)"
      using None ev op f by (auto simp: lru_key_def key miss_data_def split: if_splits)
    then have eq: "s' = s2" "L' = d2 # L1" "e = e2" "d' = d2" using assms(5) by simp_all
    have notin: "k \<notin> d_key ` set L1" using None room(4) by (auto simp: find_None_iff)
    have "lview (tbl s1) L1 k = tbl s1 k" by (rule lview_notin [OF notin])
    with ft room notin show ?thesis unfolding eq
      by (cases "tbl s1 k") (simp_all add: coherent_Cons lview_Cons fun_upd_idem)
  next
    case (Some x)
    note x = find_split_coherent [OF assms(2) Some]
    have "lru_key B op (lookup_record k) M (s, L) = ((s, x # filter (\<lambda>y. d_key y \<noteq> k) L), 0, x)"
      using Some op by (auto simp: lru_key_def key hit_data_def)
    then have eq: "s' = s" "L' = x # filter (\<lambda>y. d_key y \<noteq> k) L" "e = 0" "d' = x"
      using assms(5) by simp_all
    have "coherent (tbl s) (filter (\<lambda>y. d_key y \<noteq> k) L)" using coherent_filter [OF assms(2)] .
    moreover have "lview (tbl s) (x # filter (\<lambda>y. d_key y \<noteq> k) L) = lview (tbl s) L"
      using x by (auto simp: lview_Cons lview_filter fun_eq_iff)
    ultimately show ?thesis unfolding eq using x assms(1,2)
      by (auto simp: coherent_Cons) (auto simp: coherent_def)
  qed
  then show "ok s'" "coherent (tbl s') L'" "lview (tbl s') L' = lview (tbl s) L" "e = 0"
    "d_state d' = NOTFOUND \<or> d_state d' = EXISTS \<or> d_state d' = CHANGED"
    "lview (tbl s) L k = (if d_state d' = NOTFOUND then None else Some (d_val d'))"
    by simp_all
qed

lemma lru_write_table:
  assumes "ok s" and "coherent (tbl s) L" and "0 < M"
    and "lru_key B BC_WRITE \<lparr> d_key = k, d_val = v, d_state = CHANGED \<rparr> M (s, L) = ((s', L'), e, d')"
  shows "ok s'" and "coherent (tbl s') L'" and "lview (tbl s') L' = (lview (tbl s) L)(k \<mapsto> v)" and "e = 0"
proof -
  let ?d = "\<lparr> d_key = k, d_val = v, d_state = CHANGED \<rparr>"
  have "ok s' \<and> coherent (tbl s') L' \<and> lview (tbl s') L' = (lview (tbl s) L)(k \<mapsto> v) \<and> e = 0"
  proof (cases "find (\<lambda>d. d_key d = k) L")
    case None
    obtain s1 L1 where ev: "(s1, L1) = (if length L \<ge> M then (fst (cb_store B s (last L)), butlast L) else (s, L))"
      by (metis prod.collapse)
    note room = evict_table [OF assms(1,2,3) ev]
    have "lru_key B BC_WRITE ?d M (s, L) = ((s1, ?d # L1), 0, ?d)"
      using None ev by (auto simp: lru_key_def miss_data_def split: if_splits)
    then have eq: "s' = s1" "L' = ?d # L1" "e = 0" using assms(4) by simp_all
    have "k \<notin> d_key ` set L1" using None room(4) by (auto simp: find_None_iff)
    with room show ?thesis unfolding eq by (auto simp: coherent_Cons lview_Cons)
  next
    case (Some x)
    have "lru_key B BC_WRITE ?d M (s, L) = ((s, ?d # filter (\<lambda>y. d_key y \<noteq> k) L), 0, ?d)"
      using Some by (auto simp: lru_key_def hit_data_def)
    then have eq: "s' = s" "L' = ?d # filter (\<lambda>y. d_key y \<noteq> k) L" "e = 0" using assms(4) by simp_all
    show ?thesis unfolding eq using assms(1) coherent_filter [OF assms(2)]
      by (auto simp: coherent_Cons lview_Cons lview_filter)
  qed
  then show "ok s'" "coherent (tbl s') L'" "lview (tbl s') L' = (lview (tbl s) L)(k \<mapsto> v)" "e = 0"
    by simp_all
qed

lemma lru_delete_table:
  assumes "ok s" and "coherent (tbl s) L" and "0 < M"
    and "lru_key B BC_DELETE (lookup_record k) M (s, L) = ((s', L'), e, d')"
  shows "ok s'" and "coherent (tbl s') L'" and "lview (tbl s') L' = (lview (tbl s) L)(k := None)"
    and "e = 0 \<or> e = FLAT_STORE_E_NOTFOUND" and "e = 0 \<Longrightarrow> lview (tbl s) L k \<noteq> None"
proof -
  have key: "d_key (lookup_record k) = k" by (simp add: lookup_record_def)
  have "ok s' \<and> coherent (tbl s') L' \<and> lview (tbl s') L' = (lview (tbl s) L)(k := None)
    \<and> (e = 0 \<or> e = FLAT_STORE_E_NOTFOUND) \<and> (e = 0 \<longrightarrow> lview (tbl s) L k \<noteq> None)"
  proof (cases "find (\<lambda>d. d_key d = k) L")
    case None
    obtain s1 L1 where ev: "(s1, L1) = (if length L \<ge> M then (fst (cb_store B s (last L)), butlast L) else (s, L))"
      by (metis prod.collapse)
    note room = evict_table [OF assms(1,2,3) ev]
    obtain s2 e2 d2 where f: "cb_delete B s1 (lookup_record k) = (s2, e2, d2)" by (metis prod.collapse)
    note ft = cb_delete_table [OF room(1) f]
    have "lru_key B BC_DELETE (lookup_record k) M (s, L) = ((s2, d2 # L1), e2, d2)"
      using None ev f by (auto simp: lru_key_def key miss_data_def split: if_splits)
    then have eq: "s' = s2" "L' = d2 # L1" "e = e2" using assms(4) by simp_all
    have notin: "k \<notin> d_key ` set L1" using None room(4) by (auto simp: find_None_iff)
    have "lview (tbl s1) L1 k = tbl s1 k" by (rule lview_notin [OF notin])
    with ft room notin show ?thesis unfolding eq
      by (auto simp: coherent_Cons lview_Cons coherent_upd lview_upd)
  next
    case (Some x)
    note x = find_split_coherent [OF assms(2) Some]
    obtain s2 e2 d2 where f: "cb_delete B s (lookup_record k) = (s2, e2, d2)" by (metis prod.collapse)
    note ft = cb_delete_table [OF assms(1) f]
    have "lru_key B BC_DELETE (lookup_record k) M (s, L) = ((s2, d2 # filter (\<lambda>y. d_key y \<noteq> k) L), e2, d2)"
      using Some f by (auto simp: lru_key_def key hit_data_def)
    then have eq: "s' = s2" "L' = d2 # filter (\<lambda>y. d_key y \<noteq> k) L" "e = e2" using assms(4) by simp_all
    have notin: "k \<notin> d_key ` set (filter (\<lambda>y. d_key y \<noteq> k) L)" by auto
    have "tbl s k \<noteq> None \<Longrightarrow> d_state x \<noteq> NOTFOUND" using x assms(2) by (auto simp: coherent_def)
    then have "e2 = 0 \<Longrightarrow> lview (tbl s) L k \<noteq> None" using ft(4) x(3) by simp
    moreover have "coherent (tbl s2) (d2 # filter (\<lambda>y. d_key y \<noteq> k) L)"
      using ft(2,5) coherent_filter [OF assms(2)] notin by (simp add: coherent_Cons coherent_upd)
    moreover have "lview (tbl s2) (d2 # filter (\<lambda>y. d_key y \<noteq> k) L) = (lview (tbl s) L)(k := None)"
    proof -
      have "lview (tbl s2) (filter (\<lambda>y. d_key y \<noteq> k) L) = (lview (tbl s) L)(k := None)"
        unfolding ft(2) lview_upd [OF notin] by (simp add: lview_filter)
      then show ?thesis by (simp add: lview_Cons ft(5))
    qed
    ultimately show ?thesis unfolding eq using ft(1,3) by simp
  qed
  then show "ok s'" "coherent (tbl s') L'" "lview (tbl s') L' = (lview (tbl s) L)(k := None)"
    "e = 0 \<or> e = FLAT_STORE_E_NOTFOUND" "e = 0 \<Longrightarrow> lview (tbl s) L k \<noteq> None"
    by simp_all
qed

lemma purge_table:
  assumes "ok s" and "coherent (tbl s) L"
  shows "ok (foldl (\<lambda>s d. fst (cb_store B s d)) s L)
    \<and> tbl (foldl (\<lambda>s d. fst (cb_store B s d)) s L) = lview (tbl s) L"
  using assms
proof (induction L arbitrary: s)
  case (Cons d L)
  obtain s1 e where st: "cb_store B s d = (s1, e)" by (metis prod.collapse)
  note t = cb_store_table [OF Cons.prems(1) st]
  show ?case using Cons.IH [of s1] t st store_first [OF Cons.prems(2)] by simp
qed simp

end

lemma cachekey_total:
  assumes "cache_rep me (nodes_of me)"
  obtains s' me' e d' where "cachekey B op d (s, me) = Some ((s', me'), e, d')"
    and "lru_key B op d (maxcache me) (s, records me (nodes_of me)) = ((s', records me' (nodes_of me')), e, d')"
    and "cache_rep me' (nodes_of me')" and "0 < maxcache me"
proof -
  from cachekey_simulates [OF assms, of B op d s] obtain s' me' e d' xs' where
    r: "cachekey B op d (s, me) = Some ((s', me'), e, d')" "cache_rep me' xs'"
    "lru_key B op d (maxcache me) (s, records me (nodes_of me)) = ((s', records me' xs'), e, d')" by blast
  moreover have "nodes_of me' = xs'" by (rule nodes_of_rep [OF r(2)])
  moreover have "0 < maxcache me" using assms by (simp add: cache_rep_def)
  ultimately show thesis by (intro that) auto
qed

context flat_table
begin

lemma cached_fetch_table:
  assumes "cached_inv ok tbl sm" and "be_fetch (caching_backend B) sm k = (sm', r)"
  shows "backend_caching_fetch B sm k = Some (sm', r)"
    and "cached_inv ok tbl sm' \<and> cached_tbl tbl sm' = cached_tbl tbl sm
      \<and> r = (case cached_tbl tbl sm k of None \<Rightarrow> Inl FLAT_STORE_E_NOTFOUND | Some v \<Rightarrow> Inr v)"
proof -
  obtain s me where sm: "sm = (s, me)" by (cases sm)
  have a: "ok s" "cache_rep me (nodes_of me)" "coherent (tbl s) (records me (nodes_of me))"
    using assms(1) by (simp_all add: cached_inv_def sm)
  from cachekey_total [OF a(2), of B BC_READ "lookup_record k" s] obtain s' me' e d' where
    c: "cachekey B BC_READ (lookup_record k) (s, me) = Some ((s', me'), e, d')"
    and l: "lru_key B BC_READ (lookup_record k) (maxcache me) (s, records me (nodes_of me)) = ((s', records me' (nodes_of me')), e, d')"
    and rep: "cache_rep me' (nodes_of me')" "0 < maxcache me" by metis
  note t = lru_read_table [OF a(1,3) rep(2) _ l, simplified]
  have f: "backend_caching_fetch B sm k = Some ((s', me'),
      if d_state d' = NOTFOUND then Inl FLAT_STORE_E_NOTFOUND else Inr (d_val d'))"
    using c t(4) by (simp add: backend_caching_fetch_def sm)
  with assms(2) have eq: "sm' = (s', me')"
    "r = (if d_state d' = NOTFOUND then Inl FLAT_STORE_E_NOTFOUND else Inr (d_val d'))"
    by (simp_all add: caching_backend_def)
  show "backend_caching_fetch B sm k = Some (sm', r)" using f eq by simp
  show "cached_inv ok tbl sm' \<and> cached_tbl tbl sm' = cached_tbl tbl sm
      \<and> r = (case cached_tbl tbl sm k of None \<Rightarrow> Inl FLAT_STORE_E_NOTFOUND | Some v \<Rightarrow> Inr v)"
    using t rep by (simp add: eq sm cached_inv_def cached_tbl_def)
qed

lemma cached_exists_table:
  assumes "cached_inv ok tbl sm" and "be_exists (caching_backend B) sm k = (sm', e)"
  shows "backend_caching_exists B sm k = Some (sm', e)"
    and "cached_inv ok tbl sm' \<and> cached_tbl tbl sm' = cached_tbl tbl sm \<and> (e = 0 \<longleftrightarrow> cached_tbl tbl sm k \<noteq> None)"
proof -
  obtain s me where sm: "sm = (s, me)" by (cases sm)
  have a: "ok s" "cache_rep me (nodes_of me)" "coherent (tbl s) (records me (nodes_of me))"
    using assms(1) by (simp_all add: cached_inv_def sm)
  from cachekey_total [OF a(2), of B BC_EXISTS "lookup_record k" s] obtain s' me' e' d' where
    c: "cachekey B BC_EXISTS (lookup_record k) (s, me) = Some ((s', me'), e', d')"
    and l: "lru_key B BC_EXISTS (lookup_record k) (maxcache me) (s, records me (nodes_of me)) = ((s', records me' (nodes_of me')), e', d')"
    and rep: "cache_rep me' (nodes_of me')" "0 < maxcache me" by metis
  note t = lru_read_table [OF a(1,3) rep(2) _ l, simplified]
  have f: "backend_caching_exists B sm k = Some ((s', me'),
      if d_state d' = EXISTS \<or> d_state d' = CHANGED then 0 else FLAT_STORE_E_NOTFOUND)"
    using c t(4) by (simp add: backend_caching_exists_def sm)
  with assms(2) have eq: "sm' = (s', me')"
    "e = (if d_state d' = EXISTS \<or> d_state d' = CHANGED then 0 else FLAT_STORE_E_NOTFOUND)"
    by (simp_all add: caching_backend_def)
  show "backend_caching_exists B sm k = Some (sm', e)" using f eq by simp
  have "cached_inv ok tbl sm' \<and> cached_tbl tbl sm' = cached_tbl tbl sm"
    using t rep by (simp add: eq(1) sm cached_inv_def cached_tbl_def)
  moreover have "e = 0 \<longleftrightarrow> cached_tbl tbl sm k \<noteq> None"
    using t(5,6) unfolding eq(2) sm cached_tbl_def by (auto simp: FLAT_STORE_E_NOTFOUND_def)
  ultimately show "cached_inv ok tbl sm' \<and> cached_tbl tbl sm' = cached_tbl tbl sm
      \<and> (e = 0 \<longleftrightarrow> cached_tbl tbl sm k \<noteq> None)" by simp
qed

lemma cached_store_table:
  assumes "cached_inv ok tbl sm" and "be_store (caching_backend B) sm k v = (sm', e)"
  shows "backend_caching_store B sm k v = Some (sm', e)"
    and "cached_inv ok tbl sm' \<and> cached_tbl tbl sm' = (cached_tbl tbl sm)(k \<mapsto> v) \<and> e = 0"
proof -
  obtain s me where sm: "sm = (s, me)" by (cases sm)
  have a: "ok s" "cache_rep me (nodes_of me)" "coherent (tbl s) (records me (nodes_of me))"
    using assms(1) by (simp_all add: cached_inv_def sm)
  let ?d = "\<lparr> d_key = k, d_val = v, d_state = CHANGED \<rparr>"
  from cachekey_total [OF a(2), of B BC_WRITE ?d s] obtain s' me' e' d' where
    c: "cachekey B BC_WRITE ?d (s, me) = Some ((s', me'), e', d')"
    and l: "lru_key B BC_WRITE ?d (maxcache me) (s, records me (nodes_of me)) = ((s', records me' (nodes_of me')), e', d')"
    and rep: "cache_rep me' (nodes_of me')" "0 < maxcache me" by metis
  note t = lru_write_table [OF a(1,3) rep(2) l]
  have f: "backend_caching_store B sm k v = Some ((s', me'), e')"
    using c by (simp add: backend_caching_store_def sm)
  with assms(2) have eq: "sm' = (s', me')" "e = e'" by (simp_all add: caching_backend_def)
  show "backend_caching_store B sm k v = Some (sm', e)" using f eq by simp
  show "cached_inv ok tbl sm' \<and> cached_tbl tbl sm' = (cached_tbl tbl sm)(k \<mapsto> v) \<and> e = 0"
    using t rep by (simp add: eq sm cached_inv_def cached_tbl_def)
qed

lemma cached_delete_table:
  assumes "cached_inv ok tbl sm" and "be_delete (caching_backend B) sm k = (sm', e)"
  shows "backend_caching_delete B sm k = Some (sm', e)"
    and "cached_inv ok tbl sm' \<and> cached_tbl tbl sm' = (cached_tbl tbl sm)(k := None)
      \<and> (e = 0 \<or> e = FLAT_STORE_E_NOTFOUND) \<and> (e = 0 \<longrightarrow> cached_tbl tbl sm k \<noteq> None)"
proof -
  obtain s me where sm: "sm = (s, me)" by (cases sm)
  have a: "ok s" "cache_rep me (nodes_of me)" "coherent (tbl s) (records me (nodes_of me))"
    using assms(1) by (simp_all add: cached_inv_def sm)
  from cachekey_total [OF a(2), of B BC_DELETE "lookup_record k" s] obtain s' me' e' d' where
    c: "cachekey B BC_DELETE (lookup_record k) (s, me) = Some ((s', me'), e', d')"
    and l: "lru_key B BC_DELETE (lookup_record k) (maxcache me) (s, records me (nodes_of me)) = ((s', records me' (nodes_of me')), e', d')"
    and rep: "cache_rep me' (nodes_of me')" "0 < maxcache me" by metis
  note t = lru_delete_table [OF a(1,3) rep(2) l]
  have f: "backend_caching_delete B sm k = Some ((s', me'), e')"
    using c by (simp add: backend_caching_delete_def sm)
  with assms(2) have eq: "sm' = (s', me')" "e = e'" by (simp_all add: caching_backend_def)
  show "backend_caching_delete B sm k = Some (sm', e)" using f eq by simp
  show "cached_inv ok tbl sm' \<and> cached_tbl tbl sm' = (cached_tbl tbl sm)(k := None)
      \<and> (e = 0 \<or> e = FLAT_STORE_E_NOTFOUND) \<and> (e = 0 \<longrightarrow> cached_tbl tbl sm k \<noteq> None)"
    using t rep by (auto simp: eq sm cached_inv_def cached_tbl_def)
qed

text \<open>A key that only the cache knows yet: the deletion is right, its return code is not.\<close>

lemma cached_delete_unsynced:
  assumes "cached_inv ok tbl sm" and "cached_tbl tbl sm k \<noteq> None" and "tbl (fst sm) k = None"
    and "be_delete (caching_backend B) sm k = (sm', e)"
  shows "e = FLAT_STORE_E_NOTFOUND"
proof -
  obtain s me where sm: "sm = (s, me)" by (cases sm)
  have a: "ok s" "cache_rep me (nodes_of me)" "coherent (tbl s) (records me (nodes_of me))"
    using assms(1) by (simp_all add: cached_inv_def sm)
  let ?L = "records me (nodes_of me)"
  have "find (\<lambda>d. d_key d = k) ?L \<noteq> None"
    using assms(2,3) by (cases "find (\<lambda>d. d_key d = k) ?L") (simp_all add: cached_tbl_def lview_def sm)
  then obtain x where x: "find (\<lambda>d. d_key d = k) ?L = Some x" by blast
  from cachekey_total [OF a(2), of B BC_DELETE "lookup_record k" s] obtain s' me' e' d' where
    c: "cachekey B BC_DELETE (lookup_record k) (s, me) = Some ((s', me'), e', d')"
    and l: "lru_key B BC_DELETE (lookup_record k) (maxcache me) (s, ?L) = ((s', records me' (nodes_of me')), e', d')" by metis
  obtain s2 e2 d2 where f: "cb_delete B s (lookup_record k) = (s2, e2, d2)" by (metis prod.collapse)
  note ft = cb_delete_table [OF a(1) f]
  have "e' = e2" using l x f by (simp add: lru_key_def hit_data_def lookup_record_def Let_def)
  moreover have "e = e'" using assms(4) c by (simp add: caching_backend_def backend_caching_delete_def sm)
  ultimately show ?thesis using ft(3,4) assms(3) by (auto simp: sm)
qed

text \<open>The first store into an open cache does not reach the backend.\<close>

lemma first_store_cached:
  assumes "be_store (caching_backend B) (backend_caching_open s) k v = (sm, e)"
  shows "fst sm = s"
proof -
  have rep: "cache_rep (init_cachingstore 0) (nodes_of (init_cachingstore 0))"
    using init_cachingstore_rep [of 0] by (simp add: nodes_of_def init_cachingstore_def)
  have nil: "records (init_cachingstore 0) (nodes_of (init_cachingstore 0)) = []"
    by (simp add: records_def nodes_of_def init_cachingstore_def)
  let ?d = "\<lparr> d_key = k, d_val = v, d_state = CHANGED \<rparr>"
  from cachekey_total [OF rep, of B BC_WRITE ?d s, unfolded nil] obtain s' me' e' d' where
    c: "cachekey B BC_WRITE ?d (s, init_cachingstore 0) = Some ((s', me'), e', d')"
    and l: "lru_key B BC_WRITE ?d (maxcache (init_cachingstore 0)) (s, []) = ((s', records me' (nodes_of me')), e', d')"
    and "0 < maxcache (init_cachingstore 0)" by metis
  then have "s' = s" by (simp add: lru_key_def miss_data_def)
  then show ?thesis
    using c assms by (auto simp: caching_backend_def backend_caching_store_def backend_caching_open_def)
qed

lemma cached_purge_table:
  assumes "cached_inv ok tbl sm" and "purgecache B sm = (s', me')"
  shows "ok s'" and "tbl s' = cached_tbl tbl sm" and "cache_rep me' []" and "nodes_of me' = []"
proof -
  obtain s me where sm: "sm = (s, me)" by (cases sm)
  have a: "ok s" "cache_rep me (nodes_of me)" "coherent (tbl s) (records me (nodes_of me))"
    using assms(1) by (simp_all add: cached_inv_def sm)
  from purgecache_simulates [OF a(2), of B s] assms(2) sm have
    "s' = foldl (\<lambda>s d. fst (cb_store B s d)) s (records me (nodes_of me))" and rep: "cache_rep me' []" by auto
  with purge_table [OF a(1,3)] show "ok s'" "tbl s' = cached_tbl tbl sm" "cache_rep me' []"
    by (simp_all add: cached_tbl_def sm)
  show "nodes_of me' = []" by (rule nodes_of_rep [OF rep])
qed

lemma cached_sync_table:
  assumes "cached_inv ok tbl sm" and "be_sync (caching_backend B) sm = (sm', e)"
  shows "cached_inv ok tbl sm' \<and> cached_tbl tbl sm' = cached_tbl tbl sm"
proof -
  obtain s1 me1 where p: "purgecache B sm = (s1, me1)" by (metis prod.collapse)
  note t = cached_purge_table [OF assms(1) p]
  obtain s2 e2 where y: "be_sync B s1 = (s2, e2)" by (metis prod.collapse)
  with assms(2) p have "sm' = (s2, me1)" by (simp add: caching_backend_def backend_caching_sync_def)
  with sync [OF t(1) y] t show ?thesis
    by (simp add: cached_inv_def cached_tbl_def records_def)
qed

lemma caching_flat_table: "flat_table (caching_backend B) (cached_inv ok tbl) (cached_tbl tbl)"
proof unfold_locales
  fix sm k sm' r
  assume "cached_inv ok tbl sm" "be_fetch (caching_backend B) sm k = (sm', r)"
  then show "cached_inv ok tbl sm' \<and> cached_tbl tbl sm' = cached_tbl tbl sm
      \<and> r = (case cached_tbl tbl sm k of None \<Rightarrow> Inl FLAT_STORE_E_NOTFOUND | Some v \<Rightarrow> Inr v)"
    by (rule cached_fetch_table(2))
next
  fix sm k v sm' e
  assume "cached_inv ok tbl sm" "be_store (caching_backend B) sm k v = (sm', e)"
  from cached_store_table(2) [OF this]
  show "cached_inv ok tbl sm' \<and> cached_tbl tbl sm' = (cached_tbl tbl sm)(k \<mapsto> v)
      \<and> (e = 0 \<or> e = FLAT_STORE_E_KEYEXIST)" by simp
next
  fix sm k sm' e
  assume "cached_inv ok tbl sm" "be_exists (caching_backend B) sm k = (sm', e)"
  then show "cached_inv ok tbl sm' \<and> cached_tbl tbl sm' = cached_tbl tbl sm \<and> (e = 0 \<longleftrightarrow> cached_tbl tbl sm k \<noteq> None)"
    by (rule cached_exists_table(2))
next
  fix sm k sm' e
  assume "cached_inv ok tbl sm" "be_delete (caching_backend B) sm k = (sm', e)"
  then show "cached_inv ok tbl sm' \<and> cached_tbl tbl sm' = (cached_tbl tbl sm)(k := None)
      \<and> (e = 0 \<or> e = FLAT_STORE_E_NOTFOUND) \<and> (e = 0 \<longrightarrow> cached_tbl tbl sm k \<noteq> None)"
    by (rule cached_delete_table(2))
next
  fix sm sm' e
  assume "cached_inv ok tbl sm" "be_sync (caching_backend B) sm = (sm', e)"
  then show "cached_inv ok tbl sm' \<and> cached_tbl tbl sm' = cached_tbl tbl sm"
    by (rule cached_sync_table)
qed

end

lemma purge_unchanged:
  "\<forall>d\<in>set L. d_state d \<noteq> CHANGED \<Longrightarrow> foldl (\<lambda>s d. fst (cb_store B s d)) s L = s"
  by (induction L) (simp_all add: cb_store_def)

context flat_cursor
begin

lemma lru_read_walk:
  assumes "ok s" and "walk s ks" and "0 < M" and clean: "\<forall>d\<in>set L. d_state d \<noteq> CHANGED"
    and run: "lru_key B BC_READ (lookup_record k) M (s, L) = ((s', L'), e, d')"
  shows "walk s' ks \<and> (\<forall>d\<in>set L'. d_state d \<noteq> CHANGED)"
proof (cases "find (\<lambda>d. d_key d = k) L")
  case None
  have ev: "fst (cb_store B s (last L)) = s" if "length L \<ge> M"
    using that assms(3) clean by (cases L rule: rev_cases) (simp_all add: cb_store_def)
  obtain s2 e2 d2 where f: "cb_fetch B s (lookup_record k) = (s2, e2, d2)" by (metis prod.collapse)
  obtain s3 r where b: "be_fetch B s k = (s3, r)" by (metis prod.collapse)
  have "s2 = s3" using f b by (auto simp: cb_fetch_def lookup_record_def split: sum.splits if_splits)
  then have "walk s2 ks" using walk_fetch [OF assms(1,2) b] by simp
  moreover have "d_state d2 \<noteq> CHANGED"
    using cb_fetch_table(4) [OF assms(1) f] by (simp split: option.splits)
  moreover have "s' = s2 \<and> (L' = d2 # L \<or> L' = d2 # butlast L)"
    using run None f ev
    by (auto simp: lru_key_def lookup_record_def miss_data_def Let_def split: if_splits)
  moreover have "set (butlast L) \<subseteq> set L" by (auto dest: in_set_butlastD)
  ultimately show ?thesis using clean by auto
next
  case (Some x)
  then have "x \<in> set L" by (auto simp: find_Some_iff)
  moreover have "s' = s \<and> L' = x # filter (\<lambda>y. d_key y \<noteq> k) L"
    using run Some by (auto simp: lru_key_def lookup_record_def hit_data_def)
  ultimately show ?thesis using clean assms(2) by auto
qed

lemma caching_flat_cursor:
  "flat_cursor (caching_backend B) (cached_inv ok tbl) (cached_tbl tbl) (cached_walk walk)"
proof (intro flat_cursor.intro flat_cursor_axioms.intro caching_flat_table)
  fix sm sm' r
  assume i: "cached_inv ok tbl sm" and run: "be_first (caching_backend B) sm = (sm', r)"
  obtain s1 me1 where p: "purgecache B sm = (s1, me1)" by (metis prod.collapse)
  note t = cached_purge_table [OF i p]
  obtain s2 r2 where y: "be_first B s1 = (s2, r2)" by (metis prod.collapse)
  have sm': "sm' = (s2, me1)" "r = r2"
    using run p y by (simp_all add: caching_backend_def backend_caching_first_def)
  from first [OF t(1) y] t show "cached_inv ok tbl sm' \<and> cached_tbl tbl sm' = cached_tbl tbl sm
      \<and> (\<exists>ks. distinct ks \<and> set ks = dom (cached_tbl tbl sm)
           \<and> (case ks of [] \<Rightarrow> \<exists>e. r = Inl e | k # ks' \<Rightarrow> r = Inr k \<and> cached_walk walk sm' ks'))"
    by (simp add: sm' cached_inv_def cached_tbl_def cached_walk_def records_def cong: list.case_cong)
next
  fix sm ks k sm' r
  assume i: "cached_inv ok tbl sm" and w: "cached_walk walk sm ks"
    and run: "be_next (caching_backend B) sm k = (sm', r)"
  obtain s1 me1 where p: "purgecache B sm = (s1, me1)" by (metis prod.collapse)
  note t = cached_purge_table [OF i p]
  obtain s2 r2 where y: "be_next B s1 k = (s2, r2)" by (metis prod.collapse)
  have sm': "sm' = (s2, me1)" "r = r2"
    using run p y by (simp_all add: caching_backend_def backend_caching_next_def)
  obtain s me where sm: "sm = (s, me)" by (cases sm)
  have "s1 = foldl (\<lambda>s d. fst (cb_store B s d)) s (records me (nodes_of me))"
    using purgecache_simulates [of me "nodes_of me" B s] i p by (auto simp: cached_inv_def sm)
  then have "s1 = s"
    using purge_unchanged [of "records me (nodes_of me)" B s] w by (simp add: cached_walk_def sm)
  then have "walk s1 ks" using w by (simp add: cached_walk_def sm)
  from step [OF t(1) this y] t show "cached_inv ok tbl sm' \<and> cached_tbl tbl sm' = cached_tbl tbl sm
      \<and> (case ks of [] \<Rightarrow> \<exists>e. r = Inl e | k' # ks' \<Rightarrow> r = Inr k' \<and> cached_walk walk sm' ks')"
    by (auto simp: sm' cached_inv_def cached_tbl_def cached_walk_def records_def split: list.splits)
next
  fix sm ks k sm' r
  assume i: "cached_inv ok tbl sm" and w: "cached_walk walk sm ks"
    and run: "be_fetch (caching_backend B) sm k = (sm', r)"
  obtain s me where sm: "sm = (s, me)" by (cases sm)
  have a: "ok s" "cache_rep me (nodes_of me)" using i by (simp_all add: cached_inv_def sm)
  from cachekey_total [OF a(2), of B BC_READ "lookup_record k" s] obtain s' me' e' d' where
    c: "cachekey B BC_READ (lookup_record k) (s, me) = Some ((s', me'), e', d')"
    and l: "lru_key B BC_READ (lookup_record k) (maxcache me) (s, records me (nodes_of me)) = ((s', records me' (nodes_of me')), e', d')"
    and rep: "0 < maxcache me" by metis
  have "sm' = (s', me')" using run c by (simp add: caching_backend_def backend_caching_fetch_def sm)
  with lru_read_walk [OF a(1) _ rep _ l] w show "cached_walk walk sm' ks"
    by (auto simp: cached_walk_def sm)
qed

end

section \<open>Properties\<close>

lemma open_inv: "ok s \<Longrightarrow> cached_inv ok tbl (backend_caching_open s)"
  and open_tbl: "cached_tbl tbl (backend_caching_open s) = tbl s"
  using init_cachingstore_rep [of 0]
  by (simp_all add: cached_inv_def cached_tbl_def backend_caching_open_def records_def nodes_of_def
      init_cachingstore_def)


text \<open>C18. The cache of heap cells in a circular doubly linked list with a sorted index
  refines a plain list of records in least-recently-used order: cachekey never fails on a
  well-formed cache, keeps it well formed and of the same capacity, and makes the step of
  the list model, evictions included.\<close>

theorem cachekey_refines_lru:
  assumes "cache_rep me xs"
  shows "\<exists>s' me' e d' xs'. cachekey B op d (s, me) = Some ((s', me'), e, d') \<and> cache_rep me' xs'
    \<and> maxcache me' = maxcache me
    \<and> lru_key B op d (maxcache me) (s, records me xs) = ((s', records me' xs'), e, d')"
  using assms by (rule cachekey_simulates)

text \<open>
  An error of the backend is reported once. The record is cached all the same, and the next
  fetch of the key is a success with an empty value.
\<close>

theorem fetch_error_forgotten:
  assumes "be_fetch B s k = (s1, Inl e)" and "e \<noteq> 0" and "e \<noteq> FLAT_STORE_E_NOTFOUND"
  shows "\<exists>sm1 sm2. backend_caching_fetch B (backend_caching_open s) k = Some (sm1, Inl e)
    \<and> backend_caching_fetch B sm1 k = Some (sm2, Inr [])"
proof -
  have rep: "cache_rep (init_cachingstore 0) []" by (rule init_cachingstore_rep) simp
  let ?d = "lookup_record k"
  have key: "d_key ?d = k" by (simp add: lookup_record_def)
  have "maxcache (init_cachingstore 0) = 1000" by (simp add: init_cachingstore_def DEFAULTMAXCACHE_def)
  then have first: "lru_key B BC_READ ?d 1000 (s, []) = ((s1, [?d]), e, ?d)"
    using assms by (simp add: lru_key_def miss_data_def cb_fetch_def key)
  have mc: "maxcache (init_cachingstore 0) = 1000" by (simp add: init_cachingstore_def DEFAULTMAXCACHE_def)
  from cachekey_simulates [OF rep, of B BC_READ ?d s] first obtain me1 xs1 where
    c1: "cachekey B BC_READ ?d (s, init_cachingstore 0) = Some ((s1, me1), e, ?d)"
    and r1: "cache_rep me1 xs1" "maxcache me1 = 1000" "records me1 xs1 = [?d]"
    by (auto simp: mc records_def)
  have second: "lru_key B BC_READ ?d 1000 (s1, [?d]) = ((s1, [?d]), 0, ?d)"
    by (simp add: lru_key_def hit_data_def key)
  from cachekey_simulates [OF r1(1), of B BC_READ ?d s1] second obtain me2 where
    c2: "cachekey B BC_READ ?d (s1, me1) = Some ((s1, me2), 0, ?d)"
    by (auto simp: r1)
  show ?thesis
    using c1 c2 assms(2) by (auto simp: backend_caching_fetch_def backend_caching_open_def lookup_record_def)
qed

end
