(* ===== verification/Bdb.thy ===== *)
theory Bdb
  imports Caching "HOL-Library.AList"
begin

text \<open>
  The Berkeley DB backend (\<open>src/backend_bdb_store.c\<close>, built with \<open>DB_VERSION_MAJOR > 2\<close>). The
  library itself is a parameter: the record \<open>db\<close> of the calls the file makes on its handle
  and cursor, with their return codes. \<open>db_laws\<close> states what the documentation of the
  library says of them. Under it the backend keeps the contracts of \<open>Flatdb\<close>, and so does
  the caching store over it.
\<close>

record 's db =
  DB_NOTFOUND :: int
  DB_KEYEXIST :: int
  db_get :: "'s \<Rightarrow> flat_key \<Rightarrow> int + flat_data"
  db_put :: "'s \<Rightarrow> flat_key \<Rightarrow> flat_data \<Rightarrow> 's \<times> int"
  db_del :: "'s \<Rightarrow> flat_key \<Rightarrow> 's \<times> int"
  c_get_first :: "'s \<Rightarrow> 's \<times> (int + flat_key)"
  c_get_next :: "'s \<Rightarrow> 's \<times> (int + flat_key)"
  c_get_range :: "'s \<Rightarrow> flat_key \<Rightarrow> 's \<times> (int + flat_key)"
  db_sync :: "'s \<Rightarrow> 's \<times> int"
  db_close :: "'s \<Rightarrow> 's \<times> int"

section \<open>Operations\<close>

text \<open>Every failure to fetch is reported as \<open>FLAT_STORE_E_NOTFOUND\<close>.\<close>

definition backend_bdb_fetch :: "'s db \<Rightarrow> 's \<Rightarrow> flat_key \<Rightarrow> 's \<times> (flat_error + flat_data)" where
  "backend_bdb_fetch D s k = (case db_get D s k of
     Inl retval \<Rightarrow>
       (s, if retval = DB_NOTFOUND D then Inl FLAT_STORE_E_NOTFOUND else Inl FLAT_STORE_E_NOTFOUND)
   | Inr v \<Rightarrow> (s, Inr v))"

definition backend_bdb_fetch_compressed ::
  "'s db \<Rightarrow> (flat_data \<Rightarrow> flat_data) \<Rightarrow> 's \<Rightarrow> flat_key \<Rightarrow> 's \<times> (flat_error + flat_data)"
where
  "backend_bdb_fetch_compressed D decode s k = (case backend_bdb_fetch D s k of
     (s, Inl e) \<Rightarrow> (s, Inl e)
   | (s, Inr v) \<Rightarrow> (s, Inr (decode v)))"

definition backend_bdb_store :: "'s db \<Rightarrow> 's \<Rightarrow> flat_key \<Rightarrow> flat_data \<Rightarrow> 's \<times> flat_error" where
  "backend_bdb_store D s k v = (case db_put D s k v of
     (s, retval) \<Rightarrow>
       (s, if retval \<noteq> 0
           then if retval = DB_KEYEXIST D then FLAT_STORE_E_KEYEXIST else FLAT_STORE_E_NONNUL
           else 0))"

definition backend_bdb_store_compressed ::
  "'s db \<Rightarrow> (flat_data \<Rightarrow> flat_data) \<Rightarrow> 's \<Rightarrow> flat_key \<Rightarrow> flat_data \<Rightarrow> 's \<times> flat_error"
where
  "backend_bdb_store_compressed D encode s k v = backend_bdb_store D s k (encode v)"

definition backend_bdb_exists :: "'s db \<Rightarrow> 's \<Rightarrow> flat_key \<Rightarrow> 's \<times> flat_error" where
  "backend_bdb_exists D s k = (s, case db_get D s k of Inl retval \<Rightarrow> retval | Inr v \<Rightarrow> 0)"

definition backend_bdb_delete :: "'s db \<Rightarrow> 's \<Rightarrow> flat_key \<Rightarrow> 's \<times> flat_error" where
  "backend_bdb_delete D s k = (case db_del D s k of
     (s, retval) \<Rightarrow> (s, if retval = DB_NOTFOUND D then FLAT_STORE_E_NOTFOUND else retval))"

definition backend_bdb_inc :: "'s db \<Rightarrow> 's \<Rightarrow> flat_key \<Rightarrow> 's \<times> (flat_error + flat_data)" where
  "backend_bdb_inc D s k = (case db_get D s k of
     Inl retval \<Rightarrow> (s, Inl (- 1))
   | Inr v \<Rightarrow>
       let new = packInt (unpackInt v + 1); (s, retval) = db_put D s k new
       in (s, if retval \<noteq> 0 then Inl retval else Inr new))"

text \<open>\<open>None\<close> is the failed \<open>assert(l > 0)\<close>.\<close>

definition backend_bdb_dec :: "'s db \<Rightarrow> 's \<Rightarrow> flat_key \<Rightarrow> ('s \<times> (flat_error + flat_data)) option" where
  "backend_bdb_dec D s k = (case db_get D s k of
     Inl retval \<Rightarrow> Some (s, Inl (- 1))
   | Inr v \<Rightarrow>
       if \<not> unpackInt v > 0 then None
       else
         let new = packInt (unpackInt v - 1); (s, retval) = db_put D s k new
         in Some (s, if retval \<noteq> 0 then Inl retval else Inr new))"

definition backend_bdb_first :: "'s db \<Rightarrow> 's \<Rightarrow> 's \<times> (flat_error + flat_key)" where
  "backend_bdb_first D s = c_get_first D s"

text \<open>\<open>previous_key\<close> is not used: the cursor of the handle knows where it is.\<close>

definition backend_bdb_next :: "'s db \<Rightarrow> 's \<Rightarrow> flat_key \<Rightarrow> 's \<times> (flat_error + flat_key)" where
  "backend_bdb_next D s previous_key = c_get_next D s"

definition backend_bdb_from :: "'s db \<Rightarrow> 's \<Rightarrow> flat_key \<Rightarrow> 's \<times> (flat_error + flat_key)" where
  "backend_bdb_from D s closest_key = c_get_range D s closest_key"

definition backend_bdb_sync :: "'s db \<Rightarrow> 's \<Rightarrow> 's \<times> flat_error" where
  "backend_bdb_sync D s = (case db_sync D s of (s, retval) \<Rightarrow> (s, if retval > 0 then - 1 else retval))"

definition backend_bdb_close :: "'s db \<Rightarrow> 's \<Rightarrow> 's \<times> flat_error" where
  "backend_bdb_close D s = (case db_close D s of (s, retval) \<Rightarrow> (s, 0))"

text \<open>\<open>backend_bdb\<close>, the record \<open>DECLARE_MODULE_BACKEND\<close> makes of these operations.\<close>

definition backend_bdb :: "'s db \<Rightarrow> 's backend" where
  "backend_bdb D =
     \<lparr> be_fetch = backend_bdb_fetch D, be_store = backend_bdb_store D, be_exists = backend_bdb_exists D,
       be_delete = backend_bdb_delete D, be_inc = backend_bdb_inc D,
       be_dec = (\<lambda>s k. the (backend_bdb_dec D s k)), be_first = backend_bdb_first D,
       be_next = backend_bdb_next D, be_from = backend_bdb_from D, be_sync = backend_bdb_sync D,
       be_close = backend_bdb_close D \<rparr>"

text \<open>
  \<open>rdfstore_backend_bdb_compare_int\<close>: the two keys are read as \<open>long\<close>, the difference is
  returned as \<open>int\<close>.
\<close>

definition bdb_compare_int :: "64 word \<Rightarrow> 64 word \<Rightarrow> 32 word" where
  "bdb_compare_int ai bi = ucast (ai - bi)"

section \<open>The contract\<close>

text \<open>
  \<open>DB->get\<close> returns the value of a key or \<open>DB_NOTFOUND\<close>; \<open>DB->put\<close> without flags inserts or
  overwrites and returns \<open>0\<close>; \<open>DB->del\<close> removes the key and returns \<open>0\<close>, or \<open>DB_NOTFOUND\<close> when
  there is none; a cursor returns every key once, from \<open>DB_FIRST\<close> on with \<open>DB_NEXT\<close>, and then
  an error; \<open>DB->sync\<close> changes no pair.
\<close>

definition db_laws ::
  "'s db \<Rightarrow> ('s \<Rightarrow> bool) \<Rightarrow> ('s \<Rightarrow> flat_key \<Rightarrow> flat_data option) \<Rightarrow> ('s \<Rightarrow> flat_key list \<Rightarrow> bool) \<Rightarrow> bool"
where
  "db_laws D ok tbl walk \<longleftrightarrow>
     DB_NOTFOUND D \<noteq> 0
     \<and> (\<forall>s k. ok s \<longrightarrow> db_get D s k = (case tbl s k of None \<Rightarrow> Inl (DB_NOTFOUND D) | Some v \<Rightarrow> Inr v))
     \<and> (\<forall>s k v. ok s \<longrightarrow> snd (db_put D s k v) = 0 \<and> ok (fst (db_put D s k v))
          \<and> tbl (fst (db_put D s k v)) = (tbl s)(k \<mapsto> v))
     \<and> (\<forall>s k. ok s \<longrightarrow> snd (db_del D s k) = (if tbl s k = None then DB_NOTFOUND D else 0)
          \<and> ok (fst (db_del D s k)) \<and> tbl (fst (db_del D s k)) = (tbl s)(k := None))
     \<and> (\<forall>s. ok s \<longrightarrow> ok (fst (db_sync D s)) \<and> tbl (fst (db_sync D s)) = tbl s)
     \<and> (\<forall>s. ok s \<longrightarrow> ok (fst (c_get_first D s)) \<and> tbl (fst (c_get_first D s)) = tbl s
          \<and> (\<exists>ks. distinct ks \<and> set ks = dom (tbl s)
               \<and> (case ks of [] \<Rightarrow> \<exists>e. snd (c_get_first D s) = Inl e
                  | k # ks' \<Rightarrow> snd (c_get_first D s) = Inr k \<and> walk (fst (c_get_first D s)) ks')))
     \<and> (\<forall>s ks. ok s \<longrightarrow> walk s ks \<longrightarrow> ok (fst (c_get_next D s)) \<and> tbl (fst (c_get_next D s)) = tbl s
          \<and> (case ks of [] \<Rightarrow> \<exists>e. snd (c_get_next D s) = Inl e
             | k # ks' \<Rightarrow> snd (c_get_next D s) = Inr k \<and> walk (fst (c_get_next D s)) ks'))"

lemma bdb_flat_table:
  assumes "db_laws D ok tbl walk"
  shows "flat_table (backend_bdb D) ok tbl"
proof unfold_locales
  fix s k s' r
  assume "ok s" "be_fetch (backend_bdb D) s k = (s', r)"
  with assms show "ok s' \<and> tbl s' = tbl s \<and> r = (case tbl s k of None \<Rightarrow> Inl FLAT_STORE_E_NOTFOUND | Some v \<Rightarrow> Inr v)"
    by (auto simp: db_laws_def backend_bdb_def backend_bdb_fetch_def split: option.splits)
next
  fix s k v s' e
  assume "ok s" "be_store (backend_bdb D) s k v = (s', e)"
  with assms show "ok s' \<and> tbl s' = (tbl s)(k \<mapsto> v) \<and> (e = 0 \<or> e = FLAT_STORE_E_KEYEXIST)"
    by (auto simp: db_laws_def backend_bdb_def backend_bdb_store_def split: prod.splits)
      (metis fst_conv snd_conv)+
next
  fix s k s' e
  assume "ok s" "be_exists (backend_bdb D) s k = (s', e)"
  with assms show "ok s' \<and> tbl s' = tbl s \<and> (e = 0 \<longleftrightarrow> tbl s k \<noteq> None)"
    by (auto simp: db_laws_def backend_bdb_def backend_bdb_exists_def split: option.splits)
next
  fix s k s' e
  assume s: "ok s" and "be_delete (backend_bdb D) s k = (s', e)"
  then have "s' = fst (db_del D s k)"
    "e = (if snd (db_del D s k) = DB_NOTFOUND D then FLAT_STORE_E_NOTFOUND else snd (db_del D s k))"
    by (auto simp: backend_bdb_def backend_bdb_delete_def split: prod.splits)
  moreover have "DB_NOTFOUND D \<noteq> 0"
    "snd (db_del D s k) = (if tbl s k = None then DB_NOTFOUND D else 0)"
    "ok (fst (db_del D s k))" "tbl (fst (db_del D s k)) = (tbl s)(k := None)"
    using assms s by (simp_all add: db_laws_def)
  ultimately show "ok s' \<and> tbl s' = (tbl s)(k := None)
      \<and> (e = 0 \<or> e = FLAT_STORE_E_NOTFOUND) \<and> (e = 0 \<longrightarrow> tbl s k \<noteq> None)"
    by (auto simp: FLAT_STORE_E_NOTFOUND_def)
next
  fix s s' e
  assume "ok s" "be_sync (backend_bdb D) s = (s', e)"
  with assms show "ok s' \<and> tbl s' = tbl s"
    by (auto simp: db_laws_def backend_bdb_def backend_bdb_sync_def split: prod.splits)
qed

lemma bdb_flat_cursor:
  assumes "db_laws D ok tbl walk"
  shows "flat_cursor (backend_bdb D) ok tbl walk"
proof (intro flat_cursor.intro flat_cursor_axioms.intro bdb_flat_table [OF assms])
  fix s s' r
  assume s: "ok s" and "be_first (backend_bdb D) s = (s', r)"
  then have eq: "s' = fst (c_get_first D s)" "r = snd (c_get_first D s)"
    by (simp_all add: backend_bdb_def backend_bdb_first_def)
  show "ok s' \<and> tbl s' = tbl s \<and> (\<exists>ks. distinct ks \<and> set ks = dom (tbl s)
           \<and> (case ks of [] \<Rightarrow> \<exists>e. r = Inl e | k # ks' \<Rightarrow> r = Inr k \<and> walk s' ks'))"
    unfolding eq using assms s unfolding db_laws_def by blast
next
  fix s ks k s' r
  assume s: "ok s" "walk s ks" and "be_next (backend_bdb D) s k = (s', r)"
  then have eq: "s' = fst (c_get_next D s)" "r = snd (c_get_next D s)"
    by (simp_all add: backend_bdb_def backend_bdb_next_def)
  show "ok s' \<and> tbl s' = tbl s
      \<and> (case ks of [] \<Rightarrow> \<exists>e. r = Inl e | k' # ks' \<Rightarrow> r = Inr k' \<and> walk s' ks')"
    unfolding eq using assms s unfolding db_laws_def by blast
next
  fix s ks k s' r
  assume "ok s" "walk s ks" "be_fetch (backend_bdb D) s k = (s', r)"
  then show "walk s' ks"
    by (auto simp: backend_bdb_def backend_bdb_fetch_def split: sum.splits)
qed

section \<open>An instance of the parameter\<close>

text \<open>Pairs in the order of their insertion, and the keys the cursor has to go.\<close>

definition memdb :: "((flat_key \<times> flat_data) list \<times> flat_key list) db" where
  "memdb =
     \<lparr> DB_NOTFOUND = - 30988, DB_KEYEXIST = - 30995,
       db_get = (\<lambda>s k. case map_of (fst s) k of None \<Rightarrow> Inl (- 30988) | Some v \<Rightarrow> Inr v),
       db_put = (\<lambda>s k v. ((AList.update k v (fst s), snd s), 0)),
       db_del = (\<lambda>s k. ((AList.delete k (fst s), snd s), if map_of (fst s) k = None then - 30988 else 0)),
       c_get_first = (\<lambda>s. case map fst (fst s) of [] \<Rightarrow> (s, Inl (- 30988)) | k # ks \<Rightarrow> ((fst s, ks), Inr k)),
       c_get_next = (\<lambda>s. case snd s of [] \<Rightarrow> (s, Inl (- 30988)) | k # ks \<Rightarrow> ((fst s, ks), Inr k)),
       c_get_range = (\<lambda>s k. (s, Inl (- 30988))),
       db_sync = (\<lambda>s. (s, 0)), db_close = (\<lambda>s. (s, 0)) \<rparr>"

lemma memdb_laws:
  "db_laws memdb (\<lambda>s. distinct (map fst (fst s))) (\<lambda>s. map_of (fst s)) (\<lambda>s ks. snd s = ks)"
  unfolding db_laws_def
proof (intro conjI allI impI)
  fix s :: "(flat_key \<times> flat_data) list \<times> flat_key list"
  assume d: "distinct (map fst (fst s))"
  show "\<exists>ks. distinct ks \<and> set ks = dom (map_of (fst s))
      \<and> (case ks of [] \<Rightarrow> \<exists>e. snd (c_get_first memdb s) = Inl e
         | k # ks' \<Rightarrow> snd (c_get_first memdb s) = Inr k \<and> snd (fst (c_get_first memdb s)) = ks')"
    using d by (intro exI [of _ "map fst (fst s)"])
      (simp add: memdb_def dom_map_of_conv_image_fst split: list.split)
qed (auto simp: memdb_def distinct_update distinct_delete update_conv' delete_conv' split: list.splits option.splits)

interpretation mem_table: flat_cursor "backend_bdb memdb"
    "\<lambda>s. distinct (map fst (fst s))" "\<lambda>s. map_of (fst s)" "\<lambda>s ks. snd s = ks"
  by (rule bdb_flat_cursor [OF memdb_laws])

interpretation cached_table: flat_cursor "caching_backend (backend_bdb memdb)"
    "cached_inv (\<lambda>s. distinct (map fst (fst s))) (\<lambda>s. map_of (fst s))"
    "cached_tbl (\<lambda>s. map_of (fst s))" "cached_walk (\<lambda>s ks. snd s = ks)"
  by (rule mem_table.caching_flat_cursor)

section \<open>Properties\<close>




text \<open>Any history of operations on the caching store over Berkeley DB is one of a map.\<close>

text \<open>C4. Any history of fetch, store, exists, delete and sync run through the write-back LRU
  cache over the Berkeley DB backend answers (the return code of a deletion aside) exactly
  as the same history run on a finite map from keys to values, and after the final sync
  the map is what the database holds.\<close>

theorem cached_history:
  assumes "db_laws D ok tbl walk" and "ok s"
    and "run_ops (caching_backend (backend_bdb D)) ps (backend_caching_open s) = (sm, rs)"
    and "backend_caching_sync (backend_bdb D) sm = ((s', me'), e)"
  shows "map_ops ps (tbl s) = (tbl s', rs)"
proof -
  note t = flat_table.caching_flat_table [OF bdb_flat_table [OF assms(1)]]
  note h = flat_table.run_ops_map [OF t open_inv [of ok s tbl, OF assms(2)] assms(3), unfolded open_tbl]
  obtain s1 me1 where p: "purgecache (backend_bdb D) sm = (s1, me1)" by (metis prod.collapse)
  note pt = flat_table.cached_purge_table [OF bdb_flat_table [OF assms(1)] conjunct1 [OF h] p]
  obtain s2 e2 where y: "be_sync (backend_bdb D) s1 = (s2, e2)" by (metis prod.collapse)
  have "tbl s2 = tbl s1" using flat_table.sync [OF bdb_flat_table [OF assms(1)] pt(1) y] by simp
  moreover have "s' = s2" using assms(4) p y by (simp add: backend_caching_sync_def)
  ultimately show ?thesis using h pt(2) by simp
qed

theorem cached_history_witness:
  "\<exists>sm rs s' me' e.
     run_ops (caching_backend (backend_bdb memdb))
       [Op_store [1] [10], Op_fetch [1], Op_delete [2], Op_exists [2]] (backend_caching_open ([([2], [20])], []))
       = (sm, rs)
     \<and> backend_caching_sync (backend_bdb memdb) sm = ((s', me'), e)
     \<and> map_ops [Op_store [1] [10], Op_fetch [1], Op_delete [2], Op_exists [2]] (map_of [([2], [20])])
       = (map_of (fst s'), rs)"
proof -
  let ?ps = "[Op_store [1] [10], Op_fetch [1], Op_delete [2], Op_exists [2]]"
  let ?s = "([([2], [20])], []) :: (flat_key \<times> flat_data) list \<times> flat_key list"
  obtain sm rs where r: "run_ops (caching_backend (backend_bdb memdb)) ?ps (backend_caching_open ?s) = (sm, rs)"
    by (metis prod.collapse)
  obtain s' me' e where y: "backend_caching_sync (backend_bdb memdb) sm = ((s', me'), e)"
    by (metis prod.collapse)
  have "map_ops ?ps (map_of (fst ?s)) = (map_of (fst s'), rs)"
    by (rule cached_history [OF memdb_laws _ r y]) simp
  then have "map_ops ?ps (map_of [([2], [20])]) = (map_of (fst s'), rs)" unfolding fst_conv .
  with r y show ?thesis by blast
qed

text \<open>Keys that differ by a multiple of \<open>2 ^ 32\<close> are one key of an \<open>xsd:integer\<close> table.\<close>

theorem compare_int_collapses:
  "bdb_compare_int (a + push_bit 32 n) a = 0"
proof (rule bit_word_eqI)
  fix k assume "k < LENGTH(32)"
  then show "bit (bdb_compare_int (a + push_bit 32 n) a) k = bit (0 :: 32 word) k"
    by (simp add: bdb_compare_int_def bit_simps)
qed

theorem compare_int_order:
  assumes "\<bar>sint ai - sint bi\<bar> < 2 ^ 31"
  shows "sint (bdb_compare_int ai bi) = sint ai - sint bi"
proof -
  have r: "- (2 ^ 31) \<le> sint ai - sint bi" "sint ai - sint bi < 2 ^ 31" using assms by linarith+
  have "ai - bi = word_of_int (sint ai - sint bi)" by simp
  then have "bdb_compare_int ai bi = word_of_int (take_bit 64 (sint ai - sint bi))"
    unfolding bdb_compare_int_def by (simp only: unsigned_of_int) simp
  also have "\<dots> = word_of_int (sint ai - sint bi)"
  proof -
    have "word_of_int (take_bit 64 x) = (word_of_int x :: 32 word)" for x
      by (simp add: word_of_int_eq_iff)
    then show ?thesis .
  qed
  finally have "sint (bdb_compare_int ai bi) = signed_take_bit 31 (sint ai - sint bi)"
    by (simp only: sint_sbintrunc') simp
  then show ?thesis using r by (simp add: signed_take_bit_int_eq_self)
qed

theorem compare_int_order_witness:
  "sint (bdb_compare_int 7 (- 5)) = sint (7 :: 64 word) - sint (- 5 :: 64 word)"
  by (rule compare_int_order) simp

theorem fetch_error_forgotten_witness:
  "\<exists>sm1 sm2. backend_caching_fetch ((backend_bdb memdb)\<lparr>be_fetch := (\<lambda>s k. (s, Inl FLAT_STORE_E_DBMS))\<rparr>)
       (backend_caching_open ([], [])) [7] = Some (sm1, Inl FLAT_STORE_E_DBMS)
    \<and> backend_caching_fetch ((backend_bdb memdb)\<lparr>be_fetch := (\<lambda>s k. (s, Inl FLAT_STORE_E_DBMS))\<rparr>)
       sm1 [7] = Some (sm2, Inr [])"
  by (rule fetch_error_forgotten) (simp_all add: flat_error_codes)

theorem cachekey_refines_lru_witness:
  "\<exists>s' me' e d' xs'. cachekey (backend_bdb memdb) BC_READ (lookup_record [1])
       (([([1], [5])], []), init_cachingstore 2) = Some ((s', me'), e, d')
    \<and> cache_rep me' xs' \<and> maxcache me' = 2
    \<and> lru_key (backend_bdb memdb) BC_READ (lookup_record [1]) 2 (([([1], [5])], []), [])
        = ((s', records me' xs'), e, d')"
proof -
  have m: "maxcache (init_cachingstore 2) = 2" "records (init_cachingstore 2) [] = []"
    by (simp_all add: init_cachingstore_def records_def)
  have r: "cache_rep (init_cachingstore 2) []" by (rule init_cachingstore_rep) simp
  show ?thesis
    using cachekey_refines_lru [OF r, of "backend_bdb memdb" BC_READ "lookup_record [1]"
        "([([1], [5])], []) :: (flat_key \<times> flat_data) list \<times> flat_key list"] by (simp add: m)
qed

end
