(* ===== verification/Iterator.thy ===== *)
theory Iterator
  imports Bits Statement Bdb
begin

text \<open>
  Iterators over sets of statements (\<open>src/rdfstore_iterator.c\<close>,
  \<open>src/include/rdfstore_iterator.h\<close>) and \<open>rdfstore_elements\<close> of \<open>src/rdfstore_kernel.c\<close>. An
  iterator is a bit vector of statement identifiers with a position; its abstraction is the
  finite set \<open>ids_of\<close> of the identifiers. The lemmas relate the set operations to the
  operations on sets, the walks \<open>first\<close>/\<open>next\<close> and \<open>each\<close> to the sorted list of the
  identifiers, and say what \<open>remove\<close> and \<open>contains\<close> do.

  A pointer that may be null is an option. \<open>att\<close> maps a store to its count \<open>attached\<close>. The
  contents of fresh memory are a parameter \<open>buf\<close>; allocation succeeds.
\<close>

section \<open>State\<close>

definition MAXRECORDS_BYTES_SIZE :: nat where
  "MAXRECORDS_BYTES_SIZE = 2097152 div 8"

record rdfstore_iterator =
  it_store :: nat
  it_size :: nat
  ids :: mem
  ids_size :: nat
  remove_holes :: nat
  st_counter :: nat
  pos :: nat

type_synonym attachments = "nat \<Rightarrow> int"

definition attach :: "nat \<Rightarrow> attachments \<Rightarrow> attachments" where
  "attach st att = att(st := att st + 1)"

definition detach :: "nat \<Rightarrow> attachments \<Rightarrow> attachments" where
  "detach st att = att(st := att st - 1)"

type_synonym nodes_fetch = "flat_key \<Rightarrow> flat_error + flat_data"

section \<open>Walking\<close>

definition rdfstore_iterator_hasnext :: "rdfstore_iterator option \<Rightarrow> bool" where
  "rdfstore_iterator_hasnext me = (case me of None \<Rightarrow> False
     | Some it \<Rightarrow> st_counter it < it_size it)"

definition it_fetch :: "nodes_fetch \<Rightarrow> rdfstore_iterator \<Rightarrow> memory_fault + RDF_Statement option" where
  "it_fetch nodes it = fetch_statement nodes (it_size it) (pos it)"

text \<open>\<open>(me->pos = rdfstore_bits_getfirstsetafter(...)) >= 8*(me->ids_size)\<close>\<close>

definition seek :: "rdfstore_iterator \<Rightarrow> rdfstore_iterator" where
  "seek it = it\<lparr>pos := rdfstore_bits_getfirstsetafter (ids_size it) (ids it) (pos it)\<rparr>"

definition at_end :: "rdfstore_iterator \<Rightarrow> bool" where
  "at_end it \<longleftrightarrow> pos it \<ge> 8 * ids_size it"

definition rewind :: "rdfstore_iterator \<Rightarrow> rdfstore_iterator" where
  "rewind it = it\<lparr>st_counter := 0, pos := 0\<rparr>"

definition rdfstore_iterator_current ::
  "nodes_fetch \<Rightarrow> rdfstore_iterator option \<Rightarrow> memory_fault + RDF_Statement option"
where
  "rdfstore_iterator_current nodes me = (case me of None \<Rightarrow> Inr None | Some it \<Rightarrow> it_fetch nodes it)"

definition rdfstore_iterator_first ::
  "nodes_fetch \<Rightarrow> rdfstore_iterator option
    \<Rightarrow> memory_fault + (RDF_Statement option \<times> rdfstore_iterator option)"
where
  "rdfstore_iterator_first nodes me = (case me of None \<Rightarrow> Inr (None, None)
     | Some it \<Rightarrow>
         let it = seek (rewind it) in
         if at_end it then Inr (None, Some it)
         else bindE (it_fetch nodes it) (\<lambda>s. Inr (s, Some it)))"

definition rdfstore_iterator_next ::
  "nodes_fetch \<Rightarrow> rdfstore_iterator option
    \<Rightarrow> memory_fault + (RDF_Statement option \<times> rdfstore_iterator option)"
where
  "rdfstore_iterator_next nodes me = (case me of None \<Rightarrow> Inr (None, None)
     | Some it \<Rightarrow>
         let it = it\<lparr>st_counter := st_counter it + 1\<rparr>;
             it = seek (it\<lparr>pos := pos it + 1\<rparr>) in
         if at_end it then Inr (None, Some it)
         else bindE (it_fetch nodes it) (\<lambda>s. Inr (s, Some it)))"

definition rdfstore_iterator_each ::
  "nodes_fetch \<Rightarrow> rdfstore_iterator option
    \<Rightarrow> memory_fault + (RDF_Statement option \<times> rdfstore_iterator option)"
where
  "rdfstore_iterator_each nodes me = (case me of None \<Rightarrow> Inr (None, None)
     | Some it \<Rightarrow>
         if \<not> rdfstore_iterator_hasnext (Some it) then Inr (None, Some (rewind it))
         else
           let it = seek it in
           if at_end it then Inr (None, Some (rewind it))
           else bindE (it_fetch nodes it) (\<lambda>s. case s of
               None \<Rightarrow> Inr (None, Some (rewind it))
             | Some st \<Rightarrow> Inr (Some st, Some (it\<lparr>st_counter := st_counter it + 1, pos := pos it + 1\<rparr>))))"

text \<open>
  The variants that return one node of the statement and free the rest:
  \<open>rdfstore_iterator_next_subject\<close> and so on are \<open>next\<close> with the part taken out of its
  result; so are those of \<open>current\<close>, \<open>first\<close> and, but for a statement that has no context,
  of \<open>each\<close>.
\<close>

datatype node_part = Part_subject | Part_predicate | Part_object | Part_context

definition part_of :: "node_part \<Rightarrow> RDF_Statement \<Rightarrow> RDF_Node option" where
  "part_of w st = (case w of
     Part_subject \<Rightarrow> Some (Resource (subject st))
   | Part_predicate \<Rightarrow> Some (Resource (predicate st))
   | Part_object \<Rightarrow> Some (object st)
   | Part_context \<Rightarrow> map_option Resource (st_context st))"

definition take_part :: "node_part \<Rightarrow> RDF_Statement option \<Rightarrow> RDF_Node option" where
  "take_part w s = (case s of None \<Rightarrow> None | Some st \<Rightarrow> part_of w st)"

definition rdfstore_iterator_current_part ::
  "node_part \<Rightarrow> nodes_fetch \<Rightarrow> rdfstore_iterator option \<Rightarrow> memory_fault + RDF_Node option"
where
  "rdfstore_iterator_current_part w nodes me =
     (case me of None \<Rightarrow> Inr None | Some it \<Rightarrow> bindE (it_fetch nodes it) (\<lambda>s. Inr (take_part w s)))"

definition rdfstore_iterator_first_part ::
  "node_part \<Rightarrow> nodes_fetch \<Rightarrow> rdfstore_iterator option
    \<Rightarrow> memory_fault + (RDF_Node option \<times> rdfstore_iterator option)"
where
  "rdfstore_iterator_first_part w nodes me = (case me of None \<Rightarrow> Inr (None, None)
     | Some it \<Rightarrow>
         let it = seek (rewind it) in
         if at_end it then Inr (None, Some it)
         else bindE (rdfstore_iterator_current_part w nodes (Some it)) (\<lambda>r. Inr (r, Some it)))"

definition rdfstore_iterator_next_part ::
  "node_part \<Rightarrow> nodes_fetch \<Rightarrow> rdfstore_iterator option
    \<Rightarrow> memory_fault + (RDF_Node option \<times> rdfstore_iterator option)"
where
  "rdfstore_iterator_next_part w nodes me = (case me of None \<Rightarrow> Inr (None, None)
     | Some it \<Rightarrow>
         let it = it\<lparr>st_counter := st_counter it + 1\<rparr>;
             it = seek (it\<lparr>pos := pos it + 1\<rparr>) in
         if at_end it then Inr (None, Some it)
         else bindE (it_fetch nodes it) (\<lambda>s. Inr (take_part w s, Some it)))"

text \<open>
  \<open>each_subject\<close> and so on reset the iterator when there is no node to return, the end of the
  walk, a failed fetch and, for \<open>each_context\<close>, a statement without context alike.
\<close>

definition rdfstore_iterator_each_part ::
  "node_part \<Rightarrow> nodes_fetch \<Rightarrow> rdfstore_iterator option
    \<Rightarrow> memory_fault + (RDF_Node option \<times> rdfstore_iterator option)"
where
  "rdfstore_iterator_each_part w nodes me = (case me of None \<Rightarrow> Inr (None, None)
     | Some it \<Rightarrow>
         if \<not> rdfstore_iterator_hasnext (Some it) then Inr (None, Some (rewind it))
         else
           let it = seek it in
           if at_end it then Inr (None, Some (rewind it))
           else bindE (it_fetch nodes it) (\<lambda>s. case take_part w s of
               None \<Rightarrow> Inr (None, Some (rewind it))
             | Some r \<Rightarrow> Inr (Some r, Some (it\<lparr>st_counter := st_counter it + 1, pos := pos it + 1\<rparr>))))"

text \<open>The sixteen functions of the source.\<close>

definition rdfstore_iterator_next_subject ::
  "nodes_fetch \<Rightarrow> rdfstore_iterator option
    \<Rightarrow> memory_fault + (RDF_Node option \<times> rdfstore_iterator option)"
where
  "rdfstore_iterator_next_subject = rdfstore_iterator_next_part Part_subject"

definition rdfstore_iterator_next_predicate ::
  "nodes_fetch \<Rightarrow> rdfstore_iterator option
    \<Rightarrow> memory_fault + (RDF_Node option \<times> rdfstore_iterator option)"
where
  "rdfstore_iterator_next_predicate = rdfstore_iterator_next_part Part_predicate"

definition rdfstore_iterator_next_object ::
  "nodes_fetch \<Rightarrow> rdfstore_iterator option
    \<Rightarrow> memory_fault + (RDF_Node option \<times> rdfstore_iterator option)"
where
  "rdfstore_iterator_next_object = rdfstore_iterator_next_part Part_object"

definition rdfstore_iterator_next_context ::
  "nodes_fetch \<Rightarrow> rdfstore_iterator option
    \<Rightarrow> memory_fault + (RDF_Node option \<times> rdfstore_iterator option)"
where
  "rdfstore_iterator_next_context = rdfstore_iterator_next_part Part_context"

definition rdfstore_iterator_current_subject ::
  "nodes_fetch \<Rightarrow> rdfstore_iterator option \<Rightarrow> memory_fault + RDF_Node option"
where
  "rdfstore_iterator_current_subject = rdfstore_iterator_current_part Part_subject"

definition rdfstore_iterator_current_predicate ::
  "nodes_fetch \<Rightarrow> rdfstore_iterator option \<Rightarrow> memory_fault + RDF_Node option"
where
  "rdfstore_iterator_current_predicate = rdfstore_iterator_current_part Part_predicate"

definition rdfstore_iterator_current_object ::
  "nodes_fetch \<Rightarrow> rdfstore_iterator option \<Rightarrow> memory_fault + RDF_Node option"
where
  "rdfstore_iterator_current_object = rdfstore_iterator_current_part Part_object"

definition rdfstore_iterator_current_context ::
  "nodes_fetch \<Rightarrow> rdfstore_iterator option \<Rightarrow> memory_fault + RDF_Node option"
where
  "rdfstore_iterator_current_context = rdfstore_iterator_current_part Part_context"

definition rdfstore_iterator_first_subject ::
  "nodes_fetch \<Rightarrow> rdfstore_iterator option
    \<Rightarrow> memory_fault + (RDF_Node option \<times> rdfstore_iterator option)"
where
  "rdfstore_iterator_first_subject = rdfstore_iterator_first_part Part_subject"

definition rdfstore_iterator_first_predicate ::
  "nodes_fetch \<Rightarrow> rdfstore_iterator option
    \<Rightarrow> memory_fault + (RDF_Node option \<times> rdfstore_iterator option)"
where
  "rdfstore_iterator_first_predicate = rdfstore_iterator_first_part Part_predicate"

definition rdfstore_iterator_first_object ::
  "nodes_fetch \<Rightarrow> rdfstore_iterator option
    \<Rightarrow> memory_fault + (RDF_Node option \<times> rdfstore_iterator option)"
where
  "rdfstore_iterator_first_object = rdfstore_iterator_first_part Part_object"

definition rdfstore_iterator_first_context ::
  "nodes_fetch \<Rightarrow> rdfstore_iterator option
    \<Rightarrow> memory_fault + (RDF_Node option \<times> rdfstore_iterator option)"
where
  "rdfstore_iterator_first_context = rdfstore_iterator_first_part Part_context"

definition rdfstore_iterator_each_subject ::
  "nodes_fetch \<Rightarrow> rdfstore_iterator option
    \<Rightarrow> memory_fault + (RDF_Node option \<times> rdfstore_iterator option)"
where
  "rdfstore_iterator_each_subject = rdfstore_iterator_each_part Part_subject"

definition rdfstore_iterator_each_predicate ::
  "nodes_fetch \<Rightarrow> rdfstore_iterator option
    \<Rightarrow> memory_fault + (RDF_Node option \<times> rdfstore_iterator option)"
where
  "rdfstore_iterator_each_predicate = rdfstore_iterator_each_part Part_predicate"

definition rdfstore_iterator_each_object ::
  "nodes_fetch \<Rightarrow> rdfstore_iterator option
    \<Rightarrow> memory_fault + (RDF_Node option \<times> rdfstore_iterator option)"
where
  "rdfstore_iterator_each_object = rdfstore_iterator_each_part Part_object"

definition rdfstore_iterator_each_context ::
  "nodes_fetch \<Rightarrow> rdfstore_iterator option
    \<Rightarrow> memory_fault + (RDF_Node option \<times> rdfstore_iterator option)"
where
  "rdfstore_iterator_each_context = rdfstore_iterator_each_part Part_context"

section \<open>Changing and querying the set\<close>

text \<open>\<open>me->size--\<close> on an \<open>unsigned int\<close>\<close>

definition dec_size :: "nat \<Rightarrow> nat" where
  "dec_size n = (if n = 0 then 2 ^ 32 - 1 else n - 1)"

definition rdfstore_iterator_remove :: "rdfstore_iterator \<Rightarrow> bits_exit + (bool \<times> rdfstore_iterator)" where
  "rdfstore_iterator_remove me =
     bindE (rdfstore_bits_setmask (ids_size me) (ids me) (pos me) 1 0 MAXRECORDS_BYTES_SIZE)
       (\<lambda>(sz, bits, change).
         let me = me\<lparr>ids_size := sz, ids := bits\<rparr> in
         if change = 0 then Inr (False, me)
         else Inr (True, me\<lparr>it_size := dec_size (it_size me),
                            ids_size := rdfstore_bits_shorten sz bits\<rparr>))"

text \<open>
  \<open>hc\<close> is the digest of a statement in a context, \<open>statements\<close> the fetch from the table
  that maps packed digests to packed identifiers (\<open>Inl\<close> its error code). Besides the answer
  the statement comes back with its digest cached.
\<close>

definition rdfstore_iterator_contains ::
  "(RDF_Statement \<Rightarrow> resource option \<Rightarrow> u32) \<Rightarrow> (flat_key \<Rightarrow> flat_error + flat_data)
    \<Rightarrow> rdfstore_iterator \<Rightarrow> RDF_Statement option \<Rightarrow> resource option \<Rightarrow> int \<times> RDF_Statement option"
where
  "rdfstore_iterator_contains hash statements me statement given_context =
     (case statement of None \<Rightarrow> (-1, None)
      | Some st \<Rightarrow>
          let ctx = (case given_context of None \<Rightarrow> st_context st | Some c \<Rightarrow> Some c);
              hc = hash st ctx;
              st' = (if given_context = None then st\<lparr>hashcode := hc\<rparr> else st)
          in (case statements (packInt hc) of
                Inl err \<Rightarrow> if err \<noteq> FLAT_STORE_E_NOTFOUND then -1 else 0
              | Inr d \<Rightarrow>
                  let st_id = unat (unpackInt d);
                      (found, p) = rdfstore_bits_isanyset (ids_size me) (ids me) st_id 1
                  in if found \<noteq> 0 \<and> p = st_id then 1 else 0,
              Some st'))"

definition rdfstore_iterator_size :: "rdfstore_iterator option \<Rightarrow> u32" where
  "rdfstore_iterator_size me = (case me of None \<Rightarrow> - 1 | Some it \<Rightarrow> of_nat (it_size it))"

text \<open>\<open>while ( (pos = rdfstore_bits_getfirstsetafter(...)) < 8*ids_size ) { pos++; size++; }\<close>\<close>

function count_loop :: "nat \<Rightarrow> mem \<Rightarrow> nat \<Rightarrow> nat \<Rightarrow> nat" where
  "count_loop sz m p n =
     (let q = rdfstore_bits_getfirstsetafter sz m p in
      if q < 8 * sz then count_loop sz m (q + 1) (n + 1) else n)"
  by pat_completeness auto
termination
  by (relation "measure (\<lambda>(sz, m, p, n). 8 * sz - p)")
    (simp_all, metis diff_less_mono2 getfirstsetafter_found(2) le_imp_less_Suc order_le_less_trans)

declare count_loop.simps [simp del]

section \<open>Set operations\<close>

definition set_result :: "nat \<Rightarrow> nat \<times> mem \<Rightarrow> rdfstore_iterator" where
  "set_result st r =
     (let (len, bits) = r; len' = rdfstore_bits_shorten len bits
      in \<lparr> it_store = st, it_size = count_loop len' bits 0 0, ids = bits, ids_size = len',
           remove_holes = 0, st_counter = 0, pos = 0 \<rparr>)"

text \<open>\<open>intersect\<close>, \<open>unite\<close>, \<open>subtract\<close> and \<open>exor\<close> up to the operation on the vectors\<close>

definition set_operation ::
  "(nat \<Rightarrow> mem \<Rightarrow> nat \<Rightarrow> mem \<Rightarrow> nat \<times> mem) \<Rightarrow> attachments
    \<Rightarrow> rdfstore_iterator option \<Rightarrow> rdfstore_iterator option \<Rightarrow> rdfstore_iterator option \<times> attachments"
where
  "set_operation f att me you =
     (case me of None \<Rightarrow> (None, att)
      | Some a \<Rightarrow> (case you of None \<Rightarrow> (None, att)
         | Some b \<Rightarrow>
             if it_store a \<noteq> it_store b then (None, att)
             else (Some (set_result (it_store a) (f (ids_size a) (ids a) (ids_size b) (ids b))),
                   attach (it_store a) att)))"

definition rdfstore_iterator_intersect where
  "rdfstore_iterator_intersect buf =
     set_operation (\<lambda>la ba lb bb. rdfstore_bits_and la ba lb bb buf)"

definition rdfstore_iterator_unite where
  "rdfstore_iterator_unite buf =
     set_operation (\<lambda>la ba lb bb. rdfstore_bits_or la ba lb bb buf)"

text \<open>\<open>A & (~B)\<close>, with the complement in a local buffer of unknown contents \<open>nbuf\<close>\<close>

definition rdfstore_iterator_subtract where
  "rdfstore_iterator_subtract nbuf buf =
     set_operation (\<lambda>la ba lb bb.
       rdfstore_bits_and la ba lb (\<lambda>i. if i < lb then NOT (bb i) else nbuf i) buf)"

definition rdfstore_iterator_exor where
  "rdfstore_iterator_exor buf =
     set_operation (\<lambda>la ba lb bb. rdfstore_bits_exor la ba lb bb buf)"

definition rdfstore_iterator_duplicate ::
  "mem \<Rightarrow> attachments \<Rightarrow> rdfstore_iterator \<Rightarrow> rdfstore_iterator \<times> attachments"
where
  "rdfstore_iterator_duplicate buf att me =
     (\<lparr> it_store = it_store me, it_size = it_size me,
        ids = (\<lambda>i. if i < ids_size me then ids me i else buf i), ids_size = ids_size me,
        remove_holes = remove_holes me, st_counter = st_counter me, pos = pos me \<rparr>,
      attach (it_store me) att)"

section \<open>All the statements of a store\<close>

text \<open>
  The \<open>do ... while\<close> loop of \<open>rdfstore_elements\<close> over the flat store \<open>B\<close> of the statements. It
  goes on as long as \<open>next\<close> succeeds; \<open>None\<close> is a loop that does not end.
\<close>

partial_function (option) elements_loop ::
  "'s backend \<Rightarrow> 's \<Rightarrow> flat_key \<Rightarrow> rdfstore_iterator \<Rightarrow> ('s \<times> (bits_exit + rdfstore_iterator option)) option"
where
  "elements_loop B s key cursor =
     (case be_fetch B s key of
        (s, Inl err) \<Rightarrow> Some (s, Inr None)
      | (s, Inr d) \<Rightarrow>
          (case rdfstore_bits_setmask (ids_size cursor) (ids cursor) (unat (unpackInt d)) 1 1
                  MAXRECORDS_BYTES_SIZE of
             Inl e \<Rightarrow> Some (s, Inl e)
           | Inr (sz, bits, change) \<Rightarrow>
               let cursor = cursor\<lparr>ids_size := sz, ids := bits, it_size := it_size cursor + 1\<rparr> in
               (case be_next B s key of
                  (s, Inl err) \<Rightarrow> Some (s, Inr (Some cursor))
                | (s, Inr key') \<Rightarrow> elements_loop B s key' cursor)))"

text \<open>When a fetch fails the count \<open>attached\<close> stays raised.\<close>

definition rdfstore_elements ::
  "mem \<Rightarrow> 's backend \<Rightarrow> 's \<Rightarrow> nat \<Rightarrow> attachments
    \<Rightarrow> ('s \<times> (bits_exit + rdfstore_iterator option) \<times> attachments) option"
where
  "rdfstore_elements buf B s st att =
     (let att = attach st att;
          cursor = \<lparr> it_store = st, it_size = 0, ids = buf, ids_size = 0, remove_holes = 0,
                     st_counter = 0, pos = 0 \<rparr>
      in case be_first B s of
           (s, Inl err) \<Rightarrow> Some (s, Inr (Some cursor), att)
         | (s, Inr key) \<Rightarrow> map_option (\<lambda>(s, r). (s, r, att)) (elements_loop B s key cursor))"

text \<open>
  \<open>rdfstore_iterator_complement\<close>; \<open>elements\<close> is what \<open>rdfstore_elements\<close> returns for the store
  of the iterator. Both temporary iterators are closed again.
\<close>

definition rdfstore_iterator_complement ::
  "mem \<Rightarrow> mem \<Rightarrow> rdfstore_iterator option \<Rightarrow> attachments \<Rightarrow> rdfstore_iterator option
    \<Rightarrow> rdfstore_iterator option \<times> attachments"
where
  "rdfstore_iterator_complement buf buf2 elements att me =
     (case me of None \<Rightarrow> (None, att)
      | Some it \<Rightarrow>
          let results = set_result (it_store it) (rdfstore_bits_not (ids_size it) (ids it) buf);
              att = attach (it_store it) (attach (it_store it) att)
          in case elements of
               None \<Rightarrow> (None, detach (it_store it) att)
             | Some results1 \<Rightarrow>
                 let (results2, att) =
                       rdfstore_iterator_intersect buf2 att (Some results) (Some results1)
                 in (results2, detach (it_store it) (detach (it_store it) att)))"

section \<open>Abstraction and invariant\<close>

definition ids_of :: "rdfstore_iterator \<Rightarrow> nat set" where
  "ids_of it = bitset (ids_size it) (ids it)"

definition it_wf :: "rdfstore_iterator \<Rightarrow> bool" where
  "it_wf it \<longleftrightarrow> it_size it = card (ids_of it) \<and> ids_size it \<le> MAXRECORDS_BYTES_SIZE"

text \<open>The identifiers from a position on.\<close>

definition ids_from :: "nat \<Rightarrow> rdfstore_iterator \<Rightarrow> nat set" where
  "ids_from p it = {n \<in> ids_of it. p \<le> n}"

lemma finite_ids [simp]: "finite (ids_of it)" "finite (ids_from p it)"
  by (simp_all add: ids_of_def ids_from_def)

lemma ids_from_0 [simp]: "ids_from 0 it = ids_of it"
  by (simp add: ids_from_def)

lemma ids_of_update [simp]:
  "ids_of (it\<lparr>pos := p\<rparr>) = ids_of it" "ids_of (it\<lparr>st_counter := c\<rparr>) = ids_of it"
  "ids_of (it\<lparr>it_size := n\<rparr>) = ids_of it"
  by (simp_all add: ids_of_def)

lemma ids_from_update [simp]:
  "ids_from q (it\<lparr>pos := p\<rparr>) = ids_from q it" "ids_from q (it\<lparr>st_counter := c\<rparr>) = ids_from q it"
  by (simp_all add: ids_from_def)

lemma seek_simps [simp]:
  "ids_of (seek it) = ids_of it" "ids_from q (seek it) = ids_from q it" "it_size (seek it) = it_size it"
  "st_counter (seek it) = st_counter it" "ids_size (seek it) = ids_size it" "ids (seek it) = ids it"
  by (simp_all add: seek_def)

lemma at_end_seek: "at_end (seek it) \<longleftrightarrow> ids_from (pos it) it = {}"
  using getfirstsetafter_less_iff [of "ids_size it" "ids it" "pos it"]
  by (auto simp: at_end_def seek_def ids_from_def ids_of_def not_le [symmetric])

lemma seek_found:
  assumes "ids_from (pos it) it \<noteq> {}"
  shows "pos (seek it) \<in> ids_of it" and "pos it \<le> pos (seek it)"
    and "ids_from (pos it) it = insert (pos (seek it)) (ids_from (Suc (pos (seek it))) it)"
proof -
  let ?q = "rdfstore_bits_getfirstsetafter (ids_size it) (ids it) (pos it)"
  have "?q < 8 * ids_size it" using assms at_end_seek [of it] by (simp add: at_end_def seek_def)
  note f = getfirstsetafter_found [OF this]
  show "pos (seek it) \<in> ids_of it" "pos it \<le> pos (seek it)"
    using f(1,2) by (simp_all add: seek_def ids_of_def)
  show "ids_from (pos it) it = insert (pos (seek it)) (ids_from (Suc (pos (seek it))) it)"
    using f by (fastforce simp: seek_def ids_of_def ids_from_def Suc_le_eq le_less)
qed

lemma sorted_ids_from:
  assumes "ids_from (pos it) it \<noteq> {}"
  shows "sorted_list_of_set (ids_from (pos it) it)
    = pos (seek it) # sorted_list_of_set (ids_from (Suc (pos (seek it))) it)"
proof -
  let ?q = "pos (seek it)"
  have ins: "ids_from (pos it) it = insert ?q (ids_from (Suc ?q) it)"
    using seek_found(3) [OF assms] .
  have "Min (ids_from (pos it) it) = ?q"
    unfolding ins by (rule Min_eqI) (auto simp: ids_from_def)
  moreover have "ids_from (pos it) it - {?q} = ids_from (Suc ?q) it"
    unfolding ins by (auto simp: ids_from_def)
  ultimately show ?thesis
    using sorted_list_of_set_nonempty [OF finite_ids(2) assms] by simp
qed

lemma count_loop_card:
  "count_loop sz m p n = n + card {k \<in> bitset sz m. p \<le> k}"
proof (induction sz m p n rule: count_loop.induct)
  case (1 sz m p n)
  define it where "it = \<lparr> it_store = 0, it_size = 0, ids = m, ids_size = sz, remove_holes = 0,
    st_counter = 0, pos = p \<rparr>"
  let ?q = "rdfstore_bits_getfirstsetafter sz m p"
  have S: "ids_from r it = {k \<in> bitset sz m. r \<le> k}" for r by (simp add: it_def ids_from_def ids_of_def)
  have q: "pos (seek it) = ?q" "pos it = p" by (simp_all add: it_def seek_def)
  show ?case
  proof (cases "?q < 8 * sz")
    case True
    then have ne: "ids_from (pos it) it \<noteq> {}"
      using at_end_seek [of it] by (simp add: at_end_def seek_def it_def)
    have "?q \<notin> ids_from (Suc ?q) it" by (simp add: ids_from_def)
    with seek_found(3) [OF ne] have "card (ids_from p it) = Suc (card (ids_from (Suc ?q) it))"
      by (simp add: q)
    with 1 [OF refl True] True show ?thesis
      by (subst count_loop.simps) (simp add: Let_def S)
  next
    case False
    then have "ids_from (pos it) it = {}"
      using at_end_seek [of it] by (simp add: at_end_def seek_def it_def)
    with False show ?thesis by (subst count_loop.simps) (simp add: Let_def S q)
  qed
qed

section \<open>Set operations\<close>

lemma set_result_spec:
  "ids_of (set_result st (len, bits)) = bitset len bits"
  "it_size (set_result st (len, bits)) = card (bitset len bits)"
  "ids_size (set_result st (len, bits)) \<le> len"
  "it_store (set_result st (len, bits)) = st"
  "pos (set_result st (len, bits)) = 0" "st_counter (set_result st (len, bits)) = 0"
  by (simp_all add: set_result_def ids_of_def bits_shorten_bitset count_loop_card bits_shorten_le Let_def)

text \<open>A fresh iterator over a set.\<close>

definition fresh_over :: "nat \<Rightarrow> nat set \<Rightarrow> rdfstore_iterator \<Rightarrow> bool" where
  "fresh_over st S it \<longleftrightarrow> it_store it = st \<and> ids_of it = S \<and> it_wf it \<and> pos it = 0 \<and> st_counter it = 0"

lemma set_result_fresh:
  "bitset (fst r) (snd r) = S \<Longrightarrow> fst r \<le> MAXRECORDS_BYTES_SIZE \<Longrightarrow> fresh_over st S (set_result st r)"
  using set_result_spec [of st "fst r" "snd r"] by (simp add: fresh_over_def it_wf_def)

lemma set_operation_eq:
  "set_operation f att (Some a) (Some b) =
     (if it_store a = it_store b
      then (Some (set_result (it_store a) (f (ids_size a) (ids a) (ids_size b) (ids b))),
            attach (it_store a) att)
      else (None, att))"
  by (simp add: set_operation_def)

lemma set_operation_fresh:
  assumes "it_store a = it_store b"
    and "bitset (fst (f (ids_size a) (ids a) (ids_size b) (ids b)))
               (snd (f (ids_size a) (ids a) (ids_size b) (ids b))) = S"
    and "fst (f (ids_size a) (ids a) (ids_size b) (ids b)) \<le> MAXRECORDS_BYTES_SIZE"
  shows "\<exists>r. set_operation f att (Some a) (Some b) = (Some r, attach (it_store a) att)
    \<and> fresh_over (it_store a) S r"
  using assms set_result_fresh by (simp add: set_operation_eq)

lemma intersect_fresh:
  assumes "it_wf a" "it_store a = it_store b"
  shows "\<exists>r. rdfstore_iterator_intersect buf att (Some a) (Some b) = (Some r, attach (it_store a) att)
    \<and> fresh_over (it_store a) (ids_of a \<inter> ids_of b) r"
proof -
  obtain len bits where r: "rdfstore_bits_and (ids_size a) (ids a) (ids_size b) (ids b) buf = (len, bits)"
    by fastforce
  from bits_and_spec [OF r] assms show ?thesis
    unfolding rdfstore_iterator_intersect_def ids_of_def
    by (intro set_operation_fresh) (simp_all add: r it_wf_def)
qed

text \<open>C17. On two iterators of one store intersect, unite and exor give a well-formed fresh
  iterator over the intersection, the union and (as its comment says) the difference of
  the two sets of identifiers, and attach it to the store.\<close>

theorem set_operations_sound:
  assumes "it_wf a" "it_wf b" "it_store a = it_store b"
  shows "(\<exists>r. rdfstore_iterator_intersect buf att (Some a) (Some b) = (Some r, attach (it_store a) att)
            \<and> fresh_over (it_store a) (ids_of a \<inter> ids_of b) r)
       \<and> (\<exists>r. rdfstore_iterator_unite buf att (Some a) (Some b) = (Some r, attach (it_store a) att)
            \<and> fresh_over (it_store a) (ids_of a \<union> ids_of b) r)
       \<and> (\<exists>r. rdfstore_iterator_exor buf att (Some a) (Some b) = (Some r, attach (it_store a) att)
            \<and> fresh_over (it_store a) (ids_of a - ids_of b) r)"
proof (intro conjI)
  show "\<exists>r. rdfstore_iterator_intersect buf att (Some a) (Some b) = (Some r, attach (it_store a) att)
            \<and> fresh_over (it_store a) (ids_of a \<inter> ids_of b) r"
    using assms(1,3) by (rule intersect_fresh)
  obtain len bits where r: "rdfstore_bits_or (ids_size a) (ids a) (ids_size b) (ids b) buf = (len, bits)"
    by fastforce
  from bits_or_spec [OF r] assms show "\<exists>r. rdfstore_iterator_unite buf att (Some a) (Some b) = (Some r, attach (it_store a) att)
            \<and> fresh_over (it_store a) (ids_of a \<union> ids_of b) r"
    unfolding rdfstore_iterator_unite_def ids_of_def
    by (intro set_operation_fresh) (simp_all add: r it_wf_def max_def split: if_splits)
  obtain len bits where r: "rdfstore_bits_exor (ids_size a) (ids a) (ids_size b) (ids b) buf = (len, bits)"
    by fastforce
  from bits_exor_spec [OF r] assms show "\<exists>r. rdfstore_iterator_exor buf att (Some a) (Some b) = (Some r, attach (it_store a) att)
            \<and> fresh_over (it_store a) (ids_of a - ids_of b) r"
    unfolding rdfstore_iterator_exor_def ids_of_def
    by (intro set_operation_fresh) (simp_all add: r it_wf_def max_def split: if_splits)
qed

lemma bitset_masked_not:
  "bitset lb (\<lambda>i. if i < lb then NOT (bb i) else nb i) = {..<8 * lb} - bitset lb bb"
  by (auto simp: bitset_def membit_def div8_less bit_not_iff)

text \<open>
  \<open>subtract\<close> loses every identifier of \<open>A\<close> past the last byte of \<open>B\<close>: the complement it
  intersects with ends where \<open>B\<close> ends.
\<close>

theorem subtract_truncates:
  assumes "it_wf a" "it_store a = it_store b"
  shows "\<exists>r. rdfstore_iterator_subtract nbuf buf att (Some a) (Some b) = (Some r, attach (it_store a) att)
    \<and> fresh_over (it_store a) ((ids_of a - ids_of b) \<inter> {..<8 * ids_size b}) r"
proof -
  let ?nb = "\<lambda>i. if i < ids_size b then NOT (ids b i) else nbuf i"
  obtain len bits where r: "rdfstore_bits_and (ids_size a) (ids a) (ids_size b) ?nb buf = (len, bits)"
    by fastforce
  have "ids_of a \<inter> ({..<8 * ids_size b} - ids_of b) = (ids_of a - ids_of b) \<inter> {..<8 * ids_size b}"
    by auto
  with bits_and_spec [OF r] assms show ?thesis
    unfolding rdfstore_iterator_subtract_def ids_of_def bitset_masked_not
    by (intro set_operation_fresh) (simp_all add: r it_wf_def)
qed

theorem complement_truncates:
  assumes "it_wf it" "it_wf els" "it_store els = it_store it"
  shows "\<exists>r. rdfstore_iterator_complement buf buf2 (Some els) att (Some it) = (Some r, attach (it_store it) att)
    \<and> fresh_over (it_store it) ((ids_of els - ids_of it) \<inter> {..<8 * ids_size it}) r"
proof -
  obtain len bits where r: "rdfstore_bits_not (ids_size it) (ids it) buf = (len, bits)" by fastforce
  note spec = bits_not_spec [OF r]
  let ?n = "set_result (it_store it) (len, bits)"
  have n: "fresh_over (it_store it) ({..<8 * ids_size it} - ids_of it) ?n"
    using spec assms(1) unfolding ids_of_def by (intro set_result_fresh) (simp_all add: it_wf_def)
  then have wf: "it_wf ?n" "it_store ?n = it_store it" "ids_of ?n = {..<8 * ids_size it} - ids_of it"
    by (simp_all add: fresh_over_def)
  have set_eq: "ids_of ?n \<inter> ids_of els = (ids_of els - ids_of it) \<inter> {..<8 * ids_size it}"
    unfolding wf(3) by auto
  from intersect_fresh [OF wf(1), of els buf2 "attach (it_store it) (attach (it_store it) att)"] assms(3) wf(2)
  obtain r where "rdfstore_iterator_intersect buf2 (attach (it_store it) (attach (it_store it) att)) (Some ?n) (Some els)
      = (Some r, attach (it_store it) (attach (it_store it) (attach (it_store it) att)))"
    and "fresh_over (it_store it) ((ids_of els - ids_of it) \<inter> {..<8 * ids_size it}) r"
    unfolding set_eq by auto
  then show ?thesis
    unfolding rdfstore_iterator_complement_def
    by (simp add: r Let_def attach_def detach_def add.commute)
qed

section \<open>Walks\<close>

text \<open>\<open>n\<close> calls of an operation that returns a value and moves the iterator.\<close>

fun calls :: "nat \<Rightarrow> (rdfstore_iterator option \<Rightarrow> memory_fault + ('r \<times> rdfstore_iterator option))
    \<Rightarrow> rdfstore_iterator option \<Rightarrow> memory_fault + ('r list \<times> rdfstore_iterator option)" where
  "calls 0 f me = Inr ([], me)"
| "calls (Suc n) f me =
     bindE (f me) (\<lambda>(r, me). bindE (calls n f me) (\<lambda>(rs, me). Inr (r # rs, me)))"

text \<open>The statements \<open>st i\<close> are in the nodes table under the identifiers of a set.\<close>

definition stored_at :: "nodes_fetch \<Rightarrow> (nat \<Rightarrow> RDF_Statement) \<Rightarrow> nat set \<Rightarrow> bool" where
  "stored_at nodes st S \<longleftrightarrow>
     (\<forall>i\<in>S. \<exists>d. nodes (packInt (of_nat i)) = Inr d \<and> fetch_record_parts d = Inr (st i))"

lemma it_fetch_stored:
  "stored_at nodes st (ids_of it) \<Longrightarrow> pos it \<in> ids_of it \<Longrightarrow> 0 < it_size it \<Longrightarrow>
     it_fetch nodes it = Inr (Some (st (pos it)))"
  by (auto simp: stored_at_def it_fetch_def fetch_statement_def)

lemma it_wf_update [simp]:
  "it_wf (it\<lparr>pos := p\<rparr>) = it_wf it" "it_wf (it\<lparr>st_counter := c\<rparr>) = it_wf it"
  "it_wf (seek it) = it_wf it"
  by (simp_all add: it_wf_def seek_def ids_of_def)

lemma it_wf_pos: "it_wf it \<Longrightarrow> n \<in> ids_of it \<Longrightarrow> 0 < it_size it"
  by (auto simp: it_wf_def card_gt_0_iff)

lemma ids_from_subset: "n \<in> ids_from p it \<Longrightarrow> n \<in> ids_of it"
  by (simp add: ids_from_def)

lemma card_ids_from:
  assumes "ids_from (pos it) it \<noteq> {}"
  shows "card (ids_from (pos it) it) = Suc (card (ids_from (Suc (pos (seek it))) it))"
  using arg_cong [OF sorted_ids_from [OF assms], of length] by simp

subsection \<open>each\<close>

lemma each_step:
  assumes "it_wf it" "stored_at nodes st (ids_of it)" "ids_from (pos it) it \<noteq> {}"
    and "st_counter it < it_size it"
  shows "rdfstore_iterator_each nodes (Some it) = Inr (Some (st (pos (seek it))),
    Some ((seek it)\<lparr>st_counter := st_counter it + 1, pos := pos (seek it) + 1\<rparr>))"
proof -
  have "it_fetch nodes (seek it) = Inr (Some (st (pos (seek it))))"
    using seek_found(1) [OF assms(3)] assms it_wf_pos by (intro it_fetch_stored) auto
  with assms show ?thesis
    by (simp add: rdfstore_iterator_each_def rdfstore_iterator_hasnext_def at_end_seek Let_def)
qed

lemma each_calls:
  assumes "it_wf it" "stored_at nodes st (ids_of it)"
    and "it_size it = st_counter it + card (ids_from (pos it) it)"
  shows "calls (Suc (card (ids_from (pos it) it))) (rdfstore_iterator_each nodes) (Some it)
    = Inr (map (Some \<circ> st) (sorted_list_of_set (ids_from (pos it) it)) @ [None], Some (rewind it))"
  using assms
proof (induction "card (ids_from (pos it) it)" arbitrary: it)
  case 0
  then show ?case
    by (simp add: rdfstore_iterator_each_def rdfstore_iterator_hasnext_def card_eq_0_iff)
next
  case (Suc n)
  then have ne: "ids_from (pos it) it \<noteq> {}" by auto
  let ?it = "(seek it)\<lparr>st_counter := st_counter it + 1, pos := pos (seek it) + 1\<rparr>"
  have card: "n = card (ids_from (pos ?it) ?it)" using card_ids_from [OF ne] Suc.hyps(2) by simp
  have "calls (Suc (card (ids_from (pos ?it) ?it))) (rdfstore_iterator_each nodes) (Some ?it)
    = Inr (map (Some \<circ> st) (sorted_list_of_set (ids_from (pos ?it) ?it)) @ [None], Some (rewind ?it))"
    using Suc.prems Suc.hyps(2) card by (intro Suc.hyps(1)) simp_all
  moreover have "rewind ?it = rewind it" by (simp add: rewind_def seek_def)
  ultimately show ?case
    using each_step [OF Suc.prems(1,2) ne] Suc.prems(3) Suc.hyps(2) card sorted_ids_from [OF ne]
    by (subst Suc.hyps(2) [symmetric]) (simp add: card_ids_from [OF ne])
qed

text \<open>C19. Calling rdfstore_iterator_each size+1 times from a rewound iterator gives the
  statements of its identifiers, each once and in increasing order of identifier, then
  null once, and leaves the iterator rewound as it was.\<close>

theorem each_enumerates:
  assumes "it_wf it" "stored_at nodes st (ids_of it)" "pos it = 0" "st_counter it = 0"
  shows "calls (it_size it + 1) (rdfstore_iterator_each nodes) (Some it)
    = Inr (map (Some \<circ> st) (sorted_list_of_set (ids_of it)) @ [None], Some it)"
proof -
  have "rewind it = it" using assms(3,4) by (cases it) (simp add: rewind_def)
  then show ?thesis
    using each_calls [OF assms(1,2)] assms by (simp add: it_wf_def)
qed

subsection \<open>first, hasnext, next\<close>

lemma next_step:
  assumes "it_wf it" "stored_at nodes st (ids_of it)"
  defines "it' \<equiv> seek (it\<lparr>st_counter := st_counter it + 1, pos := pos it + 1\<rparr>)"
  shows "rdfstore_iterator_next nodes (Some it) =
    Inr (if ids_from (Suc (pos it)) it = {} then None else Some (st (pos it')), Some it')"
proof -
  have e: "at_end it' \<longleftrightarrow> ids_from (Suc (pos it)) it = {}"
    unfolding it'_def at_end_seek by simp
  have "it_fetch nodes it' = Inr (Some (st (pos it')))" if "ids_from (Suc (pos it)) it \<noteq> {}"
  proof (rule it_fetch_stored)
    show m: "pos it' \<in> ids_of it'"
      using that seek_found(1) [of "it\<lparr>st_counter := st_counter it + 1, pos := pos it + 1\<rparr>"]
      by (simp add: it'_def)
    show "0 < it_size it'" using it_wf_pos [OF _ m] assms(1) by (simp add: it'_def)
    show "stored_at nodes st (ids_of it')" using assms(2) by (simp add: it'_def)
  qed
  moreover have "rdfstore_iterator_next nodes (Some it) =
      (if at_end it' then Inr (None, Some it') else bindE (it_fetch nodes it') (\<lambda>s. Inr (s, Some it')))"
    by (simp add: rdfstore_iterator_next_def it'_def Let_def)
  ultimately show ?thesis using e by simp
qed

lemma next_calls:
  assumes "it_wf it" "stored_at nodes st (ids_of it)"
    and "n \<le> Suc (card (ids_from (Suc (pos it)) it))"
  shows "\<exists>it'. calls n (rdfstore_iterator_next nodes) (Some it)
      = Inr (take n (map (Some \<circ> st) (sorted_list_of_set (ids_from (Suc (pos it)) it)) @ [None]), Some it')
    \<and> st_counter it' = st_counter it + n \<and> it_size it' = it_size it"
  using assms
proof (induction n arbitrary: it)
  case 0
  then show ?case by simp
next
  case (Suc n)
  let ?i = "it\<lparr>st_counter := st_counter it + 1, pos := pos it + 1\<rparr>"
  let ?it = "seek ?i"
  have st: "stored_at nodes st (ids_of ?it)" "it_wf ?it" using Suc.prems by simp_all
  show ?case
  proof (cases "ids_from (Suc (pos it)) it = {}")
    case True
    with Suc.prems show ?thesis by (simp add: next_step)
  next
    case False
    then have ne: "ids_from (pos ?i) ?i \<noteq> {}" by simp
    have "n \<le> Suc (card (ids_from (Suc (pos ?it)) ?it))"
      using Suc.prems(3) card_ids_from [OF ne] by simp
    from Suc.IH [OF st(2,1) this] obtain it' where
      "calls n (rdfstore_iterator_next nodes) (Some ?it)
      = Inr (take n (map (Some \<circ> st) (sorted_list_of_set (ids_from (Suc (pos ?it)) ?it)) @ [None]), Some it')"
      "st_counter it' = st_counter ?it + n" "it_size it' = it_size ?it" by blast
    moreover have "sorted_list_of_set (ids_from (Suc (pos it)) it)
        = pos ?it # sorted_list_of_set (ids_from (Suc (pos ?it)) ?it)"
      using sorted_ids_from [OF ne] by simp
    ultimately show ?thesis using next_step [OF Suc.prems(1,2)] False by (simp add: comp_def)
  qed
qed

lemma first_step:
  assumes "it_wf it" "stored_at nodes st (ids_of it)"
  defines "it' \<equiv> seek (rewind it)"
  shows "rdfstore_iterator_first nodes (Some it) =
    Inr (if ids_of it = {} then None else Some (st (pos it')), Some it')"
proof -
  have ids: "ids_of (rewind it) = ids_of it" "it_wf (rewind it) = it_wf it" "pos (rewind it) = 0"
    by (simp_all add: rewind_def)
  have e: "at_end it' \<longleftrightarrow> ids_of it = {}"
    unfolding it'_def at_end_seek ids(3) by (simp add: ids)
  have "it_fetch nodes it' = Inr (Some (st (pos it')))" if "ids_of it \<noteq> {}"
  proof (rule it_fetch_stored)
    show "pos it' \<in> ids_of it'" unfolding it'_def using that seek_found(1) [of "rewind it"] by (simp add: ids)
    then show "0 < it_size it'" unfolding it'_def using it_wf_pos assms(1) by (metis ids(2) it_wf_update(3))
    show "stored_at nodes st (ids_of it')" unfolding it'_def using assms(2) by (simp add: ids)
  qed
  with e show ?thesis
    by (simp add: rdfstore_iterator_first_def it'_def [symmetric] Let_def)
qed

text \<open>\<open>s = first\<close> and \<open>n\<close> times \<open>s = next\<close>\<close>

definition first_then_next :: "nat \<Rightarrow> nodes_fetch \<Rightarrow> rdfstore_iterator option
    \<Rightarrow> memory_fault + (RDF_Statement option list \<times> rdfstore_iterator option)" where
  "first_then_next n nodes me =
     bindE (rdfstore_iterator_first nodes me) (\<lambda>(s, me).
     bindE (calls n (rdfstore_iterator_next nodes) me) (\<lambda>(ss, me). Inr (s # ss, me)))"

theorem first_next_enumerates:
  assumes "it_wf it" "stored_at nodes st (ids_of it)" "n \<le> it_size it"
  shows "\<exists>it'. first_then_next n nodes (Some it)
      = Inr (take (n + 1) (map (Some \<circ> st) (sorted_list_of_set (ids_of it)) @ [None]), it')
    \<and> rdfstore_iterator_hasnext it' = (n < it_size it)"
proof -
  let ?i = "seek (rewind it)"
  have ids: "ids_of (rewind it) = ids_of it" "it_wf (rewind it) = it_wf it" "pos (rewind it) = 0"
     "it_size (rewind it) = it_size it" "st_counter (rewind it) = 0"
    by (simp_all add: rewind_def)
  have wf: "it_wf ?i" "stored_at nodes st (ids_of ?i)" using assms by (simp_all add: ids)
  show ?thesis
  proof (cases "ids_of it = {}")
    case True
    then have "it_size it = 0" using assms(1) by (simp add: it_wf_def)
    with assms True show ?thesis
      by (simp add: first_then_next_def first_step rdfstore_iterator_hasnext_def ids)
  next
    case False
    then have ne: "ids_from (pos (rewind it)) (rewind it) \<noteq> {}" by (simp add: ids)
    have c: "it_size it = Suc (card (ids_from (Suc (pos ?i)) ?i))"
      using card_ids_from [OF ne] assms(1) by (simp add: ids it_wf_def)
    have srt: "sorted_list_of_set (ids_of it) = pos ?i # sorted_list_of_set (ids_from (Suc (pos ?i)) ?i)"
      using sorted_ids_from [OF ne] by (simp add: ids)
    from next_calls [OF wf, of n] c assms(3) obtain it' where
      "calls n (rdfstore_iterator_next nodes) (Some ?i)
      = Inr (take n (map (Some \<circ> st) (sorted_list_of_set (ids_from (Suc (pos ?i)) ?i)) @ [None]), Some it')"
      "st_counter it' = n" "it_size it' = it_size it" by (auto simp: ids)
    then show ?thesis
      unfolding first_then_next_def first_step [OF assms(1,2)] srt using False
      by (simp add: rdfstore_iterator_hasnext_def)
  qed
qed

subsection \<open>each_subject and its kin\<close>

lemma each_part_step:
  assumes "it_wf it" "stored_at nodes st (ids_of it)" "ids_from (pos it) it \<noteq> {}"
    and "st_counter it < it_size it"
  shows "rdfstore_iterator_each_part w nodes (Some it) =
    Inr (case part_of w (st (pos (seek it))) of
       None \<Rightarrow> (None, Some (rewind it))
     | Some r \<Rightarrow> (Some r, Some ((seek it)\<lparr>st_counter := st_counter it + 1, pos := pos (seek it) + 1\<rparr>)))"
proof -
  have "it_fetch nodes (seek it) = Inr (Some (st (pos (seek it))))"
    using seek_found(1) [OF assms(3)] assms it_wf_pos by (intro it_fetch_stored) auto
  moreover have "rewind (seek it) = rewind it" by (simp add: rewind_def seek_def)
  ultimately show ?thesis using assms
    by (simp add: rdfstore_iterator_each_part_def rdfstore_iterator_hasnext_def at_end_seek Let_def
        take_part_def split: option.split)
qed

lemma each_part_calls:
  assumes "it_wf it" "stored_at nodes st (ids_of it)"
    and "it_size it = st_counter it + card (ids_from (pos it) it)"
    and "xs = takeWhile (\<lambda>i. part_of w (st i) \<noteq> None) (sorted_list_of_set (ids_from (pos it) it))"
  shows "calls (Suc (length xs)) (rdfstore_iterator_each_part w nodes) (Some it)
    = Inr (map (\<lambda>i. part_of w (st i)) xs @ [None], Some (rewind it))"
  using assms
proof (induction "card (ids_from (pos it) it)" arbitrary: it xs)
  case 0
  then show ?case
    by (simp add: rdfstore_iterator_each_part_def rdfstore_iterator_hasnext_def card_eq_0_iff)
next
  case (Suc n)
  then have ne: "ids_from (pos it) it \<noteq> {}" by auto
  let ?it = "(seek it)\<lparr>st_counter := st_counter it + 1, pos := pos (seek it) + 1\<rparr>"
  have card: "n = card (ids_from (pos ?it) ?it)" using card_ids_from [OF ne] Suc.hyps(2) by simp
  have rew: "rewind ?it = rewind it" by (simp add: rewind_def seek_def)
  have lt: "st_counter it < it_size it" using Suc.prems(3) Suc.hyps(2) by simp
  note step = each_part_step [OF Suc.prems(1,2) ne lt, of w]
  let ?ys = "takeWhile (\<lambda>i. part_of w (st i) \<noteq> None) (sorted_list_of_set (ids_from (pos ?it) ?it))"
  show ?case
  proof (cases "part_of w (st (pos (seek it)))")
    case None
    with Suc.prems(4) sorted_ids_from [OF ne] have "xs = []" by simp
    then show ?thesis using step None by simp
  next
    case (Some r)
    with Suc.prems(4) sorted_ids_from [OF ne] have xs: "xs = pos (seek it) # ?ys" by simp
    have "calls (Suc (length ?ys)) (rdfstore_iterator_each_part w nodes) (Some ?it)
      = Inr (map (\<lambda>i. part_of w (st i)) ?ys @ [None], Some (rewind ?it))"
      using Suc.prems Suc.hyps(2) card by (intro Suc.hyps(1)) simp_all
    then show ?thesis unfolding xs using step Some rew by simp
  qed
qed

lemma each_part_all:
  assumes "it_wf it" "stored_at nodes st (ids_of it)" "pos it = 0" "st_counter it = 0"
    and "xs = takeWhile (\<lambda>i. part_of w (st i) \<noteq> None) (sorted_list_of_set (ids_of it))"
  shows "calls (length xs + 1) (rdfstore_iterator_each_part w nodes) (Some it)
    = Inr (map (\<lambda>i. part_of w (st i)) xs @ [None], Some it)"
proof -
  have "rewind it = it" using assms(3,4) by (cases it) (simp add: rewind_def)
  then show ?thesis
    using each_part_calls [OF assms(1,2), of xs w] assms by (simp add: it_wf_def)
qed

text \<open>Every statement has a subject, a predicate and an object; the walks over these are complete.\<close>

theorem each_node_enumerates:
  assumes "it_wf it" "stored_at nodes st (ids_of it)" "pos it = 0" "st_counter it = 0"
  shows "calls (it_size it + 1) (rdfstore_iterator_each_subject nodes) (Some it)
      = Inr (map (Some \<circ> Resource \<circ> subject \<circ> st) (sorted_list_of_set (ids_of it)) @ [None], Some it)
    \<and> calls (it_size it + 1) (rdfstore_iterator_each_predicate nodes) (Some it)
      = Inr (map (Some \<circ> Resource \<circ> predicate \<circ> st) (sorted_list_of_set (ids_of it)) @ [None], Some it)
    \<and> calls (it_size it + 1) (rdfstore_iterator_each_object nodes) (Some it)
      = Inr (map (Some \<circ> object \<circ> st) (sorted_list_of_set (ids_of it)) @ [None], Some it)"
proof -
  have all: "takeWhile (\<lambda>i. True) xs = xs" for xs :: "nat list"
    by (simp add: takeWhile_eq_all_conv)
  show ?thesis
    using each_part_all [OF assms refl, of Part_subject] each_part_all [OF assms refl, of Part_predicate]
      each_part_all [OF assms refl, of Part_object] assms(1)
    by (simp add: part_of_def rdfstore_iterator_each_subject_def rdfstore_iterator_each_predicate_def
        rdfstore_iterator_each_object_def it_wf_def comp_def all)
qed

text \<open>The walk over the contexts ends at the first statement without one, and starts again.\<close>

theorem each_context_stops_at_gap:
  assumes "it_wf it" "stored_at nodes st (ids_of it)" "pos it = 0" "st_counter it = 0"
    and "xs = takeWhile (\<lambda>i. st_context (st i) \<noteq> None) (sorted_list_of_set (ids_of it))"
  shows "calls (length xs + 1) (rdfstore_iterator_each_context nodes) (Some it)
    = Inr (map (\<lambda>i. map_option Resource (st_context (st i))) xs @ [None], Some it)"
  using each_part_all [OF assms(1-4), of xs Part_context] assms(5)
  by (simp add: part_of_def rdfstore_iterator_each_context_def)

section \<open>Removing\<close>

lemma remove_spec:
  assumes "it_wf it" "pos it < 8 * ids_size it"
  shows "\<exists>it'. rdfstore_iterator_remove it = Inr (pos it \<in> ids_of it, it')
    \<and> ids_of it' = ids_of it - {pos it} \<and> it_wf it'
    \<and> pos it' = pos it \<and> st_counter it' = st_counter it"
proof -
  have "pos it div 8 < ids_size it" using assms(2) by (simp add: div8_less)
  with assms(1) setmask_one [of "pos it" "ids_size it" MAXRECORDS_BYTES_SIZE "ids it" False]
  obtain sz bits ch where run: "rdfstore_bits_setmask (ids_size it) (ids it) (pos it) 1 0 MAXRECORDS_BYTES_SIZE
      = Inr (sz, bits, ch)"
    and sz: "sz \<le> MAXRECORDS_BYTES_SIZE" and bs: "bitset sz bits = ids_of it - {pos it}"
    and ch: "ch \<noteq> 0 \<longleftrightarrow> pos it \<in> ids_of it" by (auto simp: it_wf_def ids_of_def)
  note le = order_trans [OF bits_shorten_le [of sz bits] sz]
  show ?thesis
  proof (cases "pos it \<in> ids_of it")
    case True
    then have "card (ids_of it) \<noteq> 0" by auto
    then have "dec_size (it_size it) = card (ids_of it - {pos it})"
      using True assms(1) by (simp add: it_wf_def dec_size_def)
    with True run ch bs le show ?thesis
      by (simp add: rdfstore_iterator_remove_def ids_of_def it_wf_def bits_shorten_bitset Let_def)
  next
    case False
    with run ch bs sz assms(1) show ?thesis
      by (simp add: rdfstore_iterator_remove_def ids_of_def it_wf_def Let_def)
  qed
qed

theorem remove_current:
  assumes "it_wf it" "pos it < 8 * ids_size it"
  shows "\<exists>it'. rdfstore_iterator_remove it = Inr (pos it \<in> ids_of it, it')
    \<and> ids_of it' = ids_of it - {pos it} \<and> it_wf it'
    \<and> pos it' = pos it \<and> st_counter it' = st_counter it"
  using assms by (rule remove_spec)

text \<open>
  The loop \<open>for (s = first; hasnext; s = next) remove;\<close> from the state after \<open>first\<close>, with fuel.
\<close>

fun remove_walk :: "nodes_fetch \<Rightarrow> nat \<Rightarrow> rdfstore_iterator \<Rightarrow> rdfstore_iterator option" where
  "remove_walk nodes 0 it = None"
| "remove_walk nodes (Suc f) it =
     (if rdfstore_iterator_hasnext (Some it) then
        case rdfstore_iterator_remove it of
          Inr (True, it1) \<Rightarrow>
            (case rdfstore_iterator_next nodes (Some it1) of
               Inr (s, Some it2) \<Rightarrow> remove_walk nodes f it2
             | _ \<Rightarrow> None)
        | _ \<Rightarrow> None
      else Some it)"

lemma remove_walk_spec:
  assumes "it_wf it" "stored_at nodes st (ids_of it)" "sorted_list_of_set (ids_of it) = L"
    and "L \<noteq> [] \<Longrightarrow> pos it = hd L" and "length L < f"
  shows "\<exists>it'. remove_walk nodes f it = Some it'
    \<and> ids_of it' = set (drop ((length L - st_counter it + 1) div 2) L)"
  using assms
proof (induction L arbitrary: it f)
  case Nil
  then have "it_size it = 0" "ids_of it = {}" by (simp_all add: it_wf_def)
  with Nil.prems(5) show ?case by (cases f) (simp_all add: rdfstore_iterator_hasnext_def)
next
  case (Cons x L)
  obtain g where f: "f = Suc g" "length L < g" using Cons.prems(5) by (cases f) auto
  have ids: "ids_of it = insert x (set L)" "distinct (x # L)" "sorted (x # L)"
    using Cons.prems(3) by (metis finite_ids(1) list.simps(15) set_sorted_list_of_set)
      (use Cons.prems(3) in \<open>metis distinct_sorted_list_of_set sorted_sorted_list_of_set\<close>)+
  have size: "it_size it = Suc (length L)"
    using Cons.prems(1) ids by (simp add: it_wf_def distinct_card)
  show ?case
  proof (cases "st_counter it < it_size it")
    case False
    then show ?thesis using ids size by (simp add: f rdfstore_iterator_hasnext_def)
  next
    case True
    have pos: "pos it = x" "pos it \<in> ids_of it" using Cons.prems(4) ids by simp_all
    then have "pos it < 8 * ids_size it" by (simp add: ids_of_def mem_bitset)
    from remove_spec [OF Cons.prems(1) this] pos obtain it1 where
      rem: "rdfstore_iterator_remove it = Inr (True, it1)" and it1: "ids_of it1 = ids_of it - {x}" "it_wf it1"
        "pos it1 = x" "st_counter it1 = st_counter it" by auto
    have L: "ids_of it1 = set L" using it1(1) ids by auto
    let ?i = "it1\<lparr>st_counter := st_counter it1 + 1, pos := pos it1 + 1\<rparr>"
    let ?it2 = "seek ?i"
    have st1: "stored_at nodes st (ids_of it1)" using Cons.prems(2) it1(1) by (auto simp: stored_at_def)
    note nxt = next_step [OF it1(2) st1]
    have L2: "sorted_list_of_set (ids_of ?it2) = L" using L ids by (simp add: sorted_list_of_set_sort_remdups sort_key_id_if_sorted distinct_remdups_id sorted_sort_id)
    have "ids_from (Suc x) it1 = ids_of it1"
      using L ids by (auto simp: ids_from_def Suc_le_eq le_less)
    then have all: "ids_from (pos ?i) ?i = ids_of it1" using it1(3) by simp
    have "pos ?it2 = hd L" if "L \<noteq> []"
    proof -
      have "ids_from (pos ?i) ?i \<noteq> {}" using that all L by simp
      from sorted_ids_from [OF this] show ?thesis using all L2 by simp
    qed
    then obtain it' where "remove_walk nodes g ?it2 = Some it'"
      and i': "ids_of it' = set (drop ((length L - st_counter ?it2 + 1) div 2) L)"
      using Cons.IH [OF _ _ L2 _ f(2)] it1(2) st1 by auto
    then have run: "remove_walk nodes f it = Some it'"
      using True rem nxt by (simp add: f rdfstore_iterator_hasnext_def)
    have d: "(Suc (length L) - k + 1) div 2 = Suc ((length L - Suc k + 1) div 2)" if "k < Suc (length L)" for k
      using that by (cases "k = length L") (auto simp: Suc_diff_le)
    show ?thesis using run i' d [of "st_counter it"] True size it1(4) by simp
  qed
qed

theorem remove_walk_leaves_half:
  assumes "it_wf it" "stored_at nodes st (ids_of it)"
  shows "\<exists>it'. remove_walk nodes (it_size it + 1) (seek (rewind it)) = Some it'
    \<and> ids_of it' = set (drop ((it_size it + 1) div 2) (sorted_list_of_set (ids_of it)))"
proof -
  let ?L = "sorted_list_of_set (ids_of it)"
  have r: "ids_of (rewind it) = ids_of it" "it_wf (rewind it) = it_wf it" "pos (rewind it) = 0" "st_counter (rewind it) = 0"
    by (simp_all add: rewind_def)
  have "pos (seek (rewind it)) = hd ?L" if "?L \<noteq> []"
    using sorted_ids_from [of "rewind it"] that by (simp add: r)
  moreover have len: "length ?L = it_size it" using assms(1) by (simp add: it_wf_def)
  ultimately show ?thesis
    using remove_walk_spec [of "seek (rewind it)" nodes st ?L "it_size it + 1"] assms
    by (simp add: r del: remove_walk.simps)
qed

section \<open>Membership\<close>

theorem contains_iff:
  "fst (rdfstore_iterator_contains hash statements me (Some st) ctx) =
     (case statements (packInt (hash st (if ctx = None then st_context st else ctx))) of
        Inl err \<Rightarrow> if err = FLAT_STORE_E_NOTFOUND then 0 else - 1
      | Inr d \<Rightarrow> if unat (unpackInt d) \<in> ids_of me then 1 else 0)"
proof -
  have "c \<noteq> 0 \<and> p = i \<longleftrightarrow> i \<in> ids_of me"
    if "rdfstore_bits_isanyset (ids_size me) (ids me) i 1 = (c, p)" for i c p
    using isanyset_at [OF that] by (simp add: ids_of_def)
  then show ?thesis
    by (auto simp: rdfstore_iterator_contains_def Let_def split: option.splits sum.splits prod.splits)
qed

section \<open>All the statements\<close>

lemma setmask_id:
  assumes "unat i < 8 * MAXRECORDS_BYTES_SIZE" "sz \<le> MAXRECORDS_BYTES_SIZE"
  shows "\<exists>sz' bits' ch. rdfstore_bits_setmask sz bits (unat i) 1 1 MAXRECORDS_BYTES_SIZE = Inr (sz', bits', ch)
    \<and> sz' \<le> MAXRECORDS_BYTES_SIZE \<and> bitset sz' bits' = insert (unat i) (bitset sz bits)"
proof -
  have "unat i div 8 < MAXRECORDS_BYTES_SIZE" using assms(1) by (simp add: div8_less)
  then have "STEP * (1 + unat i div 8 div STEP) \<le> MAXRECORDS_BYTES_SIZE"
    by (simp add: STEP_def MAXRECORDS_BYTES_SIZE_def)
  with setmask_one [of "unat i" sz MAXRECORDS_BYTES_SIZE bits True] assms(2) show ?thesis by auto
qed

text \<open>A table of statements: packed identifiers within bounds, no two keys for the same one.\<close>

definition statement_table :: "(flat_key \<Rightarrow> flat_data option) \<Rightarrow> bool" where
  "statement_table T \<longleftrightarrow> inj_on T (dom T)
     \<and> (\<forall>k\<in>dom T. \<exists>i. T k = Some (packInt i) \<and> unat i < 8 * MAXRECORDS_BYTES_SIZE)"

definition statement_ids :: "(flat_key \<Rightarrow> flat_data option) \<Rightarrow> nat set" where
  "statement_ids T = (\<lambda>k. unat (unpackInt (the (T k)))) ` dom T"

lemma statement_ids_inj:
  assumes "statement_table T"
  shows "inj_on (\<lambda>k. unat (unpackInt (the (T k)))) (dom T)"
proof (rule inj_onI)
  fix k l assume kl: "k \<in> dom T" "l \<in> dom T" and eq: "unat (unpackInt (the (T k))) = unat (unpackInt (the (T l)))"
  obtain i j where "T k = Some (packInt i)" "T l = Some (packInt j)"
    using assms kl by (meson statement_table_def)
  with eq have "T k = T l" by (auto dest: unsigned_word_eqI)
  then show "k = l" using assms kl unfolding statement_table_def by (blast dest: inj_onD)
qed

context flat_cursor
begin

lemma elements_loop_table:
  assumes "ok s" and "walk s ks" and "ids_size cur \<le> MAXRECORDS_BYTES_SIZE"
    and "set (k # ks) \<subseteq> dom (tbl s)" and "statement_table (tbl s)"
  shows "\<exists>s' cur'. elements_loop B s k cur = Some (s', Inr (Some cur')) \<and> ok s' \<and> tbl s' = tbl s
    \<and> ids_of cur' = ids_of cur \<union> (\<lambda>k. unat (unpackInt (the (tbl s k)))) ` set (k # ks)
    \<and> it_size cur' = it_size cur + length (k # ks)
    \<and> ids_size cur' \<le> MAXRECORDS_BYTES_SIZE
    \<and> it_store cur' = it_store cur \<and> pos cur' = pos cur \<and> st_counter cur' = st_counter cur"
  using assms
proof (induction ks arbitrary: s k cur)
  case Nil
  have "k \<in> dom (tbl s)" using Nil.prems(4) by simp
  then obtain i where i: "tbl s k = Some (packInt i)" "unat i < 8 * MAXRECORDS_BYTES_SIZE"
    using Nil.prems(5) unfolding statement_table_def by blast
  obtain s1 r where f: "be_fetch B s k = (s1, r)" by (metis prod.collapse)
  note ft = fetch [OF Nil.prems(1) f]
  then have r: "r = Inr (packInt i)" by (simp add: i)
  note w = walk_fetch [OF Nil.prems(1,2) f]
  obtain s2 r2 where n: "be_next B s1 k = (s2, r2)" by (metis prod.collapse)
  from step [OF conjunct1 [OF ft] w n] have "\<exists>e. r2 = Inl e" and e': "ok s2" "tbl s2 = tbl s1" by simp_all
  then obtain e where e: "r2 = Inl e" "ok s2" "tbl s2 = tbl s1" by blast
  from setmask_id [OF i(2) Nil.prems(3), of "ids cur"] obtain sz bits ch where
    run: "rdfstore_bits_setmask (ids_size cur) (ids cur) (unat i) 1 1 MAXRECORDS_BYTES_SIZE = Inr (sz, bits, ch)"
    and sz: "sz \<le> MAXRECORDS_BYTES_SIZE" and bs: "bitset sz bits = insert (unat i) (bitset (ids_size cur) (ids cur))"
    by auto
  let ?cur = "cur\<lparr>ids_size := sz, ids := bits, it_size := it_size cur + 1\<rparr>"
  have "elements_loop B s k cur = Some (s2, Inr (Some ?cur))"
    using f r n e(1) run by (subst elements_loop.simps) simp
  moreover have "ids_of ?cur = ids_of cur \<union> (\<lambda>k. unat (unpackInt (the (tbl s k)))) ` set [k]"
    using bs i(1) by (simp add: ids_of_def)
  moreover have "tbl s2 = tbl s" using e(3) ft by simp
  ultimately show ?case using e(2) sz by (intro exI [of _ s2] exI [of _ ?cur]) simp
next
  case (Cons k2 ks)
  have "k \<in> dom (tbl s)" using Cons.prems(4) by simp
  then obtain i where i: "tbl s k = Some (packInt i)" "unat i < 8 * MAXRECORDS_BYTES_SIZE"
    using Cons.prems(5) unfolding statement_table_def by blast
  obtain s1 r where f: "be_fetch B s k = (s1, r)" by (metis prod.collapse)
  note ft = fetch [OF Cons.prems(1) f]
  then have r: "r = Inr (packInt i)" by (simp add: i)
  note w = walk_fetch [OF Cons.prems(1,2) f]
  obtain s2 r2 where n: "be_next B s1 k = (s2, r2)" by (metis prod.collapse)
  from step [OF conjunct1 [OF ft] w n] have e: "r2 = Inr k2" "ok s2" "tbl s2 = tbl s" "walk s2 ks"
    using ft by simp_all
  from setmask_id [OF i(2) Cons.prems(3), of "ids cur"] obtain sz bits ch where
    run: "rdfstore_bits_setmask (ids_size cur) (ids cur) (unat i) 1 1 MAXRECORDS_BYTES_SIZE = Inr (sz, bits, ch)"
    and sz: "sz \<le> MAXRECORDS_BYTES_SIZE" and bs: "bitset sz bits = insert (unat i) (bitset (ids_size cur) (ids cur))"
    by auto
  let ?cur = "cur\<lparr>ids_size := sz, ids := bits, it_size := it_size cur + 1\<rparr>"
  have "elements_loop B s k cur = elements_loop B s2 k2 ?cur"
    using f r n e run by (subst elements_loop.simps) simp
  moreover from Cons.IH [OF e(2,4), of ?cur k2] sz Cons.prems(4,5) e(3) obtain s' cur' where
    "elements_loop B s2 k2 ?cur = Some (s', Inr (Some cur'))" "ok s'" "tbl s' = tbl s"
    "ids_of cur' = ids_of ?cur \<union> (\<lambda>k. unat (unpackInt (the (tbl s k)))) ` set (k2 # ks)"
    "it_size cur' = it_size ?cur + length (k2 # ks)"
    "ids_size cur' \<le> MAXRECORDS_BYTES_SIZE"
    "it_store cur' = it_store ?cur \<and> pos cur' = pos ?cur \<and> st_counter cur' = st_counter ?cur" by auto
  ultimately show ?case using bs i by (auto simp: ids_of_def)
qed

lemma elements_table:
  assumes "ok s" and "statement_table (tbl s)"
  shows "\<exists>s' it. rdfstore_elements buf B s st att = Some (s', Inr (Some it), attach st att)
    \<and> ok s' \<and> tbl s' = tbl s \<and> fresh_over st (statement_ids (tbl s)) it"
proof -
  let ?cur = "\<lparr> it_store = st, it_size = 0, ids = buf, ids_size = 0, remove_holes = 0,
                     st_counter = 0, pos = 0 \<rparr>"
  obtain s1 r where f: "be_first B s = (s1, r)" by (metis prod.collapse)
  from first [OF assms(1) f] obtain ks where ks: "ok s1" "tbl s1 = tbl s" "distinct ks" "set ks = dom (tbl s)"
    and res: "case ks of [] \<Rightarrow> \<exists>e. r = Inl e | k # ks' \<Rightarrow> r = Inr k \<and> walk s1 ks'" by auto
  show ?thesis
  proof (cases ks)
    case Nil
    with res ks f show ?thesis
      by (auto simp: rdfstore_elements_def fresh_over_def it_wf_def ids_of_def statement_ids_def)
  next
    case (Cons k ks')
    then have r: "r = Inr k" "walk s1 ks'" using res by simp_all
    have dom: "set (k # ks') = dom (tbl s)" using ks(4) Cons by simp
    have "statement_table (tbl s1)" "set (k # ks') \<subseteq> dom (tbl s1)" using assms(2) ks(2) dom by simp_all
    from elements_loop_table [OF ks(1) r(2) _ this(2,1), of ?cur, unfolded dom ks(2)] Cons
    obtain s' it where it: "elements_loop B s1 k ?cur = Some (s', Inr (Some it))" "ok s'" "tbl s' = tbl s"
      "ids_of it = statement_ids (tbl s)" "it_size it = length ks" "ids_size it \<le> MAXRECORDS_BYTES_SIZE"
      "it_store it = st" "pos it = 0" "st_counter it = 0"
      by (auto simp: ids_of_def statement_ids_def)
    have "card (statement_ids (tbl s)) = length ks"
      unfolding statement_ids_def using card_image [OF statement_ids_inj [OF assms(2)]] ks(3,4)
      by (metis distinct_card)
    with it f r show ?thesis by (simp add: rdfstore_elements_def fresh_over_def it_wf_def)
  qed
qed

end

text \<open>
  The elements of a store whose statements table is kept by the caching store over
  Berkeley DB: \<open>rdfstore_elements\<close> returns, and what it returns is a fresh iterator over all
  the identifiers of the table.
\<close>

text \<open>C7. rdfstore_elements over the cached Berkeley DB tables returns a fresh iterator whose
  set of identifiers is exactly the set of identifiers the statements table maps to,
  counts them, raises the number of attached iterators of the store and leaves the table
  as it was.\<close>

theorem elements_all:
  assumes "db_laws D ok tbl walk" and "cached_inv ok tbl sm" and "statement_table (cached_tbl tbl sm)"
  shows "\<exists>sm' it. rdfstore_elements buf (caching_backend (backend_bdb D)) sm st att
      = Some (sm', Inr (Some it), attach st att)
    \<and> cached_tbl tbl sm' = cached_tbl tbl sm \<and> fresh_over st (statement_ids (cached_tbl tbl sm)) it"
  using flat_cursor.elements_table [OF flat_cursor.caching_flat_cursor [OF bdb_flat_cursor [OF assms(1)]] assms(2,3)]
  by blast

section \<open>Concrete runs\<close>

lemma bitset_eval: "bitset sz m = set (filter (membit m) [0..<8 * sz])"
  by (auto simp: bitset_def)

definition sample_iterator :: "byte \<Rightarrow> rdfstore_iterator" where
  "sample_iterator b = \<lparr> it_store = 1, it_size = length (filter (bit b) [0..<8]),
     ids = (\<lambda>i. if i = 0 then b else 0), ids_size = 1, remove_holes = 0, st_counter = 0, pos = 0 \<rparr>"

lemma ids_of_sample: "ids_of (sample_iterator b) = set (filter (bit b) [0..<8])"
  by (auto simp: ids_of_def sample_iterator_def bitset_def membit_def)

lemma sample_iterator_wf: "it_wf (sample_iterator b)"
  unfolding it_wf_def ids_of_sample
  by (subst distinct_card) (simp_all add: sample_iterator_def MAXRECORDS_BYTES_SIZE_def)

lemma sample_iterator_simps [simp]:
  "it_store (sample_iterator b) = 1" "pos (sample_iterator b) = 0" "st_counter (sample_iterator b) = 0"
  "ids_size (sample_iterator b) = 1"
  by (simp_all add: sample_iterator_def)

lemma sample_ids:
  "ids_of (sample_iterator 5) = {0, 2}" "ids_of (sample_iterator 6) = {1, 2}"
  "ids_of (sample_iterator 1) = {0}" "ids_of (sample_iterator 13) = {0, 2, 3}"
  "ids_of (sample_iterator 15) = {0, 1, 2, 3}"
  by (auto simp: ids_of_sample upt_rec)

lemma sample_sizes: "it_size (sample_iterator 5) = 2" "it_size (sample_iterator 15) = 4"
  by (simp_all add: sample_iterator_def upt_rec)

text \<open>A table that has the sample statement under every key, with context or without it.\<close>

definition sample_at :: "nat \<Rightarrow> RDF_Statement" where
  "sample_at i = stored_form sample_statement (if i = 2 then None else Some \<lparr> rtype = 0, ident = [9] \<rparr>)"

definition sample_nodes :: nodes_fetch where
  "sample_nodes k = Inr (insert_record sample_statement
     (if unpackInt k = 2 then None else Some \<lparr> rtype = 0, ident = [9] \<rparr>))"

lemma sample_record_ok:
  "literal_ok (object sample_statement)"
  "\<forall>s\<in>set (record_parts sample_statement None). length s < 2 ^ 31"
  "\<forall>s\<in>set (record_parts sample_statement (Some \<lparr> rtype = 0, ident = [9] \<rparr>)). length s < 2 ^ 31"
  by (simp_all add: sample_statement_def literal_ok_def opt_bytes_def bytes_of_def cstring_def
      RDFSTORE_MAX_LANG_LENGTH_def record_parts_def context_bytes_def)

lemma sample_stored: "stored_at sample_nodes sample_at (ids_of (sample_iterator b))"
proof -
  have "(of_nat i = (2 :: u32)) = (i = 2)" if "i < 8" for i
  proof -
    have "unat (of_nat i :: u32) = i" using that by (simp add: unat_of_nat take_bit_nat_eq_self)
    moreover have "unat (2 :: u32) = 2" by simp
    ultimately show ?thesis by (metis of_nat_numeral)
  qed
  then show ?thesis
    by (auto simp: stored_at_def ids_of_sample sample_nodes_def sample_at_def
        fetch_record_insert_record [OF sample_record_ok(1,2)]
        fetch_record_insert_record [OF sample_record_ok(1,3)])
qed

theorem set_operations_sound_witness:
  "(\<exists>r. rdfstore_iterator_intersect (\<lambda>_. 1) (\<lambda>_. 0) (Some (sample_iterator 5)) (Some (sample_iterator 6))
          = (Some r, attach 1 (\<lambda>_. 0)) \<and> fresh_over 1 {2} r)
   \<and> (\<exists>r. rdfstore_iterator_unite (\<lambda>_. 1) (\<lambda>_. 0) (Some (sample_iterator 5)) (Some (sample_iterator 6))
          = (Some r, attach 1 (\<lambda>_. 0)) \<and> fresh_over 1 {0, 1, 2} r)
   \<and> (\<exists>r. rdfstore_iterator_exor (\<lambda>_. 1) (\<lambda>_. 0) (Some (sample_iterator 5)) (Some (sample_iterator 6))
          = (Some r, attach 1 (\<lambda>_. 0)) \<and> fresh_over 1 {0} r)"
proof -
  have "{0, 2} \<inter> {1, 2} = {2::nat}" "{0, 2} \<union> {1, 2} = {0, 1, 2::nat}" "{0, 2} - {1, 2} = {0::nat}"
    by auto
  then show ?thesis
    using set_operations_sound [OF sample_iterator_wf sample_iterator_wf, of 5 6 "\<lambda>_. 1" "\<lambda>_. 0"]
    by (simp add: sample_ids)
qed

theorem subtract_truncates_witness:
  "\<exists>r. rdfstore_iterator_subtract (\<lambda>_. 1) (\<lambda>_. 1) (\<lambda>_. 0) (Some ((sample_iterator 0)\<lparr>it_size := 1, ids := (\<lambda>i. if i = 1 then 1 else 0), ids_size := 2\<rparr>))
      (Some (sample_iterator 1)) = (Some r, attach 1 (\<lambda>_. 0))
    \<and> fresh_over 1 {} r"
proof -
  let ?a = "(sample_iterator 0)\<lparr>it_size := 1, ids := (\<lambda>i. if i = 1 then 1 else 0), ids_size := 2\<rparr>"
  have s: "ids_of ?a = {8}" by (auto simp: ids_of_def bitset_eval membit_def upt_rec)
  then have "it_wf ?a" by (simp add: it_wf_def MAXRECORDS_BYTES_SIZE_def)
  from subtract_truncates [OF this, of "sample_iterator 1" "\<lambda>_. 1" "\<lambda>_. 1" "\<lambda>_. 0"] show ?thesis
    unfolding s by (simp add: sample_ids)
qed

theorem complement_truncates_witness:
  "\<exists>r. rdfstore_iterator_complement (\<lambda>_. 1) (\<lambda>_. 1) (Some (sample_iterator 7)) (\<lambda>_. 0)
        (Some ((sample_iterator 0)\<lparr>ids_size := 0\<rparr>)) = (Some r, attach 1 (\<lambda>_. 0))
    \<and> fresh_over 1 {} r"
proof -
  let ?a = "(sample_iterator 0)\<lparr>ids_size := 0\<rparr>"
  have "it_wf ?a" by (simp add: it_wf_def ids_of_def sample_iterator_def)
  from complement_truncates [OF this sample_iterator_wf [of 7]] show ?thesis by simp
qed

theorem each_enumerates_witness:
  "calls 3 (rdfstore_iterator_each sample_nodes) (Some (sample_iterator 5))
    = Inr ([Some (sample_at 0), Some (sample_at 2), None], Some (sample_iterator 5))"
  using each_enumerates [OF sample_iterator_wf sample_stored, of 5]
  by (simp add: sample_ids sample_sizes)

theorem first_next_enumerates_witness:
  "\<exists>it'. first_then_next 2 sample_nodes (Some (sample_iterator 5))
      = Inr ([Some (sample_at 0), Some (sample_at 2), None], it')
    \<and> rdfstore_iterator_hasnext it' = False"
  using first_next_enumerates [OF sample_iterator_wf sample_stored, of 2 5]
  by (simp add: sample_ids sample_sizes)

theorem each_node_enumerates_witness:
  "calls 3 (rdfstore_iterator_each_subject sample_nodes) (Some (sample_iterator 5))
      = Inr ([Some (Resource (subject (sample_at 0))), Some (Resource (subject (sample_at 2))), None],
             Some (sample_iterator 5))
    \<and> calls 3 (rdfstore_iterator_each_predicate sample_nodes) (Some (sample_iterator 5))
      = Inr ([Some (Resource (predicate (sample_at 0))), Some (Resource (predicate (sample_at 2))), None],
             Some (sample_iterator 5))
    \<and> calls 3 (rdfstore_iterator_each_object sample_nodes) (Some (sample_iterator 5))
      = Inr ([Some (object (sample_at 0)), Some (object (sample_at 2)), None], Some (sample_iterator 5))"
  using each_node_enumerates [OF sample_iterator_wf sample_stored, of 5]
  by (simp add: sample_ids sample_sizes)

theorem each_context_stops_at_gap_witness:
  "calls 2 (rdfstore_iterator_each_context sample_nodes) (Some (sample_iterator 13))
    = Inr ([Some (Resource \<lparr> rtype = 0, ident = [9] \<rparr>), None], Some (sample_iterator 13))"
  using each_context_stops_at_gap [OF sample_iterator_wf sample_stored, of 13 "[0]"]
  by (simp add: sample_ids sample_at_def stored_form_def stored_optional_def
      stored_type_def numeral_2_eq_2)

theorem remove_current_witness:
  "\<exists>it'. rdfstore_iterator_remove (sample_iterator 5) = Inr (True, it')
    \<and> ids_of it' = {2} \<and> it_wf it' \<and> pos it' = 0 \<and> st_counter it' = 0"
  using remove_current [OF sample_iterator_wf, of 5] by (simp add: sample_ids)

theorem remove_walk_leaves_half_witness:
  "\<exists>it'. remove_walk sample_nodes 5 (seek (rewind (sample_iterator 0x0f))) = Some it' \<and> ids_of it' = {2, 3}"
  using remove_walk_leaves_half [OF sample_iterator_wf sample_stored, of "0x0f"]
  by (simp add: sample_ids sample_sizes del: remove_walk.simps)

theorem elements_all_witness:
  "\<exists>sm' it. rdfstore_elements (\<lambda>_. 3) (caching_backend (backend_bdb memdb))
        (backend_caching_open ([([1], packInt 70), ([2], packInt 8)], [])) 1 (\<lambda>_. 0)
      = Some (sm', Inr (Some it), attach 1 (\<lambda>_. 0))
    \<and> cached_tbl (\<lambda>s. map_of (fst s)) sm' = map_of [([1], packInt 70), ([2], packInt 8)]
    \<and> fresh_over 1 {8, 70} it"
proof -
  let ?s = "([([1], packInt 70), ([2], packInt 8)], []) :: (flat_key \<times> flat_data) list \<times> flat_key list"
  let ?tbl = "\<lambda>s. map_of (fst s) :: flat_key \<Rightarrow> flat_data option"
  have ct: "cached_tbl ?tbl (backend_caching_open ?s) = map_of [([1], packInt 70), ([2], packInt 8)]"
    by (simp only: open_tbl fst_conv)
  have "cached_inv (\<lambda>s. distinct (map fst (fst s))) ?tbl (backend_caching_open ?s)"
    by (rule open_inv) simp
  moreover have "statement_table (map_of [([1], packInt 70), ([2], packInt 8)])"
    by (auto simp: statement_table_def inj_on_def MAXRECORDS_BYTES_SIZE_def split: if_splits)
  moreover have "statement_ids (map_of [([1], packInt 70), ([2], packInt 8)]) = {8, 70}"
    unfolding statement_ids_def dom_map_of_conv_image_fst by (simp add: insert_commute)
  ultimately show ?thesis
    using elements_all [OF memdb_laws, of "backend_caching_open ?s" "\<lambda>_. 3" 1 "\<lambda>_. 0"] by (simp only: ct)
qed

end
