(* ===== verification/MyCompress.thy ===== *)
theory MyCompress
  imports Prelude
begin

text \<open>
  The run length coder of \<open>src/my_compress.c\<close>, which the store uses for bit vectors under
  \<open>RDFSTORE_COMPRESSION_TYPE_ORIGINAL\<close>. The input is the list of its \<open>insize\<close> bytes; the
  encoder's output, written front to back, is a list too. The decoder writes into a buffer
  that it does not initialise, so its output is a buffer and a length. Sizes are natural
  numbers: inputs have at most \<open>RDFSTORE_MAXRECORDS_BYTES_SIZE\<close> bytes.

  The quotients of integers below \<open>2^28\<close> that the encoder compares as doubles are compared
  by cross multiplication: two different quotients of this size differ by more than the
  precision of a double.
\<close>

section \<open>Encoder\<close>

definition MAXRUNLENGTH :: nat where
  "MAXRUNLENGTH = 16 * 256 * 256 * 256"

definition MAXVARLENGTH :: nat where
  "MAXVARLENGTH = 127"

text \<open>\<open>memcmp(in+a, in+b, n) == 0\<close> inside the input\<close>

definition same_bytes :: "byte list \<Rightarrow> nat \<Rightarrow> nat \<Rightarrow> nat \<Rightarrow> bool" where
  "same_bytes xs a b n \<longleftrightarrow> take n (drop a xs) = take n (drop b xs)"

text \<open>The number of copies of the \<open>vlen\<close> bytes at \<open>i\<close> that follow one another\<close>

function count_matches :: "byte list \<Rightarrow> nat \<Rightarrow> nat \<Rightarrow> nat \<Rightarrow> nat" where
  "count_matches xs i vlen len =
     (if i + len * vlen + vlen < length xs \<and> len < MAXRUNLENGTH \<and> same_bytes xs i (i + len * vlen) vlen
      then count_matches xs i vlen (Suc len)
      else len)"
  by pat_completeness auto
termination
  by (relation "measure (\<lambda>(xs, i, vlen, len). MAXRUNLENGTH - len)") auto

declare count_matches.simps [simp del]

text \<open>
  The search for the best repeated code: \<open>best\<close> is \<open>best_match\<close> and \<open>m\<close> is
  \<open>matches[best_match-1]\<close>. The flag tells whether a code was good enough to stop at.
\<close>

function best_code :: "byte list \<Rightarrow> nat \<Rightarrow> nat \<Rightarrow> nat \<Rightarrow> nat \<Rightarrow> bool \<times> nat \<times> nat" where
  "best_code xs i vlen best m =
     (if i + vlen * 2 < length xs \<and> vlen \<le> MAXVARLENGTH then
        if same_bytes xs i (i + vlen) vlen then
          let len = count_matches xs i vlen 2 in
          if 10000 * vlen \<le> len then (True, vlen, len)
          else if best = 0 \<or> vlen * m < best * len then best_code xs i (Suc vlen) vlen len
          else best_code xs i (Suc vlen) best m
        else best_code xs i (Suc vlen) best m
      else (False, best, m))"
  by pat_completeness auto
termination
  by (relation "measure (\<lambda>(xs, i, vlen, best, m). Suc MAXVARLENGTH - vlen)") auto

declare best_code.simps [simp del]

text \<open>Literal bytes: up to the first byte that repeats an earlier one\<close>

function literal_length :: "byte list \<Rightarrow> nat \<Rightarrow> nat \<Rightarrow> nat" where
  "literal_length xs i len =
     (if len + i < length xs \<and> len < MAXVARLENGTH \<and> len < MAXRUNLENGTH
         \<and> (if len = 1 then xs ! i \<noteq> xs ! (i + len) else xs ! (i + len) \<notin> set (take len (drop i xs)))
      then literal_length xs i (Suc len)
      else len)"
  by pat_completeness auto
termination
  by (relation "measure (\<lambda>(xs, i, len). MAXVARLENGTH - len)") auto

declare literal_length.simps [simp del]

text \<open>\<open>comp\<close> (here \<open>rep\<close>), \<open>vlen\<close> and \<open>len\<close> for the code at \<open>i\<close>\<close>

definition choose_code :: "byte list \<Rightarrow> nat \<Rightarrow> bool \<times> nat \<times> nat" where
  "choose_code xs i =
     (let (rep, best, m) = best_code xs i 1 0 0 in
      if rep then (True, best, m)
      else if best > 0 \<and> m > 1 then (True, best, m)
      else (False, 1, literal_length xs i 1))"

definition run_header :: "bool \<Rightarrow> nat \<Rightarrow> nat \<Rightarrow> byte list" where
  "run_header rep vlen len =
     (let flags = (if vlen > 1 then 64 else 0) OR (if rep then 128 else 0);
          vbyte = (if vlen > 1 then [of_nat vlen AND 127] else [])
      in if len > 4095 then
           [(32 + (of_nat (len div 2 ^ 24) AND 15)) OR flags,
            of_nat (len div 2 ^ 16), of_nat (len div 2 ^ 8), of_nat len] @ vbyte
         else if len > 15 then
           [(16 + (of_nat (len div 2 ^ 8) AND 15)) OR flags, of_nat len AND 255] @ vbyte
         else [(of_nat len AND 15) OR flags] @ vbyte)"

lemma count_matches_ge: "len \<le> count_matches xs i vlen len"
proof (induction xs i vlen len rule: count_matches.induct)
  case (1 xs i vlen len)
  then show ?case by (subst count_matches.simps) (auto dest: Suc_leD)
qed

lemma literal_length_ge: "len \<le> literal_length xs i len"
proof (induction xs i len rule: literal_length.induct)
  case (1 xs i len)
  then show ?case by (subst literal_length.simps) (auto dest: Suc_leD)
qed

text \<open>A code found by the search: at least two copies of at most 127 bytes\<close>

definition good_code :: "byte list \<Rightarrow> nat \<Rightarrow> nat \<Rightarrow> nat \<Rightarrow> bool" where
  "good_code xs i vlen len \<longleftrightarrow>
     1 \<le> vlen \<and> vlen \<le> MAXVARLENGTH \<and> 2 \<le> len \<and> i + len * vlen < length xs
     \<and> (\<forall>k<len. same_bytes xs i (i + k * vlen) vlen)"

lemma count_matches_good:
  assumes "good_code xs i vlen len"
  shows "good_code xs i vlen (count_matches xs i vlen len)"
  using assms
proof (induction xs i vlen len rule: count_matches.induct)
  case (1 xs i vlen len)
  show ?case
  proof (cases "i + len * vlen + vlen < length xs \<and> len < MAXRUNLENGTH \<and> same_bytes xs i (i + len * vlen) vlen")
    case True
    then have "good_code xs i vlen (Suc len)"
      using "1.prems" by (auto simp: good_code_def less_Suc_eq add.assoc add.commute)
    with "1.IH" True have "good_code xs i vlen (count_matches xs i vlen (Suc len))" by blast
    then show ?thesis using True by (subst count_matches.simps) simp
  next
    case False
    then show ?thesis using "1.prems" by (subst count_matches.simps) auto
  qed
qed

lemma best_code_good:
  assumes "1 \<le> vlen" and "best = 0 \<or> good_code xs i best m" and "best_code xs i vlen best m = (c, b, n)"
  shows "(b = 0 \<and> \<not> c) \<or> good_code xs i b n"
  using assms
proof (induction xs i vlen best m rule: best_code.induct)
  case (1 xs i vlen best m)
  let ?len = "count_matches xs i vlen 2"
  consider (stop) "\<not> (i + vlen * 2 < length xs \<and> vlen \<le> MAXVARLENGTH)"
    | (differ) "i + vlen * 2 < length xs" "vlen \<le> MAXVARLENGTH" "\<not> same_bytes xs i (i + vlen) vlen"
    | (match) "i + vlen * 2 < length xs" "vlen \<le> MAXVARLENGTH" "same_bytes xs i (i + vlen) vlen"
    by blast
  then show ?case
  proof cases
    case stop
    then show ?thesis using "1.prems" by (subst (asm) best_code.simps) auto
  next
    case differ
    then show ?thesis
      using "1.prems" "1.IH"(3) by (subst (asm) best_code.simps) auto
  next
    case match
    then have "good_code xs i vlen 2"
      using "1.prems"(1) by (auto simp: good_code_def mult.commute less_Suc_eq numeral_2_eq_2 same_bytes_def)
    note good = count_matches_good [OF this]
    consider (opt) "10000 * vlen \<le> ?len"
      | (better) "\<not> 10000 * vlen \<le> ?len" "best = 0 \<or> vlen * m < best * ?len"
      | (worse) "\<not> 10000 * vlen \<le> ?len" "\<not> (best = 0 \<or> vlen * m < best * ?len)"
      by blast
    then show ?thesis
    proof cases
      case opt
      then show ?thesis using "1.prems"(3) match good
        by (subst (asm) best_code.simps) (auto simp: Let_def)
    next
      case better
      then have "best_code xs i (Suc vlen) vlen ?len = (c, b, n)"
        using "1.prems"(3) match by (subst (asm) best_code.simps) (simp add: Let_def)
      then show ?thesis using "1.IH"(1) [OF _ _ refl] match better good "1.prems"(1) by simp
    next
      case worse
      then have "best_code xs i (Suc vlen) best m = (c, b, n)"
        using "1.prems"(3) match by (subst (asm) best_code.simps) (simp add: Let_def)
      then show ?thesis using "1.IH"(2) [OF _ _ refl] match worse "1.prems"(1,2) by simp
    qed
  qed
qed

lemma literal_length_bounds:
  assumes "i + len \<le> length xs" and "1 \<le> len" and "len \<le> MAXVARLENGTH"
  shows "i + literal_length xs i len \<le> length xs \<and> literal_length xs i len \<le> MAXVARLENGTH"
  using assms
proof (induction xs i len rule: literal_length.induct)
  case (1 xs i len)
  then show ?case by (subst (1 2) literal_length.simps) auto
qed

lemma choose_code_cases:
  assumes "choose_code xs i = (rep, vlen, len)" and "i < length xs"
  obtains (run) "rep" "good_code xs i vlen len"
  | (literal) "\<not> rep" "vlen = 1" "1 \<le> len" "len \<le> MAXVARLENGTH" "i + len \<le> length xs"
proof -
  obtain c b n where best: "best_code xs i 1 0 0 = (c, b, n)" by (cases "best_code xs i 1 0 0")
  have good: "(b = 0 \<and> \<not> c) \<or> good_code xs i b n" by (rule best_code_good [OF _ _ best]) simp_all
  have "1 \<le> literal_length xs i 1" by (rule literal_length_ge)
  moreover have "i + literal_length xs i 1 \<le> length xs \<and> literal_length xs i 1 \<le> MAXVARLENGTH"
    using assms(2) by (intro literal_length_bounds) (simp_all add: MAXVARLENGTH_def)
  ultimately show thesis
    using assms(1) good best run literal
    by (auto simp: choose_code_def Let_def good_code_def split: if_splits)
qed

lemma choose_code_pos:
  assumes "choose_code xs i = (rep, vlen, len)" and "i < length xs"
  shows "0 < len * vlen"
  by (rule choose_code_cases [OF assms]) (auto simp: good_code_def)

text \<open>The main loop; the bytes that follow the header are one copy of the code or the literal bytes.\<close>

function compress_loop :: "byte list \<Rightarrow> nat \<Rightarrow> byte list" where
  "compress_loop xs i =
     (if i < length xs then
        let (rep, vlen, len) = choose_code xs i in
        run_header rep vlen len @ take (if rep then vlen else len) (drop i xs)
          @ compress_loop xs (i + len * vlen)
      else [])"
  by pat_completeness auto
termination
  using choose_code_pos
  by (relation "measure (\<lambda>(xs, i). length xs - i)") (auto, metis diff_less_mono2 less_add_same_cancel1 mult_is_0 not_gr0)

declare compress_loop.simps [simp del]

definition compress_mine :: "byte list \<Rightarrow> byte list" where
  "compress_mine xs = compress_loop xs 0"

section \<open>Decoder\<close>

datatype expand_fault = Read_past_end_of_code

definition read_byte :: "byte list \<Rightarrow> nat \<Rightarrow> expand_fault + nat" where
  "read_byte xs i = (if i < length xs then Inr (unat (xs ! i)) else Inl Read_past_end_of_code)"

definition read_bytes :: "byte list \<Rightarrow> nat \<Rightarrow> nat \<Rightarrow> expand_fault + byte list" where
  "read_bytes xs i n =
     (if i + n \<le> length xs then Inr (take n (drop i xs)) else Inl Read_past_end_of_code)"

text \<open>\<open>bcopy\<close> to \<open>out+j\<close>\<close>

definition write_bytes :: "mem \<Rightarrow> nat \<Rightarrow> byte list \<Rightarrow> mem" where
  "write_bytes out j bs = (\<lambda>k. if j \<le> k \<and> k < j + length bs then bs ! (k - j) else out k)"

text \<open>The run length and the index of its last byte, from the first byte \<open>c\<close> at \<open>i\<close>\<close>

definition read_length :: "byte list \<Rightarrow> nat \<Rightarrow> byte \<Rightarrow> expand_fault + (nat \<times> nat)" where
  "read_length xs i c =
     (if c AND 32 \<noteq> 0 then
        bindE (read_byte xs (i + 1)) (\<lambda>b1.
        bindE (read_byte xs (i + 2)) (\<lambda>b2.
        bindE (read_byte xs (i + 3)) (\<lambda>b3.
          Inr (((unat (c AND 31) * 256 + b1) * 256 + b2) * 256 + b3, i + 3))))
      else if c AND 16 \<noteq> 0 then
        bindE (read_byte xs (i + 1)) (\<lambda>b. Inr (unat (c AND 15) * 256 + b, i + 1))
      else Inr (unat (c AND 15), i))"

text \<open>The variable length\<close>

definition read_vlen :: "byte list \<Rightarrow> nat \<Rightarrow> byte \<Rightarrow> expand_fault + (nat \<times> nat)" where
  "read_vlen xs i c =
     (if c AND 64 \<noteq> 0 then bindE (read_byte xs (i + 1)) (\<lambda>v. Inr (v, i + 1)) else Inr (1, i))"

text \<open>\<open>for(k=0; k<len;k++) bcopy(in+i,out+(j+(k*vlen)),vlen)\<close>\<close>

fun write_copies :: "nat \<Rightarrow> nat \<Rightarrow> nat \<Rightarrow> byte list \<Rightarrow> mem \<Rightarrow> mem" where
  "write_copies 0 j k bs out = out"
| "write_copies (Suc n) j k bs out =
     write_copies n j (Suc k) bs (write_bytes out (j + k * length bs) bs)"

text \<open>What one code writes at \<open>j\<close>, and the index after it\<close>

definition expand_code ::
  "byte list \<Rightarrow> nat \<Rightarrow> byte \<Rightarrow> nat \<Rightarrow> nat \<Rightarrow> mem \<Rightarrow> nat \<Rightarrow> expand_fault + (mem \<times> nat)"
where
  "expand_code xs i c len vlen out j =
     (if c AND 128 \<noteq> 0 then
        if vlen > 1 then
          bindE (read_bytes xs i vlen) (\<lambda>bs. Inr (write_copies len j 0 bs out, i + vlen))
        else
          bindE (read_bytes xs i 1) (\<lambda>bs.
            Inr (write_bytes out j (replicate len (bs ! 0)), i + vlen))
      else bindE (read_bytes xs i len) (\<lambda>bs. Inr (write_bytes out j bs, i + len)))"

function expand_loop :: "byte list \<Rightarrow> nat \<Rightarrow> mem \<Rightarrow> nat \<Rightarrow> expand_fault + (mem \<times> nat)" where
  "expand_loop xs i out j =
     (if i < length xs then
        let c = xs ! i in
        if c = 0 then Inr (out, j)
        else
          bindE (read_length xs i c) (\<lambda>(len, i1).
          bindE (read_vlen xs i1 c) (\<lambda>(vlen, i2).
            if len = 0 then Inr (out, j)
            else bindE (expand_code xs (i2 + 1) c len vlen out j) (\<lambda>(out, i3).
              expand_loop xs i3 out (j + len * vlen))))
      else Inr (out, j))"
  by pat_completeness auto
termination
  by (relation "measure (\<lambda>(xs, i, out, j). length xs - i)")
    (auto simp: read_length_def read_vlen_def expand_code_def bindE_Inr_iff split: if_splits)

declare expand_loop.simps [simp del]

definition expand_mine :: "byte list \<Rightarrow> mem \<Rightarrow> expand_fault + (mem \<times> nat)" where
  "expand_mine xs out = expand_loop xs 0 out 0"

section \<open>Round trip\<close>

lemma of_nat_and_15: "(of_nat k :: byte) AND 15 = of_nat (k mod 16)"
proof -
  have "(of_nat k :: byte) AND 15 = take_bit 4 (of_nat k)"
    by (simp add: take_bit_eq_mask mask_eq_exp_minus_1)
  also have "\<dots> = of_nat (take_bit 4 k)" by (simp add: of_nat_take_bit)
  finally show ?thesis by (simp add: take_bit_eq_mod)
qed

lemma unat_of_nat_byte [simp]: "unat (of_nat k :: byte) = k mod 256"
  by (simp add: unat_of_nat)

text \<open>The fields of a first byte, whatever its flags\<close>

definition header_byte_ok :: "byte \<Rightarrow> byte \<Rightarrow> byte \<Rightarrow> nat \<Rightarrow> bool" where
  "header_byte_ok base f g n \<longleftrightarrow>
     (let h = (base + of_nat n) OR (f OR g) in
      h AND 128 = g \<and> h AND 64 = f \<and> h AND 32 = (if base = 32 then 32 else 0)
      \<and> h AND 16 = (if base = 16 then 16 else 0) \<and> unat (h AND 15) = n
      \<and> (base = 32 \<longrightarrow> unat (h AND 31) = n) \<and> (h = 0 \<longrightarrow> n = 0))"

lemma header_bytes_ok:
  "list_all (\<lambda>n. list_all (\<lambda>base. list_all (\<lambda>f. list_all (\<lambda>g. header_byte_ok base f g n)
     [0, 128]) [0, 64]) [0, 16, 32]) [0..<16]"
  by code_simp

lemma header_fields:
  fixes base f g :: byte
  assumes "n < 16" and "base \<in> {0, 16, 32}" and "f \<in> {0, 64}" and "g \<in> {0, 128}"
  shows "header_byte_ok base f g n"
  using header_bytes_ok assms unfolding list_all_iff by auto

lemma nat_digits:
  fixes len :: nat
  assumes "len < 2 ^ 28"
  shows "((len div 2 ^ 24 mod 16 * 256 + len div 2 ^ 16 mod 256) * 256 + len div 2 ^ 8 mod 256) * 256
    + len mod 256 = len"
proof -
  have a: "len = len div 256 * 256 + len mod 256" by simp
  have b: "len div 256 = len div 65536 * 256 + len div 256 mod 256"
    using div_mult_mod_eq [of "len div 256" 256] by (simp add: div_mult2_eq [symmetric])
  have c: "len div 65536 = len div 16777216 * 256 + len div 65536 mod 256"
    using div_mult_mod_eq [of "len div 65536" 256] by (simp add: div_mult2_eq [symmetric])
  have d: "len div 16777216 mod 16 = len div 16777216"
    using assms by (simp add: div_less_iff_less_mult)
  from a b c d show ?thesis by simp
qed

lemma nat_digits2:
  fixes len :: nat
  assumes "len \<le> 4095"
  shows "len div 2 ^ 8 mod 16 * 256 + len mod 256 = len"
proof -
  have "len div 256 mod 16 = len div 256" using assms by (simp add: div_less_iff_less_mult)
  then show ?thesis by simp
qed

lemma read_byte_app [simp]: "read_byte (pre @ b # rest) (length pre) = Inr (unat b)"
  by (simp add: read_byte_def)


lemma read_byte_nth: "i < length xs \<Longrightarrow> read_byte xs i = Inr (unat (xs ! i))"
  by (simp add: read_byte_def)

lemma byte_and_255: "(b::byte) AND 255 = b"
proof -
  have "(255::byte) = - 1" by simp
  then show ?thesis by (simp only: and.right_neutral)
qed

lemma vlen_and_127: "vlen \<le> 127 \<Longrightarrow> unat ((of_nat vlen :: byte) AND 127) = vlen"
proof -
  assume v: "vlen \<le> 127"
  have "(of_nat vlen :: byte) AND 127 = take_bit 7 (of_nat vlen)"
    by (simp add: take_bit_eq_mask mask_eq_exp_minus_1)
  also have "\<dots> = of_nat (take_bit 7 vlen)" by (simp add: of_nat_take_bit)
  finally show ?thesis using v by (simp add: take_bit_eq_mod)
qed

definition header_base :: "nat \<Rightarrow> byte" where
  "header_base len = (if len > 4095 then 32 else if len > 15 then 16 else 0)"

definition header_nibble :: "nat \<Rightarrow> nat" where
  "header_nibble len = (if len > 4095 then len div 2 ^ 24 else if len > 15 then len div 2 ^ 8 else len) mod 16"

definition header_tail :: "nat \<Rightarrow> byte list" where
  "header_tail len = (if len > 4095 then [of_nat (len div 2 ^ 16), of_nat (len div 2 ^ 8), of_nat len]
     else if len > 15 then [of_nat len] else [])"

definition first_byte :: "bool \<Rightarrow> nat \<Rightarrow> nat \<Rightarrow> byte" where
  "first_byte rep vlen len = (header_base len + of_nat (header_nibble len))
     OR ((if vlen > 1 then 64 else 0) OR (if rep then 128 else 0))"

lemma run_header_eq:
  "run_header rep vlen len = first_byte rep vlen len # header_tail len
     @ (if vlen > 1 then [of_nat vlen AND 127] else [])"
  unfolding run_header_def first_byte_def header_base_def header_nibble_def header_tail_def Let_def
    of_nat_and_15 byte_and_255 by simp

lemma first_byte_ok:
  "header_byte_ok (header_base len) (if vlen > 1 then 64 else 0) (if rep then 128 else 0) (header_nibble len)"
  by (rule header_fields) (auto simp: header_base_def header_nibble_def)

lemma first_byte_fields:
  "first_byte rep vlen len AND 128 = (if rep then 128 else 0)"
  "first_byte rep vlen len AND 64 = (if vlen > 1 then 64 else 0)"
  "first_byte rep vlen len AND 32 = (if header_base len = 32 then 32 else 0)"
  "first_byte rep vlen len AND 16 = (if header_base len = 16 then 16 else 0)"
  "unat (first_byte rep vlen len AND 15) = header_nibble len"
  "header_base len = 32 \<Longrightarrow> unat (first_byte rep vlen len AND 31) = header_nibble len"
  "first_byte rep vlen len = 0 \<Longrightarrow> header_nibble len = 0"
  using first_byte_ok [of len vlen rep]
  unfolding header_byte_ok_def Let_def first_byte_def [symmetric] by blast+

lemma read_length_header:
  assumes "xs = pre @ (first_byte rep vlen len # header_tail len) @ rest" and "len < 2 ^ 28"
  shows "read_length xs (length pre) (first_byte rep vlen len) = Inr (len, length pre + length (header_tail len))"
proof -
  note f = first_byte_fields [where rep = rep and vlen = vlen and len = len]
  consider "len > 4095" | "len \<le> 4095" "len > 15" | "len \<le> 15" by linarith
  then show ?thesis
  proof cases
    case 1
    then have "xs ! (length pre + 1) = of_nat (len div 2 ^ 16)" "xs ! (length pre + 2) = of_nat (len div 2 ^ 8)"
      "xs ! (length pre + 3) = of_nat len" "length pre + 3 < length xs"
      by (simp_all add: assms(1) header_tail_def nth_append)
    then show ?thesis
      using 1 f nat_digits [OF assms(2)]
      by (simp add: read_length_def read_byte_nth header_base_def header_nibble_def header_tail_def)
  next
    case 2
    then have "xs ! (length pre + 1) = of_nat len" "length pre + 1 < length xs"
      by (simp_all add: assms(1) header_tail_def nth_append)
    then show ?thesis
      using 2 f nat_digits2 [of len]
      by (simp add: read_length_def read_byte_nth header_base_def header_nibble_def header_tail_def)
  next
    case 3
    then show ?thesis using f
      by (simp add: read_length_def header_base_def header_nibble_def header_tail_def)
  qed
qed

lemma read_vlen_header:
  assumes "xs = pre @ (first_byte rep vlen len # header_tail len)
      @ (if vlen > 1 then [of_nat vlen AND 127] else []) @ rest" and "1 \<le> vlen" and "vlen \<le> 127"
  shows "read_vlen xs (length pre + length (header_tail len)) (first_byte rep vlen len)
    = Inr (vlen, length pre + length (header_tail len) + (if vlen > 1 then 1 else 0))"
proof (cases "vlen > 1")
  case True
  then have "xs ! (length pre + length (header_tail len) + 1) = of_nat vlen AND 127"
    and "length pre + length (header_tail len) + 1 < length xs"
    by (simp_all add: assms(1) nth_append)
  then show ?thesis
    using first_byte_fields [where rep = rep and vlen = vlen and len = len] True assms(3)
    by (simp add: read_vlen_def read_byte_nth vlen_and_127)
next
  case False
  then show ?thesis
    using first_byte_fields [where rep = rep and vlen = vlen and len = len] assms(2) by (simp add: read_vlen_def)
qed

lemma write_bytes_append:
  "write_bytes (write_bytes out j a) (j + length a) b = write_bytes out j (a @ b)"
  by (auto simp: write_bytes_def fun_eq_iff nth_append)

lemma write_bytes_Nil [simp]: "write_bytes out j [] = out"
  by (auto simp: write_bytes_def fun_eq_iff)

lemma write_copies_eq:
  "write_copies n j k bs out = write_bytes out (j + k * length bs) (concat (replicate n bs))"
proof (induction n arbitrary: k out)
  case (Suc n)
  show ?case
    using Suc.IH [of "Suc k"] write_bytes_append [of out "j + k * length bs" bs]
    by (simp add: algebra_simps)
qed simp

lemma same_bytes_concat:
  assumes "\<forall>k<n. same_bytes xs i (i + k * v) v"
  shows "concat (replicate n (take v (drop i xs))) = take (n * v) (drop i xs)"
  using assms
proof (induction n)
  case (Suc n)
  have "replicate (Suc n) b = replicate n b @ [b]" for b :: "byte list"
    by (simp add: replicate_append_same)
  then have "concat (replicate (Suc n) (take v (drop i xs)))
      = concat (replicate n (take v (drop i xs))) @ take v (drop i xs)"
    by (simp only: concat_append concat.simps append_Nil2)
  also have "\<dots> = take (n * v) (drop i xs) @ take v (drop (i + n * v) xs)"
    using Suc by (simp add: same_bytes_def)
  also have "\<dots> = take (Suc n * v) (drop i xs)"
    using take_add [of "n * v" v "drop i xs"] by (simp add: add.commute)
  finally show ?case .
qed simp

lemma expand_code_literal:
  assumes "c AND 128 = 0" and "xs = pre @ body @ rest"
  shows "expand_code xs (length pre) c (length body) 1 out j
    = Inr (write_bytes out j body, length pre + length body)"
  using assms by (simp add: expand_code_def read_bytes_def)

lemma expand_code_run:
  assumes "c AND 128 \<noteq> 0" and "xs = pre @ body @ rest" and "1 \<le> length body"
  shows "expand_code xs (length pre) c len (length body) out j
    = Inr (write_bytes out j (concat (replicate len body)), length pre + length body)"
proof (cases "length body > 1")
  case True
  then show ?thesis using assms by (simp add: expand_code_def read_bytes_def write_copies_eq)
next
  case False
  then obtain b where b: "body = [b]"
    using assms(3) by (cases body) auto
  have "concat (replicate len [b]) = replicate len b" by (induction len) simp_all
  then show ?thesis using assms by (simp add: expand_code_def read_bytes_def b)
qed

lemma first_byte_nonzero:
  assumes "1 \<le> len" and "len < 2 ^ 28"
  shows "first_byte rep vlen len \<noteq> 0"
proof
  assume z: "first_byte rep vlen len = 0"
  from first_byte_fields(7) [OF z] first_byte_fields(3-4) [where rep = rep and vlen = vlen and len = len] z
  show False using assms by (auto simp: header_base_def header_nibble_def split: if_splits)
qed

text \<open>One code at the head of the input\<close>

lemma expand_loop_code:
  assumes "1 \<le> len" "len < 2 ^ 28" "1 \<le> vlen" "vlen \<le> 127"
    and "length body = (if rep then vlen else len)" and "rep \<or> vlen = 1"
  shows "expand_loop (pre @ run_header rep vlen len @ body @ rest) (length pre) out j
    = expand_loop (pre @ run_header rep vlen len @ body @ rest)
        (length (pre @ run_header rep vlen len @ body))
        (write_bytes out j (if rep then concat (replicate len body) else body)) (j + len * vlen)"
proof -
  let ?c = "first_byte rep vlen len" and ?v = "if vlen > 1 then [of_nat vlen AND 127] else [] :: byte list"
  let ?xs = "pre @ run_header rep vlen len @ body @ rest"
  have h: "run_header rep vlen len = ?c # header_tail len @ ?v" by (rule run_header_eq)
  have at: "?xs ! length pre = ?c" "length pre < length ?xs" by (simp_all add: h)
  have rl: "read_length ?xs (length pre) ?c = Inr (len, length pre + length (header_tail len))"
    by (rule read_length_header [where rest = "?v @ body @ rest"]) (use assms(2) in \<open>simp_all add: h\<close>)
  have rv: "read_vlen ?xs (length pre + length (header_tail len)) ?c
      = Inr (vlen, length pre + length (header_tail len) + (if vlen > 1 then 1 else 0))"
    by (rule read_vlen_header [where rest = "body @ rest"]) (use assms(3,4) in \<open>simp_all add: h\<close>)
  have i: "Suc (length pre + length (header_tail len) + (if vlen > 1 then 1 else 0))
      = length (pre @ run_header rep vlen len)"
    by (simp add: h)
  have e: "expand_code ?xs (length (pre @ run_header rep vlen len)) ?c len vlen out j
      = Inr (write_bytes out j (if rep then concat (replicate len body) else body),
             length (pre @ run_header rep vlen len) + length body)"
  proof (cases "rep")
    case True
    then show ?thesis
      using expand_code_run [of ?c ?xs "pre @ run_header rep vlen len" body rest len] assms(3,5)
        first_byte_fields(1) [of rep vlen len] by simp
  next
    case False
    then show ?thesis
      using expand_code_literal [of ?c ?xs "pre @ run_header rep vlen len" body rest] assms(5,6)
        first_byte_fields(1) [of rep vlen len] by simp
  qed
  define src where "src = ?xs"
  define i2 where "i2 = length pre + length (header_tail len) + (if vlen > 1 then 1 else 0)"
  have "expand_loop src (length pre) out j
      = expand_loop src (length (pre @ run_header rep vlen len) + length body)
          (write_bytes out j (if rep then concat (replicate len body) else body)) (j + len * vlen)"
    using at first_byte_nonzero [OF assms(1,2)] rl rv i e gr_implies_not0 [OF assms(1) [unfolded One_nat_def Suc_le_eq]]
    unfolding src_def [symmetric] i2_def [symmetric]
    by (subst expand_loop.simps) (simp only: Let_def bindE.simps prod.case if_True if_False
        not_one_le_zero Suc_eq_plus1 [symmetric] simp_thms)
  then show ?thesis by (simp only: src_def length_append add.assoc)
qed

lemma choose_code_facts:
  assumes c: "choose_code xs i = (rep, vlen, len)" and i: "i < length xs" and "length xs \<le> MAXRUNLENGTH"
  defines "body \<equiv> take (if rep then vlen else len) (drop i xs)"
  shows "length body = (if rep then vlen else len)" and "1 \<le> len" and "len < 2 ^ 28" and "1 \<le> vlen"
    and "vlen \<le> 127" and "rep \<or> vlen = 1" and "i + len * vlen \<le> length xs"
    and "(if rep then concat (replicate len body) else body) = take (len * vlen) (drop i xs)"
proof -
  have "length body = (if rep then vlen else len) \<and> 1 \<le> len \<and> len < 2 ^ 28 \<and> 1 \<le> vlen \<and> vlen \<le> 127
    \<and> (rep \<or> vlen = 1) \<and> i + len * vlen \<le> length xs
    \<and> (if rep then concat (replicate len body) else body) = take (len * vlen) (drop i xs)"
    using c i
  proof (cases rule: choose_code_cases)
    case run
    then have g: "1 \<le> vlen" "vlen \<le> MAXVARLENGTH" "2 \<le> len" "i + len * vlen < length xs"
      "\<forall>k<len. same_bytes xs i (i + k * vlen) vlen"
      by (simp_all add: good_code_def)
    have "len \<le> len * vlen" "vlen \<le> len * vlen" using g(1,3) by simp_all
    then have "len < length xs" "min (length xs - i) vlen = vlen" using g(4) by linarith+
    then show ?thesis
      using g run(1) same_bytes_concat [OF g(5)] assms(3)
      by (simp add: body_def MAXVARLENGTH_def MAXRUNLENGTH_def)
  next
    case literal
    then show ?thesis by (simp add: body_def MAXVARLENGTH_def)
  qed
  then show "length body = (if rep then vlen else len)" and "1 \<le> len" and "len < 2 ^ 28" and "1 \<le> vlen"
    and "vlen \<le> 127" and "rep \<or> vlen = 1" and "i + len * vlen \<le> length xs"
    and "(if rep then concat (replicate len body) else body) = take (len * vlen) (drop i xs)"
    by blast+
qed

lemma expand_compress_loop:
  assumes "length xs \<le> MAXRUNLENGTH" and "i \<le> length xs"
  shows "expand_loop (pre @ compress_loop xs i) (length pre) out j
    = Inr (write_bytes out j (drop i xs), j + (length xs - i))"
  using assms
proof (induction xs i arbitrary: pre out j rule: compress_loop.induct)
  case (1 xs i)
  show ?case
  proof (cases "i < length xs")
    case False
    then show ?thesis using "1.prems"
      by (subst compress_loop.simps, subst expand_loop.simps) simp
  next
    case True
    obtain rep vlen len where c: "choose_code xs i = (rep, vlen, len)" by (cases "choose_code xs i")
    let ?body = "take (if rep then vlen else len) (drop i xs)"
    note f = choose_code_facts [OF c True "1.prems"(1)]
    have "expand_loop (pre @ compress_loop xs i) (length pre) out j
        = expand_loop ((pre @ run_header rep vlen len @ ?body) @ compress_loop xs (i + len * vlen))
            (length (pre @ run_header rep vlen len @ ?body))
            (write_bytes out j (take (len * vlen) (drop i xs))) (j + len * vlen)"
      using expand_loop_code [OF f(2-5) f(1) f(6), of pre "compress_loop xs (i + len * vlen)" out j] c True
      by (subst (1) compress_loop.simps) (simp add: Let_def f(8))
    also have "\<dots> = Inr (write_bytes (write_bytes out j (take (len * vlen) (drop i xs))) (j + len * vlen)
          (drop (i + len * vlen) xs), j + len * vlen + (length xs - (i + len * vlen)))"
      by (rule "1.IH" [OF True c [symmetric] refl refl "1.prems"(1) f(7)])
    also have "\<dots> = Inr (write_bytes out j (drop i xs), j + (length xs - i))"
      using write_bytes_append [of out j "take (len * vlen) (drop i xs)" "drop (i + len * vlen) xs"] f(7)
        append_take_drop_id [of "len * vlen" "drop i xs"]
      by (simp add: min_absorb2 add.commute)
    finally show ?thesis .
  qed
qed

text \<open>C21. expand_mine undoes compress_mine: for any input of at most 2^28 bytes the decoder,
  started on any buffer, leaves exactly the input at its front, touches nothing behind it,
  reports its length and never reads past the code.\<close>

theorem compress_mine_roundtrip:
  assumes "length xs \<le> MAXRUNLENGTH"
  shows "expand_mine (compress_mine xs) out = Inr (write_bytes out 0 xs, length xs)"
  using expand_compress_loop [OF assms, of 0 "[]"] by (simp add: expand_mine_def compress_mine_def)

lemmas compress_eval = compress_mine_def compress_loop.simps choose_code_def best_code.simps
  count_matches.simps literal_length.simps run_header_def same_bytes_def MAXRUNLENGTH_def MAXVARLENGTH_def

theorem compress_mine_roundtrip_witness:
  "expand_mine (compress_mine [7, 7, 7, 7, 1, 2, 1]) (\<lambda>_. 5) = Inr (write_bytes (\<lambda>_. 5) 0 [7, 7, 7, 7, 1, 2, 1], 7)
   \<and> compress_mine [7, 7, 7, 7, 1, 2, 1] = [132, 7, 2, 1, 2, 1, 1]"
proof -
  have "compress_mine [7, 7, 7, 7, 1, 2, 1] = [132, 7, 2, 1, 2, 1, 1]"
    by (simp add: compress_eval)
  then show ?thesis
    using compress_mine_roundtrip [of "[7, 7, 7, 7, 1, 2, 1]" "\<lambda>_. 5"]
    by (simp add: MAXRUNLENGTH_def)
qed

text \<open>
  The encoder never needs more than twice the size of its input: a buffer of
  \<open>RDFSTORE_MAXRECORDS_BYTES_SIZE\<close> bytes is enough for half as many bytes.
\<close>

lemma compress_loop_length:
  assumes "length xs \<le> MAXRUNLENGTH"
  shows "length (compress_loop xs i) \<le> 2 * (length xs - i)"
  using assms
proof (induction xs i rule: compress_loop.induct)
  case (1 xs i)
  show ?case
  proof (cases "i < length xs")
    case True
    obtain rep vlen len where c: "choose_code xs i = (rep, vlen, len)" by (cases "choose_code xs i")
    note f = choose_code_facts [OF c True "1.prems"]
    have "length (compress_loop xs (i + len * vlen)) \<le> 2 * (length xs - (i + len * vlen))"
      by (rule "1.IH" [OF True c [symmetric] refl refl "1.prems"])
    moreover have "length (run_header rep vlen len) + (if rep then vlen else len) \<le> 2 * (len * vlen)"
      using c True
    proof (cases rule: choose_code_cases)
      case run
      then have "2 \<le> len" "1 \<le> vlen" by (simp_all add: good_code_def)
      define p where "p = len * vlen"
      have "2 * vlen \<le> p" "len \<le> p" "vlen > 1 \<Longrightarrow> 2 * len \<le> p"
        using \<open>2 \<le> len\<close> \<open>1 \<le> vlen\<close> by (simp_all add: p_def)
      then show ?thesis using run(1) \<open>2 \<le> len\<close> \<open>1 \<le> vlen\<close>
        unfolding run_header_eq header_tail_def p_def [symmetric] by (auto split: if_splits)
    next
      case literal
      then show ?thesis by (auto simp: run_header_eq header_tail_def)
    qed
    ultimately show ?thesis
      using c True f(1,7) by (subst compress_loop.simps) (simp add: Let_def)
  qed (subst compress_loop.simps, simp)
qed

theorem compress_mine_size:
  assumes "length xs \<le> MAXRUNLENGTH"
  shows "length (compress_mine xs) \<le> 2 * length xs"
  using compress_loop_length [OF assms, of 0] by (simp add: compress_mine_def)

theorem compress_mine_size_witness:
  "length (compress_mine [4, 4]) = 2 * length [4, 4 :: byte] \<and> length [4, 4 :: byte] \<le> MAXRUNLENGTH"
proof -
  have "length (compress_mine [4, 4]) \<le> 2 * length [4, 4 :: byte]"
    by (rule compress_mine_size) (simp add: MAXRUNLENGTH_def)
  moreover have "compress_mine [4, 4] = [1, 4, 1, 4]" by (simp add: compress_eval)
  ultimately show ?thesis by (simp add: MAXRUNLENGTH_def)
qed

end
