(* ===== verification/Fraenkel.thy ===== *)
theory Fraenkel
  imports Prelude
begin

text \<open>
  The hierarchical coder of \<open>src/fraenkel_compress.c\<close>: the non-zero bytes of the input, then
  those of the vector that has one bit per input byte, and so on up to a vector of one byte.
  The decoder reads the code from its end. Its array \<open>dst\<close> of \<open>1024*256\<close> bytes is the list
  of the bytes written so far; a write past it and a read before the start of the code are
  errors. A loop that does not end is \<open>None\<close>.
\<close>

datatype fraenkel_fault = Input_too_long | Read_before_start | Write_past_end

section \<open>Encoder\<close>

text \<open>One pass: the bytes it appends to \<open>dst\<close> and the bytes it leaves in \<open>tmp\<close>\<close>

fun compress_pass :: "byte list \<Rightarrow> nat \<Rightarrow> byte \<Rightarrow> byte list \<times> byte list" where
  "compress_pass [] i r = ([], if i mod 8 \<noteq> 0 then [r] else [])"
| "compress_pass (b # bs) i r =
     (let r = (if b \<noteq> 0 then r OR push_bit (i mod 8) 1 else r);
          (dst, tmp) = compress_pass bs (Suc i) (if i mod 8 = 7 then 0 else r)
      in ((if b \<noteq> 0 then [b] else []) @ dst, (if i mod 8 = 7 then [r] else []) @ tmp))"

text \<open>The passes, until \<open>len\<close> is 1\<close>

partial_function (option) compress_passes :: "byte list \<Rightarrow> byte list option" where
  "compress_passes msrc =
     (case compress_pass msrc 0 0 of (dst, tmp) \<Rightarrow>
        if length tmp \<noteq> 1 then Option.bind (compress_passes tmp) (\<lambda>rest. Some (dst @ rest))
        else Some (dst @ [tmp ! 0]))"

definition compress_fraenkel :: "byte list \<Rightarrow> (fraenkel_fault + byte list) option" where
  "compress_fraenkel src =
     (if \<not> length src < 1024 * 256 then Some (Inl Input_too_long)
      else map_option Inr (compress_passes src))"

section \<open>Decoder\<close>

definition DST_SIZE :: nat where
  "DST_SIZE = 1024 * 256"

text \<open>The bits of one byte \<open>m\<close> of the previous run, from bit 7 down; \<open>s\<close> bytes of the code are left.\<close>

fun expand_bits :: "byte list \<Rightarrow> byte \<Rightarrow> nat list \<Rightarrow> nat \<times> byte list \<Rightarrow> fraenkel_fault + (nat \<times> byte list)" where
  "expand_bits src m [] st = Inr st"
| "expand_bits src m (k # ks) (s, dst) =
     (if \<not> length dst < DST_SIZE then Inl Write_past_end
      else if bit m k then
        if s = 0 then Inl Read_before_start
        else expand_bits src m ks (s - 1, dst @ [src ! (s - 1)])
      else expand_bits src m ks (s, dst @ [0]))"

fun expand_run :: "byte list \<Rightarrow> byte list \<Rightarrow> nat \<times> byte list \<Rightarrow> fraenkel_fault + (nat \<times> byte list)" where
  "expand_run src [] st = Inr st"
| "expand_run src (m # ms) st = bindE (expand_bits src m (rev [0..<8]) st) (expand_run src ms)"

text \<open>\<open>f\<close> is the start of the previous run in \<open>dst\<close> and \<open>pass\<close> its length.\<close>

partial_function (option) expand_passes ::
  "byte list \<Rightarrow> nat \<Rightarrow> byte list \<Rightarrow> nat \<Rightarrow> nat \<Rightarrow> (fraenkel_fault + byte list) option"
where
  "expand_passes src s dst f pass =
     (case expand_run src (map ((!) dst) [f..<f + pass]) (s, dst) of
        Inl e \<Rightarrow> Some (Inl e)
      | Inr (s', dst') \<Rightarrow>
          if s' > 0 then expand_passes src s' dst' (length dst) (pass * 8)
          else Some (Inr (rev (drop (length dst) dst'))))"

definition expand_fraenkel :: "byte list \<Rightarrow> (fraenkel_fault + byte list) option" where
  "expand_fraenkel src =
     (if length src = 0 then Some (Inl Read_before_start)
      else expand_passes src (length src - 1) [src ! (length src - 1)] 0 1)"

section \<open>The vectors of a level\<close>

text \<open>The byte whose bit \<open>k\<close> says that byte \<open>k\<close> is not zero\<close>

definition flag_byte :: "byte list \<Rightarrow> byte" where
  "flag_byte ws = horner_sum of_bool 2 (map (\<lambda>b. b \<noteq> 0) ws)"

fun summary :: "byte list \<Rightarrow> byte list" where
  "summary [] = []"
| "summary (b # bs) = flag_byte (take 8 (b # bs)) # summary (drop 7 bs)"

abbreviation nonzeros :: "byte list \<Rightarrow> byte list" where
  "nonzeros xs \<equiv> filter (\<lambda>b. b \<noteq> 0) xs"

lemma bit_flag_byte: "bit (flag_byte ws) k \<longleftrightarrow> k < 8 \<and> k < length ws \<and> ws ! k \<noteq> 0"
  by (auto simp: flag_byte_def bit_horner_sum_bit_iff)

lemma flag_byte_Nil [simp]: "flag_byte [] = 0"
  by (simp add: flag_byte_def)

lemma summary_step: "xs \<noteq> [] \<Longrightarrow> summary xs = flag_byte (take 8 xs) # summary (drop 8 xs)"
  by (cases xs) simp_all

lemma summary_short: "0 < length p \<Longrightarrow> length p \<le> 8 \<Longrightarrow> summary p = [flag_byte p]"
  by (subst summary_step) auto

lemma summary_chunk: "length p = 8 \<Longrightarrow> summary (p @ xs) = flag_byte p # summary xs"
  by (subst summary_step) auto

lemma summary_snoc:
  assumes "length u = 8 * n" and "length c = 8"
  shows "summary (u @ c) = summary u @ [flag_byte c]"
  using assms(1)
proof (induction n arbitrary: u)
  case 0
  then show ?case using assms(2) by (simp add: summary_short)
next
  case (Suc n)
  then have "length (take 8 u) = 8" "length (drop 8 u) = 8 * n" by simp_all
  moreover have "take 8 u @ drop 8 u = u" by simp
  ultimately show ?case
    using Suc.IH [of "drop 8 u"] summary_chunk [of "take 8 u"] by (metis append_Cons append_assoc)
qed

lemma length_summary: "length (summary xs) = (length xs + 7) div 8"
proof (induction xs rule: summary.induct)
  case (2 b bs)
  then show ?case by (cases "length bs \<le> 7") auto
qed simp

lemma flag_byte_snoc:
  assumes "length p < 8"
  shows "flag_byte (p @ [b]) = (if b \<noteq> 0 then flag_byte p OR push_bit (length p) 1 else flag_byte p)"
  using assms
  by (auto intro!: bit_word_eqI simp: bit_flag_byte bit_simps nth_append less_Suc_eq)

lemma compress_pass_eq:
  assumes "i mod 8 = length p"
  shows "compress_pass bs i (flag_byte p) = (nonzeros bs, summary (p @ bs))"
  using assms
proof (induction bs arbitrary: i p)
  case Nil
  have "length p < 8" using Nil by (metis mod_less_divisor zero_less_numeral)
  then show ?case using Nil by (auto simp: summary_short)
next
  case (Cons b bs)
  have p: "length p < 8" using Cons.prems by (metis mod_less_divisor zero_less_numeral)
  show ?case
  proof (cases "length p = 7")
    case True
    then have "Suc i mod 8 = length ([] :: byte list)" using Cons.prems by (simp add: mod_Suc)
    from Cons.IH [OF this] True p Cons.prems summary_chunk [of "p @ [b]" bs]
    show ?thesis by (auto simp: flag_byte_snoc Let_def)
  next
    case False
    then have "Suc i mod 8 = length (p @ [b])" using Cons.prems p by (simp add: mod_Suc)
    from Cons.IH [OF this] False p Cons.prems
    show ?thesis by (auto simp: flag_byte_snoc Let_def)
  qed
qed

lemma compress_pass_0: "compress_pass bs 0 0 = (nonzeros bs, summary bs)"
  using compress_pass_eq [of 0 "[]" bs] by simp

lemma compress_passes_step:
  "compress_passes xs =
     (if length (summary xs) \<noteq> 1 then map_option ((@) (nonzeros xs)) (compress_passes (summary xs))
      else Some (nonzeros xs @ summary xs))"
  by (subst compress_passes.simps)
    (auto simp: compress_pass_0 length_Suc_conv split: option.splits, auto simp: bind_eq_Some_conv map_option_case split: option.splits)


lemma expand_bits_eq:
  assumes "\<And>k. k < length w \<Longrightarrow> bit m k \<longleftrightarrow> w ! k \<noteq> 0" and "take s src = pre @ nonzeros w" and "s \<le> length src"
    and "length dst \<le> DST_SIZE"
  shows "expand_bits src m (rev [0..<length w]) (s, dst)
    = (if length dst + length w \<le> DST_SIZE then Inr (length pre, dst @ rev w) else Inl Write_past_end)"
  using assms
proof (induction w arbitrary: s dst rule: rev_induct)
  case Nil
  then show ?case by auto
next
  case (snoc b w)
  have m: "bit m k \<longleftrightarrow> w ! k \<noteq> 0" if "k < length w" for k
    using snoc.prems(1) [of k] that by (simp add: nth_append)
  have b: "bit m (length w) \<longleftrightarrow> b \<noteq> 0" using snoc.prems(1) [of "length w"] by simp
  show ?case
  proof (cases "length dst < DST_SIZE")
    case False
    then show ?thesis using snoc.prems(4) by simp
  next
    case True
    show ?thesis
    proof (cases "b = 0")
      case b0: True
      then show ?thesis
        using snoc.IH [of s "dst @ [0]"] m b True snoc.prems(2,3) by simp
    next
      case False
      have s: "s > 0" using snoc.prems(2) False by (cases s) simp_all
      then have "take (s - 1) src @ [src ! (s - 1)] = (pre @ nonzeros w) @ [b]"
        using snoc.prems(2,3) False take_Suc_conv_app_nth [of "s - 1" src] by simp
      then have "take (s - 1) src = pre @ nonzeros w" "src ! (s - 1) = b" by (simp_all only: append1_eq_conv)
      then show ?thesis
        using snoc.IH [of "s - 1" "dst @ [b]"] m b True s False snoc.prems(3) by simp
    qed
  qed
qed

lemma take_prefix_of: "take s src = a @ b \<Longrightarrow> take (length a) src = a"
  by (metis append.assoc append_eq_conv_conj append_take_drop_id)

lemma expand_run_eq:
  assumes "length v = 8 * n" and "take s src = pre @ nonzeros v" and "s \<le> length src" and "length dst \<le> DST_SIZE"
  shows "expand_run src (rev (summary v)) (s, dst)
    = (if length dst + length v \<le> DST_SIZE then Inr (length pre, dst @ rev v) else Inl Write_past_end)"
  using assms
proof (induction n arbitrary: v s dst)
  case 0
  then show ?case by auto
next
  case (Suc n)
  define u c where "u = take (8 * n) v" and "c = drop (8 * n) v"
  have v: "v = u @ c" and u: "length u = 8 * n" and c: "length c = 8"
    using Suc.prems(1) by (simp_all add: u_def c_def)
  have "expand_bits src (flag_byte c) (rev [0..<length c]) (s, dst)
      = (if length dst + length c \<le> DST_SIZE then Inr (length (pre @ nonzeros u), dst @ rev c) else Inl Write_past_end)"
    by (rule expand_bits_eq) (use Suc.prems c in \<open>simp_all add: bit_flag_byte v\<close>)
  moreover have "take (length (pre @ nonzeros u)) src = pre @ nonzeros u"
    by (rule take_prefix_of [where b = "nonzeros c" and s = s]) (use Suc.prems(2) in \<open>simp add: v\<close>)
  moreover have "length (pre @ nonzeros u) \<le> length src"
    using calculation(2) by (metis length_take min.cobounded1)
  ultimately show ?case
    using Suc.IH [OF u, of "length (pre @ nonzeros u)" "dst @ rev c"] c
    by (simp add: v summary_snoc [OF u c] u)
qed

section \<open>Round trip\<close>

text \<open>The bytes of \<open>dst\<close> before level \<open>n\<close>\<close>

fun level_start :: "nat \<Rightarrow> nat" where
  "level_start 0 = 0"
| "level_start (Suc n) = level_start n + 8 ^ n"

lemma nonzeros_zeros [simp]: "nonzeros (replicate n 0) = []"
  by simp

lemma flag_byte_zeros [simp]: "flag_byte (replicate n 0) = 0"
  by (rule bit_word_eqI) (simp add: bit_flag_byte)

lemma flag_byte_pad: "flag_byte (xs @ replicate n 0) = flag_byte xs"
  by (rule bit_word_eqI) (auto simp: bit_flag_byte nth_append)

lemma summary_zeros: "summary (replicate (8 * n) 0) = replicate n 0"
proof (induction n)
  case (Suc n)
  have "summary (replicate (8 * Suc n) 0) = summary (replicate 8 0 @ replicate (8 * n) 0)"
    by (simp only: replicate_add [symmetric] mult_Suc_right)
  then show ?case using Suc by (simp add: summary_chunk)
qed simp

text \<open>Padding a level to a power of eight pads its summary.\<close>

lemma summary_pad:
  assumes "length xs + z = 8 * (length (summary xs) + z')"
  shows "summary (xs @ replicate z 0) = summary xs @ replicate z' 0"
  using assms
proof (induction xs rule: summary.induct)
  case 1
  then show ?case using summary_zeros [of z'] by simp
next
  case (2 b bs)
  show ?case
  proof (cases "length bs \<ge> 7")
    case True
    then obtain p q where bs: "bs = p @ q" "length p = 7"
      by (metis append_take_drop_id length_take min.absorb2)
    have "summary ((b # p) @ q @ replicate z 0) = flag_byte (b # p) # summary (q @ replicate z 0)"
      by (rule summary_chunk) (simp add: bs)
    then show ?thesis using 2 by (simp add: bs)
  next
    case False
    then have s: "summary (b # bs) = [flag_byte (b # bs)]" by simp
    define k where "k = 7 - length bs"
    have z: "z = k + 8 * z'" using 2(2) False by (simp add: s k_def)
    have "summary ((b # bs @ replicate k 0) @ replicate (8 * z') 0)
        = flag_byte (b # bs @ replicate k 0) # summary (replicate (8 * z') 0)"
      by (rule summary_chunk) (use False in \<open>simp add: k_def\<close>)
    moreover have "(b # bs) @ replicate z 0 = (b # bs @ replicate k 0) @ replicate (8 * z') 0"
      by (simp add: z replicate_add)
    ultimately show ?thesis
      using flag_byte_pad [of "b # bs" k] by (simp only: s summary_zeros append_Cons append_Nil)
  qed
qed

lemma flag_byte_eq_0: "length w \<le> 8 \<Longrightarrow> flag_byte w = 0 \<longleftrightarrow> nonzeros w = []"
proof -
  assume "length w \<le> 8"
  then have "(\<forall>k<8. \<not> bit (flag_byte w) k) \<longleftrightarrow> nonzeros w = []"
    by (auto simp: bit_flag_byte filter_empty_conv all_set_conv_all_nth)
  then show ?thesis by (simp add: byte_eq_0_iff [of "flag_byte w"])
qed

lemma nonzeros_summary: "nonzeros xs \<noteq> [] \<Longrightarrow> nonzeros (summary xs) \<noteq> []"
proof (induction xs rule: summary.induct)
  case (2 b bs)
  define p q where "p = take 7 bs" and "q = drop 7 bs"
  then have bs: "bs = p @ q" and "length p \<le> 7" by simp_all
  then have "flag_byte (b # p) = 0 \<longleftrightarrow> nonzeros (b # p) = []" by (intro flag_byte_eq_0) simp
  then show ?case using 2 by (auto simp: p_def [symmetric] q_def [symmetric]) (auto simp: bs)
qed simp

lemma expand_pass:
  assumes "src = pre @ nonzeros xs @ rest" and "length xs + z = 8 * n"
    and "summary (xs @ replicate z 0) = sv" and "length sv = p" and "length d + p \<le> DST_SIZE"
  shows "expand_passes src (length (pre @ nonzeros xs)) (d @ rev sv) (length d) p
    = (if length d + p + 8 * n \<le> DST_SIZE then
         (if pre \<noteq> [] then expand_passes src (length pre) ((d @ rev sv) @ rev (xs @ replicate z 0)) (length (d @ rev sv)) (p * 8)
          else Some (Inr (xs @ replicate z 0)))
       else Some (Inl Write_past_end))"
proof -
  have "map ((!) (d @ rev sv)) [length d..<length d + p] = rev sv"
    using assms(4) by (intro nth_equalityI) (simp_all add: nth_append)
  moreover have "expand_run src (rev (summary (xs @ replicate z 0))) (length (pre @ nonzeros xs), d @ rev sv)
      = (if length (d @ rev sv) + length (xs @ replicate z 0) \<le> DST_SIZE
         then Inr (length pre, (d @ rev sv) @ rev (xs @ replicate z 0)) else Inl Write_past_end)"
    by (rule expand_run_eq [where n = n]) (use assms in simp_all)
  ultimately show ?thesis
    using assms by (subst expand_passes.simps) simp
qed

lemma length_summary_less: "xs \<noteq> [] \<Longrightarrow> length (summary xs) \<noteq> 1 \<Longrightarrow> length (summary xs) < length xs"
  unfolding length_summary by (cases xs) auto

text \<open>The decoder brings back the padded input as its last run when enough of the code is left before it.\<close>

definition decodes :: "byte list \<Rightarrow> byte list \<Rightarrow> nat \<Rightarrow> bool" where
  "decodes enc xs n \<longleftrightarrow>
     (\<exists>z d. length xs + z = 8 ^ n \<and> length d = level_start n \<and> (\<forall>pre.
        expand_passes (pre @ enc) (length (pre @ enc) - 1) [last enc] 0 1
        = (if pre \<noteq> [] then expand_passes (pre @ enc) (length pre) (d @ rev (xs @ replicate z 0)) (length d) (8 ^ n)
           else Some (Inr (xs @ replicate z 0)))))"

lemma compress_passes_total:
  assumes "xs \<noteq> []"
  shows "\<exists>enc. compress_passes xs = Some enc \<and> enc \<noteq> []"
  using assms
proof (induction xs rule: measure_induct_rule [of length])
  case (less xs)
  show ?case
  proof (cases "length (summary xs) = 1")
    case True
    then have "summary xs \<noteq> []" by auto
    with True show ?thesis by (subst compress_passes_step) simp
  next
    case False
    have "summary xs \<noteq> []" using less.prems by (cases xs) simp_all
    then show ?thesis
      using less.IH [OF length_summary_less [OF less.prems False]] False
      by (subst compress_passes_step) auto
  qed
qed

lemma level_start_mono: "m \<le> n \<Longrightarrow> level_start m \<le> level_start n"
  by (induction n) (auto simp: le_Suc_eq)

lemma level_start_values: "level_start 5 = 4681" "level_start 6 = 37449"
proof -
  have "(5::nat) = Suc (Suc (Suc (Suc (Suc 0))))" "(6::nat) = Suc 5" by simp_all
  then show five: "level_start 5 = 4681" by (simp only: level_start.simps) simp
  have "level_start (Suc 5) = 37449" by (subst level_start.simps(2), subst five) simp
  then show "level_start 6 = 37449" by simp
qed

lemma compress_decodes:
  assumes "compress_passes xs = Some enc" and "nonzeros xs \<noteq> []" and "length xs \<le> 8 ^ Suc n"
    and "n = 0 \<or> 8 ^ n < length xs" and "level_start (n + 2) \<le> DST_SIZE"
  shows "decodes enc xs (Suc n)"
  using assms
proof (induction n arbitrary: xs enc)
  case 0
  then have "xs \<noteq> []" "length xs \<le> 8" by auto
  then have s: "summary xs = [flag_byte xs]" by (intro summary_short) simp_all
  have enc: "enc = nonzeros xs @ [flag_byte xs]"
    using 0(1) by (subst (asm) compress_passes_step) (simp add: s)
  have len: "length xs + (8 - length xs) = 8 * 1" using \<open>length xs \<le> 8\<close> by simp
  have pad: "summary (xs @ replicate (8 - length xs) 0) = [flag_byte xs]"
    using summary_pad [of xs "8 - length xs" 0] len by (simp add: s)
  have "expand_passes (pre @ enc) (length (pre @ enc) - 1) [last enc] 0 1
      = (if pre \<noteq> [] then expand_passes (pre @ enc) (length pre)
            ([flag_byte xs] @ rev (xs @ replicate (8 - length xs) 0)) 1 8
         else Some (Inr (xs @ replicate (8 - length xs) 0)))" for pre
    using expand_pass [of "pre @ enc" pre xs "[flag_byte xs]" "8 - length xs" 1 "[flag_byte xs]" 1 "[]"] len pad
    by (simp add: enc DST_SIZE_def)
  then show ?case
    unfolding decodes_def using len
    by (intro exI [of _ "8 - length xs"] exI [of _ "[flag_byte xs]"]) simp
next
  case (Suc n)
  define ys where "ys = summary xs"
  have lys: "length ys \<le> 8 ^ Suc n" "8 ^ n < length ys"
    using Suc.prems(3,4) by (auto simp: ys_def length_summary)
  moreover have "(1::nat) \<le> 8 ^ n" by simp
  ultimately have "length ys \<noteq> 1" by linarith
  then obtain enc' where enc': "compress_passes ys = Some enc'" and enc: "enc = nonzeros xs @ enc'"
    using Suc.prems(1) by (subst (asm) compress_passes_step) (auto simp: ys_def)
  have "level_start (n + 2) \<le> DST_SIZE"
    using Suc.prems(5) level_start_mono [of "n + 2" "Suc n + 2"] by simp
  then have "decodes enc' ys (Suc n)"
    using Suc.IH [OF enc'] nonzeros_summary [OF Suc.prems(2)] lys by (simp add: ys_def)
  then obtain z' d where z': "length ys + z' = 8 ^ Suc n" and d: "length d = level_start (Suc n)"
    and dec: "\<And>pre. expand_passes (pre @ enc') (length (pre @ enc') - 1) [last enc'] 0 1
        = (if pre \<noteq> [] then expand_passes (pre @ enc') (length pre) (d @ rev (ys @ replicate z' 0)) (length d) (8 ^ Suc n)
           else Some (Inr (ys @ replicate z' 0)))"
    unfolding decodes_def by blast
  define z where "z = 8 ^ Suc (Suc n) - length xs"
  have z: "length xs + z = 8 * (length ys + z')" using Suc.prems(3) z' by (simp add: z_def)
  have sv: "summary (xs @ replicate z 0) = ys @ replicate z' 0"
    using summary_pad [OF z [unfolded ys_def]] by (simp add: ys_def)
  have "ys \<noteq> []" using lys by auto
  then have last: "last enc = last enc'" 
    using compress_passes_total [of ys] enc' by (auto simp: enc)
  have "expand_passes (pre @ enc) (length (pre @ enc) - 1) [last enc] 0 1
      = (if pre \<noteq> [] then expand_passes (pre @ enc) (length pre)
            ((d @ rev (ys @ replicate z' 0)) @ rev (xs @ replicate z 0)) (length (d @ rev (ys @ replicate z' 0))) (8 ^ Suc (Suc n))
         else Some (Inr (xs @ replicate z 0)))" for pre
  proof -
    have "expand_passes (pre @ enc) (length (pre @ enc) - 1) [last enc] 0 1
        = expand_passes (pre @ enc) (length (pre @ nonzeros xs)) (d @ rev (ys @ replicate z' 0)) (length d) (8 ^ Suc n)"
      using dec [of "pre @ nonzeros xs"] Suc.prems(2) last by (simp add: enc)
    then show ?thesis
      using expand_pass [of "pre @ enc" pre xs enc' z "8 ^ Suc n" "ys @ replicate z' 0" "8 ^ Suc n" d]
        z z' sv d Suc.prems(5) by (simp add: enc mult.commute)
  qed
  then show ?case
    unfolding decodes_def using z z' d
    by (intro exI [of _ z] exI [of _ "d @ rev (ys @ replicate z' 0)"]) simp
qed

lemma level_exists:
  "1 \<le> m \<Longrightarrow> m \<le> 8 ^ Suc k \<Longrightarrow> \<exists>n\<le>k. m \<le> 8 ^ Suc n \<and> (n = 0 \<or> 8 ^ n < m)" for m :: nat
proof (induction k)
  case (Suc k)
  show ?case
  proof (cases "m \<le> 8 ^ Suc k")
    case True
    with Suc show ?thesis by (meson le_SucI)
  next
    case False
    with Suc show ?thesis by (intro exI [of _ "Suc k"]) simp
  qed
qed simp

lemma expand_fraenkel_eq:
  "enc \<noteq> [] \<Longrightarrow> expand_fraenkel enc = expand_passes enc (length enc - 1) [last enc] 0 1"
  by (simp add: expand_fraenkel_def last_conv_nth)

lemma fraenkel_roundtrip:
  assumes "\<exists>b\<in>set xs. b \<noteq> 0" and "length xs \<le> 32768"
  shows "\<exists>enc k. compress_fraenkel xs = Some (Inr enc) \<and> expand_fraenkel enc = Some (Inr (xs @ replicate k 0))"
proof -
  have nz: "nonzeros xs \<noteq> []" "xs \<noteq> []" using assms(1) by (auto simp: filter_empty_conv)
  then obtain enc where enc: "compress_passes xs = Some enc" "enc \<noteq> []"
    using compress_passes_total by blast
  have "1 \<le> length xs" using nz by (cases xs) simp_all
  then obtain n where n: "n \<le> 4" "length xs \<le> 8 ^ Suc n" "n = 0 \<or> 8 ^ n < length xs"
    using level_exists [of "length xs" 4] assms(2) by auto
  have "level_start (n + 2) \<le> level_start 6" using n(1) by (intro level_start_mono) simp
  also have "\<dots> \<le> DST_SIZE" by (simp add: DST_SIZE_def level_start_values)
  finally have "decodes enc xs (Suc n)" by (rule compress_decodes [OF enc(1) nz(1) n(2,3)])
  then obtain z d where "\<And>pre. expand_passes (pre @ enc) (length (pre @ enc) - 1) [last enc] 0 1
        = (if pre \<noteq> [] then expand_passes (pre @ enc) (length pre) (d @ rev (xs @ replicate z 0)) (length d) (8 ^ Suc n)
           else Some (Inr (xs @ replicate z 0)))"
    unfolding decodes_def by blast
  from this [of "[]"] show ?thesis
    using enc assms(2) by (intro exI [of _ enc] exI [of _ z]) (simp add: expand_fraenkel_eq compress_fraenkel_def)
qed

text \<open>C24. For every vector with a bit set of more than 32768 and fewer than 262144 bytes,
  which the encoder accepts, the decoder writes past the end of its array of 262144 bytes.\<close>

theorem fraenkel_overflow:
  assumes "\<exists>b\<in>set xs. b \<noteq> 0" and "32768 < length xs" and "length xs < 1024 * 256"
  shows "\<exists>enc. compress_fraenkel xs = Some (Inr enc) \<and> expand_fraenkel enc = Some (Inl Write_past_end)"
proof -
  define ys where "ys = summary xs"
  have nz: "nonzeros xs \<noteq> []" "xs \<noteq> []" using assms(1) by (auto simp: filter_empty_conv)
  have lys: "length ys \<le> 8 ^ Suc 4" "8 ^ 4 < length ys"
    using assms by (auto simp: ys_def length_summary)
  then obtain enc' where enc': "compress_passes ys = Some enc'" "enc' \<noteq> []"
    using compress_passes_total [of ys] by force
  have enc: "compress_passes xs = Some (nonzeros xs @ enc')"
    using lys enc'(1) by (subst compress_passes_step) (simp add: ys_def)
  have "level_start (4 + 2) \<le> DST_SIZE" by (simp add: DST_SIZE_def level_start_values)
  then have "decodes enc' ys (Suc 4)"
    using nonzeros_summary [OF nz(1)] lys by (intro compress_decodes [OF enc'(1)]) (simp_all add: ys_def)
  then obtain z' d where z': "length ys + z' = 8 ^ Suc 4" and d: "length d = level_start (Suc 4)"
    and dec: "\<And>pre. expand_passes (pre @ enc') (length (pre @ enc') - 1) [last enc'] 0 1
        = (if pre \<noteq> [] then expand_passes (pre @ enc') (length pre) (d @ rev (ys @ replicate z' 0)) (length d) (8 ^ Suc 4)
           else Some (Inr (ys @ replicate z' 0)))"
    unfolding decodes_def by blast
  define z where "z = 8 ^ 6 - length xs"
  have z: "length xs + z = 8 * (length ys + z')" using assms(3) z' by (simp add: z_def)
  have sv: "summary (xs @ replicate z 0) = ys @ replicate z' 0"
    using summary_pad [OF z [unfolded ys_def]] by (simp add: ys_def)
  have lv: "level_start (Suc 4) = 4681" by (simp add: level_start_values)
  have "expand_fraenkel (nonzeros xs @ enc') = expand_passes (nonzeros xs @ enc') (length (nonzeros xs))
      (d @ rev (ys @ replicate z' 0)) (length d) (8 ^ Suc 4)"
    using dec [of "nonzeros xs"] nz enc'(2) by (simp add: expand_fraenkel_eq)
  also have "\<dots> = Some (Inl Write_past_end)"
    using expand_pass [of "nonzeros xs @ enc'" "[]" xs enc' z "8 ^ Suc 4" "ys @ replicate z' 0" "8 ^ Suc 4" d]
      z z' sv d lv by (simp add: DST_SIZE_def)
  finally show ?thesis using enc assms(3) by (intro exI) (auto simp: compress_fraenkel_def)
qed


theorem fraenkel_overflow_witness:
  "\<exists>enc. compress_fraenkel (replicate 40000 7) = Some (Inr enc) \<and> expand_fraenkel enc = Some (Inl Write_past_end)"
  by (rule fraenkel_overflow) simp_all

end
