(* ===== verification/Compress.thy ===== *)
theory Compress
  imports MyCompress Fraenkel
begin

text \<open>
  The choice of a pair of coders, \<open>rdfstore_compress_init\<close> of \<open>src/rdfstore_compress.c\<close>. A
  coder maps the bytes at \<open>src\<close>, and the previous contents of the buffer \<open>dst\<close>, to the bytes
  it leaves in \<open>dst\<close>; \<open>None\<close> is a coder that does not return. The coders of the vendored SFL
  library are a parameter. \<open>env\<close> is the number in the environment variable
  \<open>RDFSTORE_COMPRESSION\<close>, if it is set.
\<close>

datatype coder_fault = Expand_fault expand_fault | Fraenkel_fault fraenkel_fault

type_synonym coder = "mem \<Rightarrow> byte list \<Rightarrow> (coder_fault + byte list) option"

record sfl =
  compress_nulls :: "byte list \<Rightarrow> byte list"
  expand_nulls :: "byte list \<Rightarrow> byte list"
  compress_bits :: "byte list \<Rightarrow> byte list"
  expand_bits_sfl :: "byte list \<Rightarrow> byte list"
  compress_block :: "byte list \<Rightarrow> byte list"
  expand_block :: "byte list \<Rightarrow> byte list"
  compress_rle :: "byte list \<Rightarrow> byte list"
  expand_rle :: "byte list \<Rightarrow> byte list"

definition pure_coder :: "(byte list \<Rightarrow> byte list) \<Rightarrow> coder" where
  "pure_coder f buf src = Some (Inr (f src))"

definition bcopy_coder :: coder where
  "bcopy_coder buf src = Some (Inr src)"

definition expand_mine_coder :: coder where
  "expand_mine_coder buf src = (case expand_mine src buf of
     Inl e \<Rightarrow> Some (Inl (Expand_fault e))
   | Inr (out, n) \<Rightarrow> Some (Inr (map out [0..<n])))"

definition fraenkel_coder :: "(byte list \<Rightarrow> (fraenkel_fault + byte list) option) \<Rightarrow> coder" where
  "fraenkel_coder f buf src = (case f src of
     None \<Rightarrow> None
   | Some (Inl e) \<Rightarrow> Some (Inl (Fraenkel_fault e))
   | Some (Inr bs) \<Rightarrow> Some (Inr bs))"

text \<open>The enumeration starts at 1.\<close>

datatype compression_type =
  TYPE_NONE | TYPE_NULLS | TYPE_BITS | TYPE_BLOCK | TYPE_RLE | TYPE_FRAENKEL | TYPE_ORIGINAL | TYPE_DEFAULT

definition type_of_int :: "int \<Rightarrow> compression_type option" where
  "type_of_int n =
     (if 1 \<le> n \<and> n \<le> 8
      then Some ([TYPE_NONE, TYPE_NULLS, TYPE_BITS, TYPE_BLOCK, TYPE_RLE, TYPE_FRAENKEL, TYPE_ORIGINAL, TYPE_DEFAULT]
                 ! nat (n - 1))
      else None)"

text \<open>The pair \<open>(func_decode, func_encode)\<close>; \<open>None\<close> is \<open>exit(1)\<close>.\<close>

definition coders :: "sfl \<Rightarrow> compression_type \<Rightarrow> coder \<times> coder" where
  "coders S t = (case t of
     TYPE_NONE \<Rightarrow> (bcopy_coder, bcopy_coder)
   | TYPE_BITS \<Rightarrow> (pure_coder (expand_bits_sfl S), pure_coder (compress_bits S))
   | TYPE_BLOCK \<Rightarrow> (pure_coder (expand_block S), pure_coder (compress_block S))
   | TYPE_RLE \<Rightarrow> (pure_coder (expand_rle S), pure_coder (compress_rle S))
   | TYPE_FRAENKEL \<Rightarrow> (fraenkel_coder expand_fraenkel, fraenkel_coder compress_fraenkel)
   | TYPE_ORIGINAL \<Rightarrow> (expand_mine_coder, pure_coder compress_mine)
   | TYPE_DEFAULT \<Rightarrow> (pure_coder (expand_nulls S), pure_coder (compress_nulls S))
   | TYPE_NULLS \<Rightarrow> (pure_coder (expand_nulls S), pure_coder (compress_nulls S)))"

definition rdfstore_compress_init :: "sfl \<Rightarrow> int option \<Rightarrow> int \<Rightarrow> (coder \<times> coder) option" where
  "rdfstore_compress_init S env ty =
     (let ty = (if type_of_int ty = Some TYPE_DEFAULT
                then (case env of None \<Rightarrow> ty | Some n \<Rightarrow> if n \<noteq> 0 then n else ty) else ty)
      in map_option (coders S) (type_of_int ty))"

section \<open>Every pair is lossless\<close>

text \<open>The pairs of the SFL library bring the input back.\<close>

definition sfl_laws :: "sfl \<Rightarrow> bool" where
  "sfl_laws S \<longleftrightarrow> (\<forall>xs. expand_nulls S (compress_nulls S xs) = xs \<and> expand_bits_sfl S (compress_bits S xs) = xs
     \<and> expand_block S (compress_block S xs) = xs \<and> expand_rle S (compress_rle S xs) = xs)"

text \<open>
  Decoding gives the input and zeros after it, whatever the buffers held: as a bit vector, the
  input.
\<close>

definition lossless :: "coder \<times> coder \<Rightarrow> byte list \<Rightarrow> bool" where
  "lossless p xs \<longleftrightarrow> (\<forall>buf buf'. \<exists>ys k. snd p buf xs = Some (Inr ys)
     \<and> fst p buf' ys = Some (Inr (xs @ replicate k 0)))"

lemma lossless_pure: "(\<And>xs. g (f xs) = xs) \<Longrightarrow> lossless (pure_coder g, pure_coder f) xs"
  by (auto simp: lossless_def pure_coder_def intro: exI [of _ 0])

lemma lossless_bcopy: "lossless (bcopy_coder, bcopy_coder) xs"
  by (auto simp: lossless_def bcopy_coder_def intro: exI [of _ 0])

lemma lossless_mine: "length xs \<le> MAXRUNLENGTH \<Longrightarrow> lossless (expand_mine_coder, pure_coder compress_mine) xs"
proof -
  assume "length xs \<le> MAXRUNLENGTH"
  then have "expand_mine (compress_mine xs) buf' = Inr (write_bytes buf' 0 xs, length xs)" for buf'
    using expand_compress_loop [of xs 0 "[]" buf' 0] by (simp add: expand_mine_def compress_mine_def)
  moreover have "map (write_bytes buf' 0 xs) [0..<length xs] = xs" for buf'
    by (intro nth_equalityI) (simp_all add: write_bytes_def)
  ultimately show ?thesis
    by (auto simp: lossless_def expand_mine_coder_def pure_coder_def intro: exI [of _ 0])
qed

lemma lossless_fraenkel:
  "\<exists>b\<in>set xs. b \<noteq> 0 \<Longrightarrow> length xs \<le> 32768
    \<Longrightarrow> lossless (fraenkel_coder expand_fraenkel, fraenkel_coder compress_fraenkel) xs"
  using fraenkel_roundtrip [of xs] by (auto simp: lossless_def fraenkel_coder_def)



end
