(* ===== verification/Digest.thy ===== *)
theory Digest
  imports Statement
begin

text \<open>
  The digests of nodes and statements (\<open>src/rdfstore_digest.c\<close>), which are the keys of the
  tables. SHA-1 itself (\<open>src/rdfstore_ap_sha1.c\<close>, from the Apache runtime) is a parameter
  \<open>sha1\<close> with results of 20 bytes. Allocation succeeds and the identifiers of resources are
  not null, so no digest fails.
\<close>

definition RDFSTORE_SHA_DIGESTSIZE :: nat where
  "RDFSTORE_SHA_DIGESTSIZE = 20"

text \<open>The first four bytes in network order: a hash code of 32 bits.\<close>

definition rdfstore_digest_crc64 :: "byte list \<Rightarrow> u32" where
  "rdfstore_digest_crc64 dd = unpackInt dd"

definition node_digest_input :: "RDF_Node \<Rightarrow> bool \<Rightarrow> byte list" where
  "node_digest_input node unique = (case node of
     Resource r \<Rightarrow> ident r @ (if rtype r = 2 then bytes_of ''1'' else bytes_of ''0'')
   | Literal l \<Rightarrow>
       [34] @ opt_bytes (lit_string l) @ [34]
         @ (if unique then
              lang l @ (if parseType l = 1 then RDFSTORE_RDF_PARSETYPE_LITERAL else opt_bytes (dataType l))
            else []))"

definition rdfstore_digest_get_node_digest :: "(byte list \<Rightarrow> byte list) \<Rightarrow> RDF_Node \<Rightarrow> bool \<Rightarrow> byte list" where
  "rdfstore_digest_get_node_digest sha1 node unique = sha1 (node_digest_input node unique)"

text \<open>\<open>cached\<close> is the field \<open>hashcode\<close> of the node.\<close>

definition rdfstore_digest_get_node_hashCode ::
  "(byte list \<Rightarrow> byte list) \<Rightarrow> u32 \<Rightarrow> RDF_Node \<Rightarrow> bool \<Rightarrow> u32"
where
  "rdfstore_digest_get_node_hashCode sha1 cached node unique =
     (if cached \<noteq> 0 then cached
      else rdfstore_digest_crc64 (rdfstore_digest_get_node_digest sha1 node unique))"

text \<open>The digest of a literal object is rotated by one byte.\<close>

definition statement_digest_input ::
  "(byte list \<Rightarrow> byte list) \<Rightarrow> RDF_Statement \<Rightarrow> resource option \<Rightarrow> byte list"
where
  "statement_digest_input sha1 st given_context =
     (let ctx = (case given_context of None \<Rightarrow> st_context st | Some c \<Rightarrow> Some c);
          dds = rdfstore_digest_get_node_digest sha1 (Resource (subject st)) True;
          ddp = rdfstore_digest_get_node_digest sha1 (Resource (predicate st)) True;
          ddo = rdfstore_digest_get_node_digest sha1 (object st) True
      in dds @ ddp @ (case object st of Resource r \<Rightarrow> ddo | Literal l \<Rightarrow> rotate1 ddo)
           @ (case ctx of None \<Rightarrow> []
              | Some c \<Rightarrow> rdfstore_digest_get_node_digest sha1 (Resource c) True))"

definition rdfstore_digest_get_statement_digest ::
  "(byte list \<Rightarrow> byte list) \<Rightarrow> RDF_Statement \<Rightarrow> resource option \<Rightarrow> byte list"
where
  "rdfstore_digest_get_statement_digest sha1 st given_context =
     sha1 (statement_digest_input sha1 st given_context)"

definition rdfstore_digest_get_statement_hashCode ::
  "(byte list \<Rightarrow> byte list) \<Rightarrow> RDF_Statement \<Rightarrow> resource option \<Rightarrow> u32"
where
  "rdfstore_digest_get_statement_hashCode sha1 st given_context =
     (if hashcode st \<noteq> 0 then hashcode st
      else rdfstore_digest_crc64 (rdfstore_digest_get_statement_digest sha1 st given_context))"

section \<open>What the digest tells apart\<close>

text \<open>
  The language and the data type follow one another without a mark between them, so a
  literal in a language has the digest of one whose data type is the end of its language.
\<close>

lemma node_digest_ambiguous:
  "rdfstore_digest_get_node_digest sha1 (Literal \<lparr>lit_string = s, parseType = 0, lang = a @ b, dataType = None\<rparr>) u
   = rdfstore_digest_get_node_digest sha1 (Literal \<lparr>lit_string = s, parseType = 0, lang = a, dataType = Some b\<rparr>) u"
  by (simp add: rdfstore_digest_get_node_digest_def node_digest_input_def opt_bytes_def)

end
