(* ===== verification/Kernel.thy ===== *)
theory Kernel
  imports Digest Iterator Compress
begin

text \<open>
  Insertion and removal of statements (\<open>rdfstore_insert\<close> and \<open>rdfstore_remove\<close> of
  \<open>src/rdfstore_kernel.c\<close>) in the default build, without \<open>RDFSTORE_CONNECTIONS\<close>. A store is
  its tables, each an instance of a backend, its flags, its default context and the two
  buffers of \<open>RDFSTORE_MAXRECORDS_BYTES_SIZE\<close> bytes it codes bit vectors in.

  The environment \<open>kernel_env\<close> holds what the two functions call: the operations of the
  backend, the pair of coders, SHA-1, the case folding of strings, the test for the start of
  a UTF-8 character, the parsers of XSD values, each with the key that is made of the value,
  and the time of day. A step of the functions is a map on stores that either goes on
  (\<open>None\<close>) or returns a code; \<open>Inl\<close> is a process that stops or a call that does not return.
\<close>

section \<open>State\<close>

datatype table = T_model | T_nodes | T_subjects | T_predicates | T_objects | T_contexts
  | T_languages | T_datatypes | T_xsd_integer | T_xsd_double | T_xsd_date | T_windex | T_statements

record 's rdfstore =
  tables :: "table \<Rightarrow> 's"
  bits_decode :: mem
  bits_encode :: mem
  freetext :: bool
  me_sync :: bool
  me_flag :: bool
  me_context :: "resource option"

record 's kernel_env =
  table_ops :: "'s backend"
  fetch_compressed :: "(flat_data \<Rightarrow> flat_data) \<Rightarrow> 's \<Rightarrow> flat_key \<Rightarrow> 's \<times> (flat_error + flat_data)"
  store_compressed :: "(flat_data \<Rightarrow> flat_data) \<Rightarrow> 's \<Rightarrow> flat_key \<Rightarrow> flat_data \<Rightarrow> 's \<times> flat_error"
  func_decode :: coder
  func_encode :: coder
  sha1 :: "byte list \<Rightarrow> byte list"
  foldedcase :: "byte list \<Rightarrow> byte list option"
  utf8_starts :: "byte list \<Rightarrow> bool"
  deserialize_integer :: "byte list \<Rightarrow> flat_key option"
  deserialize_double :: "byte list \<Rightarrow> flat_key option"
  deserialize_dateTime :: "byte list \<Rightarrow> byte list option"
  deserialize_date :: "byte list \<Rightarrow> byte list option"
  time_stamp :: "byte list"

datatype halt = Halt_bits bits_exit | Halt_coder coder_fault | Halt_loop | Halt_null_pointer

type_synonym 's step = "'s rdfstore \<Rightarrow> halt + ('s rdfstore \<times> int option)"

definition RDFSTORE_MAXRECORDS :: nat where
  "RDFSTORE_MAXRECORDS = 2097152"

definition RDFSTORE_WORD_STEMMING :: nat where
  "RDFSTORE_WORD_STEMMING = 5"

definition RDFSTORE_WORD_SPLITS :: "byte list" where
  "RDFSTORE_WORD_SPLITS = [11, 12, 10, 13, 9, 32, 44, 58, 59, 39, 34, 33, 35, 36, 37, 94, 38, 42, 40, 41,
     126, 96, 95, 61, 43, 123, 125, 91, 93, 60, 62, 63, 46, 45, 47, 92, 124]"

definition RDFSTORE_COUNTER_KEY :: flat_key where
  "RDFSTORE_COUNTER_KEY = bytes_of ''counter'' @ [0]"

definition RDFSTORE_COUNTER_REMOVED_KEY :: flat_key where
  "RDFSTORE_COUNTER_REMOVED_KEY = bytes_of ''counter_removed'' @ [0]"

definition RDFSTORE_LASTMODIFIED_KEY :: flat_key where
  "RDFSTORE_LASTMODIFIED_KEY = bytes_of ''last_modified'' @ [0]"

definition RDFSTORE_MS_XSD_DATE :: "byte list" where
  "RDFSTORE_MS_XSD_DATE = bytes_of ''http://www.w3.org/2001/XMLSchema#date''"

definition RDFSTORE_MS_XSD_DATETIME :: "byte list" where
  "RDFSTORE_MS_XSD_DATETIME = bytes_of ''http://www.w3.org/2001/XMLSchema#dateTime''"

section \<open>Steps\<close>

fun steps :: "'s step list \<Rightarrow> 's step" where
  "steps [] me = Inr (me, None)"
| "steps (f # fs) me = bindE (f me) (\<lambda>(me, r). case r of None \<Rightarrow> steps fs me | Some n \<Rightarrow> Inr (me, Some n))"

definition return_code :: "int \<Rightarrow> 's step" where
  "return_code n me = Inr (me, Some n)"

definition set_table :: "table \<Rightarrow> 's \<Rightarrow> 's rdfstore \<Rightarrow> 's rdfstore" where
  "set_table t s me = me\<lparr>tables := (tables me)(t := s)\<rparr>"

definition run_coder :: "coder \<Rightarrow> mem \<Rightarrow> byte list \<Rightarrow> halt + byte list" where
  "run_coder f buf src = (case f buf src of
     None \<Rightarrow> Inl Halt_loop
   | Some (Inl e) \<Rightarrow> Inl (Halt_coder e)
   | Some (Inr bs) \<Rightarrow> Inr bs)"

definition halt_bits :: "bits_exit + 'a \<Rightarrow> halt + 'a" where
  "halt_bits r = (case r of Inl e \<Rightarrow> Inl (Halt_bits e) | Inr x \<Rightarrow> Inr x)"

text \<open>
  The vector at a key into \<open>bits_decode\<close>: its size, or the code to return. \<open>compressed\<close> tells
  the two forms of the call apart, \<open>rdfstore_flat_store_fetch\<close> and \<open>func_decode\<close>, and
  \<open>rdfstore_flat_store_fetch_compressed\<close>.
\<close>

definition load_bits ::
  "'s kernel_env \<Rightarrow> bool \<Rightarrow> table \<Rightarrow> flat_key \<Rightarrow> 's rdfstore \<Rightarrow> halt + ('s rdfstore \<times> (int + nat))"
where
  "load_bits E compressed t k me =
     (case (if compressed then fetch_compressed E (\<lambda>d. d) else be_fetch (table_ops E)) (tables me t) k of
        (s, Inl err) \<Rightarrow>
          Inr (set_table t s me, if err \<noteq> FLAT_STORE_E_NOTFOUND then Inl (- 1) else Inr 0)
      | (s, Inr d) \<Rightarrow>
          bindE (run_coder (func_decode E) (bits_decode me) d) (\<lambda>bs.
            Inr ((set_table t s me)\<lparr>bits_decode := write_bytes (bits_decode me) 0 bs\<rparr>, Inr (length bs))))"

definition store_result :: "flat_error \<Rightarrow> int option" where
  "store_result e = (if e \<noteq> 0 \<and> e \<noteq> FLAT_STORE_E_KEYEXIST then Some (- 1) else None)"

text \<open>The first \<open>sz\<close> bytes of \<open>bits_decode\<close> to a key\<close>

definition save_bits :: "'s kernel_env \<Rightarrow> bool \<Rightarrow> table \<Rightarrow> flat_key \<Rightarrow> nat \<Rightarrow> 's step" where
  "save_bits E compressed t k sz me =
     bindE (run_coder (func_encode E) (bits_encode me) (map (bits_decode me) [0..<sz])) (\<lambda>bs.
       let me = me\<lparr>bits_encode := write_bytes (bits_encode me) 0 bs\<rparr> in
       if compressed then
         case store_compressed E (\<lambda>_. bs) (tables me t) k (map (bits_decode me) [0..<sz]) of
           (s, e) \<Rightarrow> Inr (set_table t s me, store_result e)
       else if length bs \<noteq> 0 then
         case be_store (table_ops E) (tables me t) k bs of
           (s, e) \<Rightarrow> Inr (set_table t s me, store_result e)
       else Inr (me, None))"

definition mark_bit ::
  "u32 \<Rightarrow> nat \<Rightarrow> nat \<Rightarrow> 's rdfstore \<Rightarrow> halt + ('s rdfstore \<times> nat)"
where
  "mark_bit val st_id sz me =
     bindE (halt_bits (rdfstore_bits_setmask sz (bits_decode me) st_id 1 val MAXRECORDS_BYTES_SIZE))
       (\<lambda>(sz, bits, change). Inr (me\<lparr>bits_decode := bits\<rparr>, sz))"

text \<open>Adding a statement to the vector at a key\<close>

definition index_add :: "'s kernel_env \<Rightarrow> bool \<Rightarrow> nat \<Rightarrow> table \<Rightarrow> flat_key \<Rightarrow> 's step" where
  "index_add E compressed st_id t k me =
     bindE (load_bits E compressed t k me) (\<lambda>(me, r). case r of
       Inl n \<Rightarrow> Inr (me, Some n)
     | Inr sz \<Rightarrow> bindE (mark_bit 1 st_id sz me) (\<lambda>(me, sz).
         if compressed \<and> sz = 0 then Inr (me, None) else save_bits E compressed t k sz me))"

text \<open>A deletion, after which a missing key ends the function with 1\<close>

definition delete_key :: "'s kernel_env \<Rightarrow> table \<Rightarrow> flat_key \<Rightarrow> 's step" where
  "delete_key E t k me =
     (case be_delete (table_ops E) (tables me t) k of
        (s, err) \<Rightarrow> Inr (set_table t s me,
          if err \<noteq> 0 then if err \<noteq> FLAT_STORE_E_NOTFOUND then Some (- 1) else Some 1 else None))"

definition index_remove :: "'s kernel_env \<Rightarrow> bool \<Rightarrow> nat \<Rightarrow> table \<Rightarrow> flat_key \<Rightarrow> 's step" where
  "index_remove E compressed st_id t k me =
     bindE (load_bits E compressed t k me) (\<lambda>(me, r). case r of
       Inl n \<Rightarrow> Inr (me, Some n)
     | Inr sz \<Rightarrow> bindE (mark_bit 0 st_id sz me) (\<lambda>(me, sz).
         let sz = rdfstore_bits_shorten sz (bits_decode me) in
         if sz > 0 then save_bits E compressed t k sz me else delete_key E t k me))"

text \<open>A word or stem of the text index: the key goes when at most one statement has it.\<close>

definition windex_remove :: "'s kernel_env \<Rightarrow> nat \<Rightarrow> flat_key \<Rightarrow> 's step" where
  "windex_remove E st_id k me =
     bindE (load_bits E True T_windex k me) (\<lambda>(me, r). case r of
       Inl n \<Rightarrow> Inr (me, Some n)
     | Inr sz \<Rightarrow>
         let p = rdfstore_bits_getfirstsetafter sz (bits_decode me) 0;
             p = (if p < sz * 8 then p + 1 else p) in
         if p < sz * 8 \<and> rdfstore_bits_getfirstsetafter sz (bits_decode me) p < sz * 8 then
           bindE (mark_bit 0 st_id sz me) (\<lambda>(me, sz).
             if sz \<noteq> 0 then save_bits E True T_windex k sz me else Inr (me, None))
         else
           case be_delete (table_ops E) (tables me T_windex) k of
             (s, err) \<Rightarrow> Inr (set_table T_windex s me,
               if err \<noteq> 0 \<and> err \<noteq> FLAT_STORE_E_NOTFOUND then Some (- 1) else None))"

section \<open>The keys of a literal\<close>

text \<open>\<open>strtok\<close> over a C string\<close>

abbreviation splits :: "byte \<Rightarrow> bool" where
  "splits b \<equiv> b \<in> set RDFSTORE_WORD_SPLITS"

function strtok_words :: "byte list \<Rightarrow> byte list list" where
  "strtok_words xs =
     (let ys = dropWhile splits xs in
      if ys = [] then []
      else takeWhile (\<lambda>b. \<not> splits b) ys # strtok_words (dropWhile (\<lambda>b. \<not> splits b) ys))"
  by pat_completeness auto
termination
proof (relation "measure length", simp)
  fix xs ys :: "byte list"
  assume ys: "ys = dropWhile splits xs" "ys \<noteq> []"
  then have "\<not> splits (hd ys)" by (metis hd_dropWhile)
  then have "length (dropWhile (\<lambda>b. \<not> splits b) ys) < length ys"
    using ys(2) length_dropWhile_le [of "\<lambda>b. \<not> splits b" "tl ys"] by (cases ys) auto
  then show "(dropWhile (\<lambda>b. \<not> splits b) ys, xs) \<in> measure length"
    using ys(1) length_dropWhile_le [of splits xs] by simp
qed

declare strtok_words.simps [simp del]

text \<open>The stems of a word: its prefixes that end before a character, from \<open>jj\<close> on\<close>

function next_char :: "(byte list \<Rightarrow> bool) \<Rightarrow> byte list \<Rightarrow> nat \<Rightarrow> nat" where
  "next_char starts word jj =
     (if jj < length word \<and> \<not> starts (drop jj word @ [0]) then next_char starts word (Suc jj) else jj)"
  by pat_completeness auto
termination
  by (relation "measure (\<lambda>(starts, word, jj). length word - jj)") auto

function stems_loop :: "(byte list \<Rightarrow> bool) \<Rightarrow> byte list \<Rightarrow> nat \<Rightarrow> nat \<Rightarrow> byte list list" where
  "stems_loop starts word jj kk =
     (if jj < length word \<and> kk < RDFSTORE_WORD_STEMMING then
        let jj = next_char starts word jj in
        (if jj > length word then take (jj - 1) word else take jj word)
          # stems_loop starts word (Suc jj) (Suc kk)
      else [])"
  by pat_completeness auto
termination
  by (relation "measure (\<lambda>(starts, word, jj, kk). RDFSTORE_WORD_STEMMING - kk)") auto

declare next_char.simps [simp del] stems_loop.simps [simp del]

datatype item = Item table flat_key | Item_word flat_key | Item_stem flat_key | Item_return int | Item_null

definition word_items :: "'s kernel_env \<Rightarrow> byte list \<Rightarrow> item list" where
  "word_items E word =
     Item_word word #
     (if deserialize_integer E word \<noteq> None \<or> deserialize_double E word \<noteq> None
         \<or> deserialize_dateTime E word \<noteq> None \<or> deserialize_date E word \<noteq> None \<or> length word \<le> 1
      then [] else map Item_stem (stems_loop (utf8_starts E) word 1 0))"

definition windex_items :: "'s kernel_env \<Rightarrow> bool \<Rightarrow> literal \<Rightarrow> item list" where
  "windex_items E ft l = (case lit_string l of
     None \<Rightarrow> []
   | Some s \<Rightarrow>
       if ft \<and> length s > 0 then
         case foldedcase E s of
           None \<Rightarrow> [Item_return (- 1)]
         | Some buf \<Rightarrow> concat (map (word_items E) (strtok_words (takeWhile (\<lambda>b. b \<noteq> 0) buf)))
       else [])"

definition date_items :: "'s kernel_env \<Rightarrow> literal \<Rightarrow> item list" where
  "date_items E l = (case lit_string l of
     None \<Rightarrow> [Item_null]
   | Some s \<Rightarrow> (case deserialize_dateTime E s of
         Some txt \<Rightarrow> [Item T_xsd_date (txt @ [0])]
       | None \<Rightarrow> (case deserialize_date E s of
             Some txt \<Rightarrow> [Item T_xsd_date (txt @ [0])]
           | None \<Rightarrow> [])))"

definition number_items :: "'s kernel_env \<Rightarrow> literal \<Rightarrow> item list" where
  "number_items E l = (case lit_string l of
     None \<Rightarrow> []
   | Some s \<Rightarrow> (case deserialize_integer E s of
         Some k \<Rightarrow> [Item T_xsd_integer k]
       | None \<Rightarrow> (case deserialize_double E s of
             Some k \<Rightarrow> [Item T_xsd_double k]
           | None \<Rightarrow> [])))"

definition literal_items :: "'s kernel_env \<Rightarrow> bool \<Rightarrow> literal \<Rightarrow> item list" where
  "literal_items E ft l =
     windex_items E ft l
     @ (if length (lang l) > 0 then
          case foldedcase E (lang l) of None \<Rightarrow> [Item_return (- 1)] | Some k \<Rightarrow> [Item T_languages k]
        else [])
     @ (let dt = opt_bytes (dataType l) in
        if length dt > 0 then
          Item T_datatypes dt
            # (if dt = RDFSTORE_MS_XSD_DATE \<or> dt = RDFSTORE_MS_XSD_DATETIME then date_items E l else [])
        else [])
     @ number_items E l"

definition object_items :: "'s kernel_env \<Rightarrow> bool \<Rightarrow> RDF_Node \<Rightarrow> item list" where
  "object_items E ft ob = (case ob of Resource r \<Rightarrow> [] | Literal l \<Rightarrow> literal_items E ft l)"

section \<open>Insertion\<close>

definition insert_item :: "'s kernel_env \<Rightarrow> nat \<Rightarrow> item \<Rightarrow> 's step" where
  "insert_item E st_id it = (case it of
     Item t k \<Rightarrow> index_add E False st_id t k
   | Item_word k \<Rightarrow> index_add E True st_id T_windex k
   | Item_stem k \<Rightarrow> index_add E False st_id T_windex k
   | Item_return n \<Rightarrow> return_code n
   | Item_null \<Rightarrow> (\<lambda>me. Inl Halt_null_pointer))"

definition effective_context :: "'s rdfstore \<Rightarrow> RDF_Statement \<Rightarrow> resource option \<Rightarrow> resource option" where
  "effective_context me st given_context = (case given_context of
     Some c \<Rightarrow> Some c
   | None \<Rightarrow> (case st_context st of Some c \<Rightarrow> Some c | None \<Rightarrow> me_context me))"

definition check_parse_type :: "RDF_Node \<Rightarrow> 's step" where
  "check_parse_type ob me = Inr (me, case ob of
     Resource r \<Rightarrow> None
   | Literal l \<Rightarrow> (case dataType l of
         None \<Rightarrow> None
       | Some dt \<Rightarrow>
           if parseType l = 1 \<and> dt \<noteq> RDFSTORE_RDF_PARSETYPE_LITERAL then Some (- 1)
           else if dt = RDFSTORE_RDF_PARSETYPE_LITERAL \<and> parseType l \<noteq> 1 then Some (- 1)
           else None))"

definition store_node :: "'s kernel_env \<Rightarrow> nat \<Rightarrow> RDF_Statement \<Rightarrow> resource option \<Rightarrow> 's step" where
  "store_node E st_id st ctx me =
     (case be_store (table_ops E) (tables me T_nodes) (packInt (of_nat st_id)) (insert_record st ctx) of
        (s, e) \<Rightarrow> Inr (set_table T_nodes s me, store_result e))"

definition store_statement :: "'s kernel_env \<Rightarrow> u32 \<Rightarrow> nat \<Rightarrow> 's step" where
  "store_statement E hc st_id me =
     (case be_store (table_ops E) (tables me T_statements) (packInt hc) (packInt (of_nat st_id)) of
        (s, e) \<Rightarrow> Inr (set_table T_statements s me, if e \<noteq> 0 then Some (- 1) else None))"

definition touch :: "'s kernel_env \<Rightarrow> 's step" where
  "touch E me =
     (case be_store (table_ops E) (tables me T_model) RDFSTORE_LASTMODIFIED_KEY (time_stamp E @ [0]) of
        (s, e) \<Rightarrow> Inr (set_table T_model s me, store_result e))"

definition sync_tables :: "'s kernel_env \<Rightarrow> resource option \<Rightarrow> 's step" where
  "sync_tables E ctx me =
     Inr (if me_sync me \<and> \<not> me_flag me then
            foldl (\<lambda>me t. set_table t (fst (be_sync (table_ops E) (tables me t))) me) me
              ([T_model, T_nodes, T_subjects, T_predicates, T_objects]
               @ (if ctx \<noteq> None then [T_contexts] else [])
               @ [T_languages, T_datatypes, T_xsd_integer, T_xsd_double, T_xsd_date]
               @ (if freetext me then [T_windex] else []))
          else me, None)"

definition node_hash :: "'s kernel_env \<Rightarrow> RDF_Node \<Rightarrow> u32" where
  "node_hash E n = rdfstore_digest_get_node_hashCode (sha1 E) 0 n False"

text \<open>The tables a statement is found in by its nodes, with the keys\<close>

definition node_keys :: "'s kernel_env \<Rightarrow> RDF_Statement \<Rightarrow> (table \<times> flat_key) list" where
  "node_keys E st =
     [(T_subjects, packInt (node_hash E (Resource (subject st)))),
      (T_predicates, packInt (node_hash E (Resource (predicate st)))),
      (T_objects, packInt (node_hash E (object st)))]"

definition context_keys :: "'s kernel_env \<Rightarrow> resource option \<Rightarrow> (table \<times> flat_key) list" where
  "context_keys E ctx = (case ctx of None \<Rightarrow> [] | Some c \<Rightarrow> [(T_contexts, packInt (node_hash E (Resource c)))])"

definition insert_steps ::
  "'s kernel_env \<Rightarrow> bool \<Rightarrow> RDF_Statement \<Rightarrow> resource option \<Rightarrow> u32 \<Rightarrow> nat \<Rightarrow> 's step list"
where
  "insert_steps E ft st ctx hc st_id =
     [check_parse_type (object st), store_node E st_id st ctx]
     @ map (insert_item E st_id) (object_items E ft (object st))
     @ map (\<lambda>(t, k). index_add E False st_id t k) (node_keys E st @ context_keys E ctx)
     @ [store_statement E hc st_id, touch E, sync_tables E ctx]"

definition insert_new :: "'s kernel_env \<Rightarrow> RDF_Statement \<Rightarrow> resource option \<Rightarrow> u32 \<Rightarrow> 's step" where
  "insert_new E st ctx hc me =
     (case be_inc (table_ops E) (tables me T_model) RDFSTORE_COUNTER_KEY of
        (s, Inl err) \<Rightarrow> Inr (set_table T_model s me, Some (- 1))
      | (s, Inr d) \<Rightarrow>
          let me = set_table T_model s me in
          if unat (unpackInt d) > RDFSTORE_MAXRECORDS then
            case be_dec (table_ops E) (tables me T_model) RDFSTORE_COUNTER_KEY of
              (s, r) \<Rightarrow> Inr (set_table T_model s me, Some (- 1))
          else steps (insert_steps E (freetext me) st ctx hc (unat (unpackInt d - 1))) me)"

definition cache_hashcode ::
  "'s rdfstore \<Rightarrow> resource option \<Rightarrow> u32 \<Rightarrow> RDF_Statement \<Rightarrow> RDF_Statement"
where
  "cache_hashcode me given_context hc st =
     (if given_context = None \<and> me_context me = None then st\<lparr>hashcode := hc\<rparr> else st)"

definition finish :: "RDF_Statement \<Rightarrow> halt + ('s rdfstore \<times> int option) \<Rightarrow> halt + ('s rdfstore \<times> RDF_Statement \<times> int)" where
  "finish st r = bindE r (\<lambda>(me, n). Inr (me, st, case n of None \<Rightarrow> 0 | Some n \<Rightarrow> n))"

definition rdfstore_insert ::
  "'s kernel_env \<Rightarrow> 's rdfstore \<Rightarrow> RDF_Statement option \<Rightarrow> resource option
    \<Rightarrow> halt + ('s rdfstore \<times> RDF_Statement option \<times> int)"
where
  "rdfstore_insert E me statement given_context = (case statement of
     None \<Rightarrow> Inr (me, None, - 1)
   | Some st \<Rightarrow>
       let ctx = effective_context me st given_context;
           hc = rdfstore_digest_get_statement_hashCode (sha1 E) st ctx;
           st = cache_hashcode me given_context hc st
       in case be_exists (table_ops E) (tables me T_statements) (packInt hc) of
            (s, e) \<Rightarrow>
              let me = set_table T_statements s me in
              if e = 0 then Inr (me, Some st, 1)
              else bindE (finish st (insert_new E st ctx hc me)) (\<lambda>(me, st, n). Inr (me, Some st, n)))"

section \<open>Removal\<close>

definition remove_item :: "'s kernel_env \<Rightarrow> nat \<Rightarrow> item \<Rightarrow> 's step" where
  "remove_item E st_id it = (case it of
     Item t k \<Rightarrow> index_remove E True st_id t k
   | Item_word k \<Rightarrow> windex_remove E st_id k
   | Item_stem k \<Rightarrow> windex_remove E st_id k
   | Item_return n \<Rightarrow> return_code n
   | Item_null \<Rightarrow> (\<lambda>me. Inl Halt_null_pointer))"

definition count_removed :: "'s kernel_env \<Rightarrow> 's step" where
  "count_removed E me =
     (case be_inc (table_ops E) (tables me T_model) RDFSTORE_COUNTER_REMOVED_KEY of
        (s, r) \<Rightarrow> Inr (set_table T_model s me, case r of Inl err \<Rightarrow> Some (- 1) | Inr d \<Rightarrow> None))"

definition remove_steps ::
  "'s kernel_env \<Rightarrow> bool \<Rightarrow> RDF_Statement \<Rightarrow> resource option \<Rightarrow> u32 \<Rightarrow> nat \<Rightarrow> 's step list"
where
  "remove_steps E ft st ctx hc st_id =
     [delete_key E T_nodes (packInt (of_nat st_id))]
     @ map (\<lambda>(t, k). index_remove E False st_id t k) (node_keys E st)
     @ map (\<lambda>(t, k). index_remove E True st_id t k) (context_keys E ctx)
     @ map (remove_item E st_id) (object_items E ft (object st))
     @ [count_removed E, delete_key E T_statements (packInt hc), touch E, sync_tables E ctx]"

definition rdfstore_remove ::
  "'s kernel_env \<Rightarrow> 's rdfstore \<Rightarrow> RDF_Statement option \<Rightarrow> resource option
    \<Rightarrow> halt + ('s rdfstore \<times> RDF_Statement option \<times> int)"
where
  "rdfstore_remove E me statement given_context = (case statement of
     None \<Rightarrow> Inr (me, None, - 1)
   | Some st \<Rightarrow>
       let ctx = effective_context me st given_context;
           hc = rdfstore_digest_get_statement_hashCode (sha1 E) st ctx;
           st = cache_hashcode me given_context hc st
       in case be_fetch (table_ops E) (tables me T_statements) (packInt hc) of
            (s, Inl err) \<Rightarrow> Inr (set_table T_statements s me, Some st, 1)
          | (s, Inr d) \<Rightarrow>
              let me = set_table T_statements s me in
              bindE (finish st (steps (remove_steps E (freetext me) st ctx hc (unat (unpackInt d))) me))
                (\<lambda>(me, st, n). Inr (me, Some st, n)))"

section \<open>Contracts\<close>

text \<open>A table that also tells exactly whether a deleted key was there, and counts.\<close>

locale exact_table = flat_table +
  assumes delete_found: "ok s \<Longrightarrow> tbl s k \<noteq> None \<Longrightarrow> be_delete B s k = (s', e) \<Longrightarrow> e = 0"
    and store_code: "ok s \<Longrightarrow> be_store B s k v = (s', e) \<Longrightarrow> e = 0"
    and inc: "ok s \<Longrightarrow> tbl s k = Some v \<Longrightarrow> be_inc B s k = (s', r) \<Longrightarrow>
      ok s' \<and> tbl s' = (tbl s)(k \<mapsto> packInt (unpackInt v + 1)) \<and> r = Inr (packInt (unpackInt v + 1))"
    and dec: "ok s \<Longrightarrow> tbl s k = Some v \<Longrightarrow> unpackInt v \<noteq> 0 \<Longrightarrow> be_dec B s k = (s', r) \<Longrightarrow>
      ok s' \<and> tbl s' = (tbl s)(k \<mapsto> packInt (unpackInt v - 1))"

text \<open>A coder pair gives a vector back, up to zero bytes at its end, within the buffers.\<close>

definition codec_laws :: "coder \<Rightarrow> coder \<Rightarrow> bool" where
  "codec_laws dec enc \<longleftrightarrow>
     (\<forall>buf xs. length xs \<le> MAXRECORDS_BYTES_SIZE \<longrightarrow> (\<exists>b\<in>set xs. b \<noteq> 0) \<longrightarrow>
        (\<exists>ys z. enc buf xs = Some (Inr ys) \<and> ys \<noteq> [] \<and> length xs + z \<le> MAXRECORDS_BYTES_SIZE
           \<and> (\<forall>buf'. dec buf' ys = Some (Inr (xs @ replicate z 0)))))"

locale kernel = exact_table "table_ops E" ok tbl
  for E :: "'s kernel_env" and ok :: "'s \<Rightarrow> bool" and tbl :: "'s \<Rightarrow> flat_key \<Rightarrow> flat_data option" +
  assumes fetch_compressed: "fetch_compressed E f s k = (case be_fetch (table_ops E) s k of (s', r) \<Rightarrow> (s', map_sum id f r))"
    and store_compressed: "store_compressed E f s k v = be_store (table_ops E) s k (f v)"
    and codec: "codec_laws (func_decode E) (func_encode E)"

section \<open>Vectors as sets\<close>

definition list_bits :: "byte list \<Rightarrow> nat set" where
  "list_bits bs = bitset (length bs) (\<lambda>i. bs ! i)"

lemma bitset_cong: "(\<And>i. i < sz \<Longrightarrow> m i = m' i) \<Longrightarrow> bitset sz m = bitset sz m'"
  by (auto simp: bitset_def membit_def div8_less)

lemma list_bits_write: "bitset (length bs) (write_bytes m 0 bs) = list_bits bs"
  unfolding list_bits_def by (rule bitset_cong) (simp add: write_bytes_def)

lemma list_bits_map: "list_bits (map m [0..<sz]) = bitset sz m"
  unfolding list_bits_def by (simp, rule bitset_cong) simp

lemma in_list_bits: "n \<in> list_bits bs \<longleftrightarrow> n div 8 < length bs \<and> bit (bs ! (n div 8)) (n mod 8)"
  by (auto simp: list_bits_def bitset_def membit_def div8_less)

lemma list_bits_pad: "list_bits (bs @ replicate z 0) = list_bits bs"
proof (rule set_eqI)
  fix n
  have "(replicate z 0 ! (n div 8 - length bs) :: byte) = 0" if "n div 8 < length bs + z" "\<not> n div 8 < length bs"
    using that by simp
  then show "n \<in> list_bits (bs @ replicate z 0) \<longleftrightarrow> n \<in> list_bits bs"
    by (auto simp: in_list_bits nth_append)
qed

lemma list_bits_nonempty: "list_bits bs \<noteq> {} \<longleftrightarrow> (\<exists>b\<in>set bs. b \<noteq> 0)"
proof
  assume "\<exists>b\<in>set bs. b \<noteq> 0"
  then obtain i where i: "i < length bs" "bs ! i \<noteq> 0" by (auto simp: in_set_conv_nth)
  then obtain k where "k < 8" "bit (bs ! i) k" by (auto simp: byte_eq_0_iff)
  then have "8 * i + k \<in> list_bits bs" using i by (simp add: list_bits_def bitset_def membit_def)
  then show "list_bits bs \<noteq> {}" by blast
next
  assume "list_bits bs \<noteq> {}"
  then obtain n where "n div 8 < length bs" "bit (bs ! (n div 8)) (n mod 8)"
    by (auto simp: list_bits_def bitset_def membit_def div8_less)
  then show "\<exists>b\<in>set bs. b \<noteq> 0" by (intro bexI [of _ "bs ! (n div 8)"]) auto
qed

text \<open>A stored vector\<close>

definition coded :: "'s kernel_env \<Rightarrow> flat_data \<Rightarrow> nat set \<Rightarrow> bool" where
  "coded E d S \<longleftrightarrow> (\<exists>bs. (\<forall>buf. func_decode E buf d = Some (Inr bs))
     \<and> length bs \<le> MAXRECORDS_BYTES_SIZE \<and> list_bits bs = S)"

text \<open>A table of vectors has a key for every set that is not empty, and no other.\<close>

definition index_rep :: "'s kernel_env \<Rightarrow> (flat_key \<Rightarrow> flat_data option) \<Rightarrow> (flat_key \<Rightarrow> nat set) \<Rightarrow> bool" where
  "index_rep E T V \<longleftrightarrow> (\<forall>k. case T k of None \<Rightarrow> V k = {} | Some d \<Rightarrow> V k \<noteq> {} \<and> coded E d (V k))"

lemma index_rep_update: "index_rep E T V \<Longrightarrow> coded E d S \<Longrightarrow> S \<noteq> {} \<Longrightarrow> index_rep E (T(k \<mapsto> d)) (V(k := S))"
  by (auto simp: index_rep_def cong: option.case_cong)

lemma index_rep_delete: "index_rep E T V \<Longrightarrow> index_rep E (T(k := None)) (V(k := {}))"
  by (auto simp: index_rep_def cong: option.case_cong)

section \<open>Abstract stores\<close>

text \<open>
  The tables \<open>T_model\<close>, \<open>T_nodes\<close> and \<open>T_statements\<close> as maps, the others as families of sets of
  statement identifiers.
\<close>

record kview =
  kv_map :: "table \<Rightarrow> flat_key \<Rightarrow> flat_data option"
  kv_idx :: "table \<Rightarrow> flat_key \<Rightarrow> nat set"

definition map_tables :: "table set" where
  "map_tables = {T_model, T_nodes, T_statements}"

definition flags_of :: "'s rdfstore \<Rightarrow> bool \<times> bool \<times> bool \<times> resource option" where
  "flags_of me = (freetext me, me_sync me, me_flag me, me_context me)"

definition put_map :: "table \<Rightarrow> flat_key \<Rightarrow> flat_data option \<Rightarrow> kview \<Rightarrow> kview" where
  "put_map t k v A = A\<lparr>kv_map := (kv_map A)(t := (kv_map A t)(k := v))\<rparr>"

definition put_idx :: "table \<Rightarrow> flat_key \<Rightarrow> nat set \<Rightarrow> kview \<Rightarrow> kview" where
  "put_idx t k S A = A\<lparr>kv_idx := (kv_idx A)(t := (kv_idx A t)(k := S))\<rparr>"

definition rep :: "'s kernel_env \<Rightarrow> ('s \<Rightarrow> bool) \<Rightarrow> ('s \<Rightarrow> flat_key \<Rightarrow> flat_data option) \<Rightarrow> 's rdfstore \<Rightarrow> kview \<Rightarrow> bool" where
  "rep E ok tbl me A \<longleftrightarrow> (\<forall>t. ok (tables me t))
     \<and> (\<forall>t\<in>map_tables. tbl (tables me t) = kv_map A t)
     \<and> (\<forall>t. t \<notin> map_tables \<longrightarrow> index_rep E (tbl (tables me t)) (kv_idx A t))"

text \<open>From a store that represents \<open>A\<close> the step goes on with one that represents \<open>A'\<close>.\<close>

definition runs ::
  "'s kernel_env \<Rightarrow> ('s \<Rightarrow> bool) \<Rightarrow> ('s \<Rightarrow> flat_key \<Rightarrow> flat_data option) \<Rightarrow> 's step \<Rightarrow> kview \<Rightarrow> kview \<Rightarrow> bool"
where
  "runs E ok tbl f A A' \<longleftrightarrow> (\<forall>me. rep E ok tbl me A \<longrightarrow>
     (\<exists>me'. f me = Inr (me', None) \<and> rep E ok tbl me' A' \<and> flags_of me' = flags_of me))"

lemma runs_Nil: "runs E ok tbl (steps []) A A"
  by (simp add: runs_def)

lemma runs_Cons:
  "runs E ok tbl f A A1 \<Longrightarrow> runs E ok tbl (steps fs) A1 A2 \<Longrightarrow> runs E ok tbl (steps (f # fs)) A A2"
  unfolding runs_def by fastforce

lemma runs_append:
  "runs E ok tbl (steps fs) A A1 \<Longrightarrow> runs E ok tbl (steps gs) A1 A2 \<Longrightarrow> runs E ok tbl (steps (fs @ gs)) A A2"
proof (induction fs arbitrary: A)
  case Nil
  then have "runs E ok tbl (steps gs) A A2" by (auto simp: runs_def)
  then show ?case by simp
next
  case (Cons f fs)
  show ?case
    unfolding runs_def
  proof (intro allI impI)
    fix me assume r: "rep E ok tbl me A"
    then obtain me' where go: "steps (f # fs) me = Inr (me', None)" "rep E ok tbl me' A1" "flags_of me' = flags_of me"
      using Cons.prems(1) unfolding runs_def by blast
    then have "steps ((f # fs) @ gs) me = steps gs me'"
    proof -
      have "steps (as @ gs) m = steps gs m'" if "steps as m = Inr (m', None)" for as m m'
        using that by (induction as arbitrary: m) (auto simp: bindE_Inr_iff split: option.splits)
      with go(1) show ?thesis by blast
    qed
    then show "\<exists>me'. steps ((f # fs) @ gs) me = Inr (me', None) \<and> rep E ok tbl me' A2 \<and> flags_of me' = flags_of me"
      using Cons.prems(2) go(2,3) unfolding runs_def by metis
  qed
qed

lemma runs_one: "runs E ok tbl f A A' \<Longrightarrow> runs E ok tbl (steps [f]) A A'"
  by (rule runs_Cons [OF _ runs_Nil])

lemma rep_set_table_map:
  assumes "rep E ok tbl me A" and "t \<in> map_tables" and "ok s" and "tbl s = (tbl (tables me t))(k := v)"
  shows "rep E ok tbl (set_table t s me) (put_map t k v A)"
  using assms by (auto simp: rep_def set_table_def put_map_def)

lemma rep_set_table_idx:
  assumes "rep E ok tbl me A" and "t \<notin> map_tables" and "ok s" and "index_rep E (tbl s) ((kv_idx A t)(k := S))"
  shows "rep E ok tbl (set_table t s me) (put_idx t k S A)"
  using assms by (auto simp: rep_def set_table_def put_idx_def)

lemma rep_set_table_same:
  assumes "rep E ok tbl me A" and "ok s" and "tbl s = tbl (tables me t)"
  shows "rep E ok tbl (set_table t s me) A"
  using assms by (auto simp: rep_def set_table_def)

lemma flags_set_table [simp]: "flags_of (set_table t s me) = flags_of me"
  by (simp add: flags_of_def set_table_def)

lemma flags_buffers [simp]: "flags_of (me\<lparr>bits_decode := a\<rparr>) = flags_of me" "flags_of (me\<lparr>bits_encode := a\<rparr>) = flags_of me"
  by (simp_all add: flags_of_def)

lemma rep_buffers [simp]:
  "rep E ok tbl (me\<lparr>bits_decode := a\<rparr>) A = rep E ok tbl me A" "rep E ok tbl (me\<lparr>bits_encode := a\<rparr>) A = rep E ok tbl me A"
  by (simp_all add: rep_def)

section \<open>The steps on abstract stores\<close>

lemma index_rep_None: "index_rep E T V \<Longrightarrow> T k = None \<Longrightarrow> V k = {}"
  unfolding index_rep_def by (drule spec [of _ k]) simp

lemma index_rep_Some: "index_rep E T V \<Longrightarrow> T k = Some d \<Longrightarrow> V k \<noteq> {} \<and> coded E d (V k)"
  unfolding index_rep_def by (drule spec [of _ k]) simp

lemma shorten_pos: "0 < rdfstore_bits_shorten sz m \<longleftrightarrow> bitset sz m \<noteq> {}"
proof
  assume z: "0 < rdfstore_bits_shorten sz m"
  obtain k where "k < 8" "bit (m (rdfstore_bits_shorten sz m - 1)) k"
    using bits_shorten_tight [OF z] by (auto simp: byte_eq_0_iff)
  then have "8 * (rdfstore_bits_shorten sz m - 1) + k \<in> bitset (rdfstore_bits_shorten sz m) m"
    using z by (auto simp: bitset_def membit_def)
  then show "bitset sz m \<noteq> {}" unfolding bits_shorten_bitset by blast
next
  assume "bitset sz m \<noteq> {}"
  then show "0 < rdfstore_bits_shorten sz m"
    using bits_shorten_bitset [of sz m] by (cases "rdfstore_bits_shorten sz m") auto
qed

lemma add_limit: "n < RDFSTORE_MAXRECORDS \<Longrightarrow> STEP * (1 + n div 8 div STEP) \<le> MAXRECORDS_BYTES_SIZE"
  by (simp add: RDFSTORE_MAXRECORDS_def MAXRECORDS_BYTES_SIZE_def STEP_def)

context kernel
begin

lemma load_bits_spec:
  assumes "rep E ok tbl me A" and "t \<notin> map_tables"
  obtains me' sz where "load_bits E c t k me = Inr (me', Inr sz)" and "rep E ok tbl me' A"
    and "flags_of me' = flags_of me" and "sz \<le> MAXRECORDS_BYTES_SIZE"
    and "bitset sz (bits_decode me') = kv_idx A t k"
proof -
  obtain s r where f: "be_fetch (table_ops E) (tables me t) k = (s, r)" by (metis prod.collapse)
  have ok: "ok (tables me t)" using assms(1) by (simp add: rep_def)
  note F = fetch [OF ok f]
  have get: "(if c then fetch_compressed E (\<lambda>d. d) else be_fetch (table_ops E)) (tables me t) k = (s, r)"
    using f fetch_compressed by (cases r) simp_all
  have me1: "rep E ok tbl (set_table t s me) A"
    by (rule rep_set_table_same [OF assms(1)]) (use F in auto)
  have ir: "index_rep E (tbl (tables me t)) (kv_idx A t)" using assms by (simp add: rep_def)
  show thesis
  proof (cases "tbl (tables me t) k")
    case None
    then have "kv_idx A t k = {}" by (rule index_rep_None [OF ir])
    then show thesis
      using None F me1 get by (intro that [of "set_table t s me" 0]) (auto simp: load_bits_def)
  next
    case (Some d)
    then have "coded E d (kv_idx A t k)" using index_rep_Some [OF ir] by blast
    then obtain bs where bs: "\<And>buf. func_decode E buf d = Some (Inr bs)"
      "length bs \<le> MAXRECORDS_BYTES_SIZE" "list_bits bs = kv_idx A t k"
      by (auto simp: coded_def)
    then show thesis
      using Some F me1 get list_bits_write [of bs "bits_decode me"]
      by (intro that [of "(set_table t s me)\<lparr>bits_decode := write_bytes (bits_decode me) 0 bs\<rparr>" "length bs"])
        (auto simp: load_bits_def run_coder_def)
  qed
qed

lemma save_bits_spec:
  assumes "rep E ok tbl me A" and "t \<notin> map_tables" and "sz \<le> MAXRECORDS_BYTES_SIZE"
    and "bitset sz (bits_decode me) \<noteq> {}"
  obtains me' where "save_bits E c t k sz me = Inr (me', None)"
    and "rep E ok tbl me' (put_idx t k (bitset sz (bits_decode me)) A)" and "flags_of me' = flags_of me"
proof -
  let ?xs = "map (bits_decode me) [0..<sz]" and ?S = "bitset sz (bits_decode me)"
  have "\<exists>b\<in>set ?xs. b \<noteq> 0" using assms(4) list_bits_nonempty [of ?xs] by (simp add: list_bits_map)
  then obtain ys z where enc: "func_encode E (bits_encode me) ?xs = Some (Inr ys)" "ys \<noteq> []"
    and z: "sz + z \<le> MAXRECORDS_BYTES_SIZE" and dec: "\<And>buf'. func_decode E buf' ys = Some (Inr (?xs @ replicate z 0))"
    using codec assms(3) unfolding codec_laws_def by (metis length_map length_upt minus_nat.diff_0)
  have coded: "coded E ys ?S"
    unfolding coded_def using z dec by (intro exI [of _ "?xs @ replicate z 0"]) (simp only: list_bits_pad list_bits_map, simp)
  define me1 where "me1 = me\<lparr>bits_encode := write_bytes (bits_encode me) 0 ys\<rparr>"
  obtain s e where st: "be_store (table_ops E) (tables me1 t) k ys = (s, e)" by (metis prod.collapse)
  have ok: "ok (tables me1 t)" using assms(1) by (simp add: rep_def me1_def)
  note S = store [OF ok st] and e0 = store_code [OF ok st]
  have "rep E ok tbl (set_table t s me1) (put_idx t k ?S A)"
  proof (rule rep_set_table_idx)
    show "rep E ok tbl me1 A" using assms(1) by (simp add: me1_def)
    show "index_rep E (tbl s) ((kv_idx A t)(k := ?S))"
      using S assms index_rep_update [OF _ coded] by (auto simp: rep_def me1_def)
  qed (use S assms(2) in auto)
  moreover have "save_bits E c t k sz me = Inr (set_table t s me1, None)"
    using enc st e0 store_compressed [of "\<lambda>_. ys" "tables me1 t" k ?xs]
    by (cases c) (simp_all add: save_bits_def run_coder_def Let_def me1_def [symmetric] store_result_def, simp add: me1_def)
  ultimately show thesis by (intro that [of "set_table t s me1"]) (simp_all add: me1_def)
qed

lemma mark_bit_spec:
  assumes "n < RDFSTORE_MAXRECORDS" and "sz \<le> MAXRECORDS_BYTES_SIZE"
  obtains bits sz' where "mark_bit (of_bool b) n sz me = Inr (me\<lparr>bits_decode := bits\<rparr>, sz')"
    and "sz' \<le> MAXRECORDS_BYTES_SIZE" and "0 < sz'"
    and "bitset sz' bits = (if b then insert n (bitset sz (bits_decode me)) else bitset sz (bits_decode me) - {n})"
proof -
  from setmask_one [OF disjI2 [OF add_limit [OF assms(1)]] assms(2), of "bits_decode me" b]
  obtain sz' bits ch where m: "rdfstore_bits_setmask sz (bits_decode me) n 1 (of_bool b) MAXRECORDS_BYTES_SIZE
      = Inr (sz', bits, ch)" "sz' \<le> MAXRECORDS_BYTES_SIZE" "n div 8 < sz'"
    "bitset sz' bits = (if b then insert n (bitset sz (bits_decode me)) else bitset sz (bits_decode me) - {n})"
    by blast
  show thesis by (rule that [of bits sz']) (use m in \<open>simp_all add: mark_bit_def halt_bits_def\<close>)
qed

lemma index_add_runs:
  assumes "t \<notin> map_tables" and "n < RDFSTORE_MAXRECORDS"
  shows "runs E ok tbl (index_add E c n t k) A (put_idx t k (insert n (kv_idx A t k)) A)"
  unfolding runs_def
proof (intro allI impI)
  fix me assume r: "rep E ok tbl me A"
  obtain me1 sz where l: "load_bits E c t k me = Inr (me1, Inr sz)" "rep E ok tbl me1 A"
    "flags_of me1 = flags_of me" "sz \<le> MAXRECORDS_BYTES_SIZE" "bitset sz (bits_decode me1) = kv_idx A t k"
    using load_bits_spec [OF r assms(1)] .
  obtain bits sz' where s: "mark_bit (of_bool True) n sz me1 = Inr (me1\<lparr>bits_decode := bits\<rparr>, sz')"
    "sz' \<le> MAXRECORDS_BYTES_SIZE" "0 < sz'" "bitset sz' bits = insert n (kv_idx A t k)"
    using mark_bit_spec [OF assms(2) l(4), of True me1] l(5) by auto
  obtain me2 where v: "save_bits E c t k sz' (me1\<lparr>bits_decode := bits\<rparr>) = Inr (me2, None)"
    "rep E ok tbl me2 (put_idx t k (insert n (kv_idx A t k)) A)" "flags_of me2 = flags_of me"
    using save_bits_spec [of "me1\<lparr>bits_decode := bits\<rparr>" A t sz' c k] l(2,3) assms(1) s by auto
  show "\<exists>me'. index_add E c n t k me = Inr (me', None)
      \<and> rep E ok tbl me' (put_idx t k (insert n (kv_idx A t k)) A) \<and> flags_of me' = flags_of me"
    using l(1) s v by (intro exI [of _ me2]) (simp add: index_add_def)
qed

lemma index_remove_runs:
  assumes "t \<notin> map_tables" and "n < RDFSTORE_MAXRECORDS" and "n \<in> kv_idx A t k"
  shows "runs E ok tbl (index_remove E c n t k) A (put_idx t k (kv_idx A t k - {n}) A)"
  unfolding runs_def
proof (intro allI impI)
  fix me assume r: "rep E ok tbl me A"
  obtain me1 sz where l: "load_bits E c t k me = Inr (me1, Inr sz)" "rep E ok tbl me1 A"
    "flags_of me1 = flags_of me" "sz \<le> MAXRECORDS_BYTES_SIZE" "bitset sz (bits_decode me1) = kv_idx A t k"
    using load_bits_spec [OF r assms(1)] .
  obtain bits sz' where s: "mark_bit (of_bool False) n sz me1 = Inr (me1\<lparr>bits_decode := bits\<rparr>, sz')"
    "sz' \<le> MAXRECORDS_BYTES_SIZE" "0 < sz'" "bitset sz' bits = kv_idx A t k - {n}"
    using mark_bit_spec [OF assms(2) l(4), of False me1] l(5) by auto
  let ?me2 = "me1\<lparr>bits_decode := bits\<rparr>" and ?z = "rdfstore_bits_shorten sz' bits"
  have r2: "rep E ok tbl ?me2 A" using l(2) by simp
  show "\<exists>me'. index_remove E c n t k me = Inr (me', None)
      \<and> rep E ok tbl me' (put_idx t k (kv_idx A t k - {n}) A) \<and> flags_of me' = flags_of me"
  proof (cases "kv_idx A t k - {n} = {}")
    case False
    then have z: "0 < ?z" "bitset ?z bits = kv_idx A t k - {n}" "?z \<le> MAXRECORDS_BYTES_SIZE"
      using s shorten_pos [of sz' bits] bits_shorten_bitset [of sz' bits] bits_shorten_le [of sz' bits] by auto
    obtain me3 where v: "save_bits E c t k ?z ?me2 = Inr (me3, None)"
      "rep E ok tbl me3 (put_idx t k (kv_idx A t k - {n}) A)" "flags_of me3 = flags_of me"
      using save_bits_spec [OF r2 assms(1) z(3), of c k] z(2) l(3) False by auto
    show ?thesis
      using l(1) s(1) z(1) v by (intro exI [of _ me3]) (simp add: index_remove_def Let_def)
  next
    case True
    then have z: "?z = 0" using s(4) shorten_pos [of sz' bits] by simp
    obtain st e where d: "be_delete (table_ops E) (tables ?me2 t) k = (st, e)" by (metis prod.collapse)
    have ok: "ok (tables ?me2 t)" and ir: "index_rep E (tbl (tables ?me2 t)) (kv_idx A t)"
      using r2 assms(1) by (simp_all add: rep_def)
    have "tbl (tables ?me2 t) k \<noteq> None" using index_rep_None [OF ir, of k] assms(3) by auto
    then have e0: "e = 0" by (rule delete_found [OF ok _ d])
    note D = delete [OF ok d]
    have "rep E ok tbl (set_table t st ?me2) (put_idx t k (kv_idx A t k - {n}) A)"
      unfolding True by (rule rep_set_table_idx [OF r2 assms(1)]) (use D index_rep_delete [OF ir, of k] in auto)
    then show ?thesis
      using l(1,3) s(1) z d e0
      by (intro exI [of _ "set_table t st ?me2"]) (simp add: index_remove_def Let_def delete_key_def)
  qed
qed

end

section \<open>The keys of a statement\<close>

fun item_key :: "item \<Rightarrow> table \<times> flat_key" where
  "item_key (Item t k) = (t, k)"
| "item_key it = undefined"

definition is_item :: "item \<Rightarrow> bool" where
  "is_item it \<longleftrightarrow> (\<exists>t k. it = Item t k)"

text \<open>The keys under which a statement is found, without those of the text index\<close>

definition index_keys :: "'s kernel_env \<Rightarrow> RDF_Statement \<Rightarrow> resource option \<Rightarrow> (table \<times> flat_key) list" where
  "index_keys E st ctx = node_keys E st @ context_keys E ctx @ map item_key (object_items E False (object st))"

text \<open>No string of the object fails to fold, and there is a string to read a date from.\<close>

definition indexable :: "'s kernel_env \<Rightarrow> RDF_Node \<Rightarrow> bool" where
  "indexable E ob \<longleftrightarrow> (\<forall>it\<in>set (object_items E False ob). is_item it)"

definition lang_items :: "'s kernel_env \<Rightarrow> literal \<Rightarrow> item list" where
  "lang_items E l =
     (if length (lang l) > 0 then
        case foldedcase E (lang l) of None \<Rightarrow> [Item_return (- 1)] | Some k \<Rightarrow> [Item T_languages k]
      else [])"

definition type_items :: "'s kernel_env \<Rightarrow> literal \<Rightarrow> item list" where
  "type_items E l =
     (let dt = opt_bytes (dataType l) in
        if length dt > 0 then
          Item T_datatypes dt
            # (if dt = RDFSTORE_MS_XSD_DATE \<or> dt = RDFSTORE_MS_XSD_DATETIME then date_items E l else [])
        else [])"

lemma object_items_plain:
  "object_items E False (Literal l) = lang_items E l @ type_items E l @ number_items E l"
  "object_items E False (Resource r) = []"
  by (simp_all add: object_items_def literal_items_def lang_items_def type_items_def windex_items_def split: option.split)

text \<open>The tables of a part, each at most once\<close>

definition parts_in :: "item list \<Rightarrow> table set \<Rightarrow> bool" where
  "parts_in its ts \<longleftrightarrow> distinct (map (fst \<circ> item_key) its) \<and> (fst \<circ> item_key) ` set its \<subseteq> ts"

lemma parts_in_append: "parts_in as S \<Longrightarrow> parts_in bs T \<Longrightarrow> S \<inter> T = {} \<Longrightarrow> parts_in (as @ bs) (S \<union> T)"
  unfolding parts_in_def by (auto simp: image_subset_iff)

lemma lang_parts: "\<forall>it\<in>set (lang_items E l). is_item it \<Longrightarrow> parts_in (lang_items E l) {T_languages}"
  by (cases "foldedcase E (lang l)") (auto simp: lang_items_def parts_in_def is_item_def)

lemma date_parts: "\<forall>it\<in>set (date_items E l). is_item it \<Longrightarrow> parts_in (date_items E l) {T_xsd_date}"
  by (auto simp: date_items_def parts_in_def is_item_def split: option.splits)

lemma type_parts:
  assumes "\<forall>it\<in>set (type_items E l). is_item it"
  shows "parts_in (type_items E l) {T_datatypes, T_xsd_date}"
proof (cases "opt_bytes (dataType l) = RDFSTORE_MS_XSD_DATE \<or> opt_bytes (dataType l) = RDFSTORE_MS_XSD_DATETIME")
  case True
  then have "length (opt_bytes (dataType l)) > 0"
    by (auto simp: RDFSTORE_MS_XSD_DATE_def RDFSTORE_MS_XSD_DATETIME_def bytes_of_def)
  with True have eq: "type_items E l = [Item T_datatypes (opt_bytes (dataType l))] @ date_items E l"
    by (auto simp: type_items_def Let_def)
  have "parts_in ([Item T_datatypes (opt_bytes (dataType l))] @ date_items E l) ({T_datatypes} \<union> {T_xsd_date})"
    by (rule parts_in_append) (use assms date_parts [of E l] in \<open>auto simp: eq parts_in_def\<close>)
  then show ?thesis unfolding eq by (simp add: insert_commute)
qed (auto simp: type_items_def parts_in_def Let_def)

lemma number_parts: "parts_in (number_items E l) {T_xsd_integer, T_xsd_double}"
  by (auto simp: number_items_def parts_in_def split: option.splits)

lemma object_parts:
  assumes "indexable E ob"
  shows "parts_in (object_items E False ob) {T_languages, T_datatypes, T_xsd_date, T_xsd_integer, T_xsd_double}"
proof (cases ob)
  case (Resource r)
  then show ?thesis by (simp add: object_items_plain parts_in_def)
next
  case (Literal l)
  have "parts_in (lang_items E l @ type_items E l @ number_items E l)
      ({T_languages} \<union> ({T_datatypes, T_xsd_date} \<union> {T_xsd_integer, T_xsd_double}))"
    by (intro parts_in_append lang_parts type_parts number_parts)
      (use assms in \<open>auto simp: indexable_def Literal object_items_plain\<close>)
  moreover have "{T_languages} \<union> ({T_datatypes, T_xsd_date} \<union> {T_xsd_integer, T_xsd_double})
      = {T_languages, T_datatypes, T_xsd_date, T_xsd_integer, T_xsd_double}" by auto
  ultimately show ?thesis unfolding Literal object_items_plain by argo
qed

lemma node_context_tables:
  "fst ` set (node_keys E st @ context_keys E ctx) \<subseteq> {T_subjects, T_predicates, T_objects, T_contexts}"
  "distinct (node_keys E st @ context_keys E ctx)"
  by (auto simp: node_keys_def context_keys_def split: option.splits)

lemma index_keys_tables:
  assumes "indexable E (object st)" and "(t, k) \<in> set (index_keys E st ctx)"
  shows "t \<notin> map_tables" and "t \<noteq> T_windex"
proof -
  have "(t, k) \<in> set (node_keys E st @ context_keys E ctx) \<or> (t, k) \<in> item_key ` set (object_items E False (object st))"
    using assms(2) unfolding index_keys_def by auto
  then have "t \<in> {T_subjects, T_predicates, T_objects, T_contexts}
      \<union> {T_languages, T_datatypes, T_xsd_date, T_xsd_integer, T_xsd_double}"
  proof
    assume "(t, k) \<in> set (node_keys E st @ context_keys E ctx)"
    then show ?thesis using node_context_tables(1) [of E st ctx] by (metis UnI1 fst_conv image_eqI subsetD)
  next
    assume "(t, k) \<in> item_key ` set (object_items E False (object st))"
    then obtain it where "it \<in> set (object_items E False (object st))" "item_key it = (t, k)" by auto
    then show ?thesis
      using object_parts [OF assms(1)] unfolding parts_in_def by (metis UnI2 comp_apply fst_conv image_eqI subsetD)
  qed
  then show "t \<notin> map_tables" and "t \<noteq> T_windex" unfolding map_tables_def by blast+
qed

lemma distinct_index_keys:
  assumes "indexable E (object st)"
  shows "distinct (index_keys E st ctx)"
proof -
  note P = object_parts [OF assms, unfolded parts_in_def]
  have d: "distinct (map item_key (object_items E False (object st)))"
    using P by (metis distinct_map map_map)
  have "fst ` set (map item_key (object_items E False (object st)))
      \<subseteq> {T_languages, T_datatypes, T_xsd_date, T_xsd_integer, T_xsd_double}"
    using P by (simp add: image_comp)
  moreover have "{T_languages, T_datatypes, T_xsd_date, T_xsd_integer, T_xsd_double}
      \<inter> {T_subjects, T_predicates, T_objects, T_contexts} = {}" by simp
  ultimately have "set (node_keys E st @ context_keys E ctx)
      \<inter> set (map item_key (object_items E False (object st))) = {}"
    using node_context_tables(1) [of E st ctx] by blast
  then show ?thesis
    using d node_context_tables(2) [of E st ctx] unfolding index_keys_def by (metis append_assoc distinct_append)
qed

section \<open>Adding and removing at a list of keys\<close>

definition add_keys :: "nat \<Rightarrow> (table \<times> flat_key) list \<Rightarrow> kview \<Rightarrow> kview" where
  "add_keys n ks A = A\<lparr>kv_idx := \<lambda>t k. if (t, k) \<in> set ks then insert n (kv_idx A t k) else kv_idx A t k\<rparr>"

definition remove_keys :: "nat \<Rightarrow> (table \<times> flat_key) list \<Rightarrow> kview \<Rightarrow> kview" where
  "remove_keys n ks A = A\<lparr>kv_idx := \<lambda>t k. if (t, k) \<in> set ks then kv_idx A t k - {n} else kv_idx A t k\<rparr>"

lemma keys_Nil [simp]: "add_keys n [] A = A" "remove_keys n [] A = A"
  by (simp_all add: add_keys_def remove_keys_def)

lemma add_keys_Cons: "add_keys n ((t, k) # ks) A = add_keys n ks (put_idx t k (insert n (kv_idx A t k)) A)"
  by (auto simp: add_keys_def put_idx_def fun_eq_iff intro!: kview.equality)

lemma remove_keys_Cons: "remove_keys n ((t, k) # ks) A = remove_keys n ks (put_idx t k (kv_idx A t k - {n}) A)"
  by (auto simp: remove_keys_def put_idx_def fun_eq_iff intro!: kview.equality)

context kernel
begin

lemma index_adds_run:
  assumes "\<And>t k. (t, k) \<in> set ks \<Longrightarrow> t \<notin> map_tables" and "n < RDFSTORE_MAXRECORDS"
  shows "runs E ok tbl (steps (map (\<lambda>(t, k). index_add E c n t k) ks)) A (add_keys n ks A)"
  using assms(1)
proof (induction ks arbitrary: A)
  case Nil
  then show ?case by (simp add: runs_def)
next
  case (Cons x ks)
  obtain t k where x: "x = (t, k)" by (cases x)
  show ?case
    unfolding x list.map prod.case add_keys_Cons
    by (rule runs_Cons [OF index_add_runs [OF _ assms(2)] Cons.IH]) (use Cons.prems in \<open>auto simp: x\<close>)
qed

lemma index_removes_run:
  assumes "\<And>t k. (t, k) \<in> set ks \<Longrightarrow> t \<notin> map_tables \<and> n \<in> kv_idx A t k" and "n < RDFSTORE_MAXRECORDS"
    and "distinct ks"
  shows "runs E ok tbl (steps (map (\<lambda>(t, k). index_remove E c n t k) ks)) A (remove_keys n ks A)"
  using assms(1,3)
proof (induction ks arbitrary: A)
  case Nil
  then show ?case by (simp add: runs_def)
next
  case (Cons x ks)
  obtain t k where x: "x = (t, k)" by (cases x)
  have rest: "t' \<notin> map_tables \<and> n \<in> kv_idx (put_idx t k (kv_idx A t k - {n}) A) t' k'" if "(t', k') \<in> set ks" for t' k'
    using Cons.prems that by (auto simp: x put_idx_def)
  show ?case
    unfolding x list.map prod.case remove_keys_Cons
    by (rule runs_Cons [OF index_remove_runs [OF _ assms(2)] Cons.IH [OF rest]]) (use Cons.prems in \<open>auto simp: x\<close>)
qed

lemma store_map_runs:
  assumes "t \<in> map_tables"
    and f: "\<And>me. f me = (case be_store (table_ops E) (tables me t) k v of (s, e) \<Rightarrow> Inr (set_table t s me, g e))"
    and "g 0 = None"
  shows "runs E ok tbl f A (put_map t k (Some v) A)"
  unfolding runs_def
proof (intro allI impI)
  fix me assume r: "rep E ok tbl me A"
  obtain s e where st: "be_store (table_ops E) (tables me t) k v = (s, e)" by (metis prod.collapse)
  have ok: "ok (tables me t)" using r by (simp add: rep_def)
  show "\<exists>me'. f me = Inr (me', None) \<and> rep E ok tbl me' (put_map t k (Some v) A) \<and> flags_of me' = flags_of me"
    using st store [OF ok st] store_code [OF ok st] rep_set_table_map [OF r assms(1), of s k "Some v"] assms(3)
    by (intro exI [of _ "set_table t s me"]) (simp add: f)
qed

lemma delete_key_runs:
  assumes "t \<in> map_tables" and "kv_map A t k \<noteq> None"
  shows "runs E ok tbl (delete_key E t k) A (put_map t k None A)"
  unfolding runs_def
proof (intro allI impI)
  fix me assume r: "rep E ok tbl me A"
  obtain s e where d: "be_delete (table_ops E) (tables me t) k = (s, e)" by (metis prod.collapse)
  have ok: "ok (tables me t)" and "tbl (tables me t) k \<noteq> None" using r assms by (simp_all add: rep_def)
  then have "e = 0" using delete_found [OF ok _ d] by blast
  then show "\<exists>me'. delete_key E t k me = Inr (me', None) \<and> rep E ok tbl me' (put_map t k None A) \<and> flags_of me' = flags_of me"
    using d delete [OF ok d] rep_set_table_map [OF r assms(1), of s k None]
    by (intro exI [of _ "set_table t s me"]) (simp add: delete_key_def)
qed

lemma count_removed_runs:
  assumes "kv_map A T_model RDFSTORE_COUNTER_REMOVED_KEY = Some v"
  shows "runs E ok tbl (count_removed E) A
    (put_map T_model RDFSTORE_COUNTER_REMOVED_KEY (Some (packInt (unpackInt v + 1))) A)"
  unfolding runs_def
proof (intro allI impI)
  fix me assume r: "rep E ok tbl me A"
  obtain s q where d: "be_inc (table_ops E) (tables me T_model) RDFSTORE_COUNTER_REMOVED_KEY = (s, q)" by (metis prod.collapse)
  have m: "T_model \<in> map_tables" by (simp add: map_tables_def)
  have ok: "ok (tables me T_model)" and "tbl (tables me T_model) RDFSTORE_COUNTER_REMOVED_KEY = Some v"
    using r assms m by (simp_all add: rep_def)
  note I = inc [OF this d]
  show "\<exists>me'. count_removed E me = Inr (me', None)
      \<and> rep E ok tbl me' (put_map T_model RDFSTORE_COUNTER_REMOVED_KEY (Some (packInt (unpackInt v + 1))) A)
      \<and> flags_of me' = flags_of me"
    using d I rep_set_table_map [OF r m, of s RDFSTORE_COUNTER_REMOVED_KEY "Some (packInt (unpackInt v + 1))"]
    by (intro exI [of _ "set_table T_model s me"]) (simp add: count_removed_def)
qed

lemma sync_tables_runs: "runs E ok tbl (sync_tables E ctx) A A"
proof -
  have keep: "rep E ok tbl (foldl (\<lambda>me t. set_table t (fst (be_sync (table_ops E) (tables me t))) me) me ts) A
      \<and> flags_of (foldl (\<lambda>me t. set_table t (fst (be_sync (table_ops E) (tables me t))) me) me ts) = flags_of me"
    if "rep E ok tbl me A" for me ts
    using that
  proof (induction ts arbitrary: me)
    case (Cons t ts)
    obtain s e where sy: "be_sync (table_ops E) (tables me t) = (s, e)" by (metis prod.collapse)
    have "ok (tables me t)" using Cons.prems by (simp add: rep_def)
    from rep_set_table_same [OF Cons.prems, of s t] sync [OF this sy] Cons.IH [of "set_table t s me"] sy
    show ?case by simp
  qed simp
  have go: "\<exists>ts. sync_tables E ctx me
      = Inr (foldl (\<lambda>me t. set_table t (fst (be_sync (table_ops E) (tables me t))) me) me ts, None)" for me
  proof (cases "me_sync me \<and> \<not> me_flag me")
    case True
    then show ?thesis unfolding sync_tables_def if_P [OF True] by blast
  next
    case False
    then show ?thesis unfolding sync_tables_def if_not_P [OF False] by (intro exI [of _ "[]"]) simp
  qed
  show ?thesis
    unfolding runs_def
  proof (intro allI impI)
    fix me assume r: "rep E ok tbl me A"
    obtain ts where "sync_tables E ctx me
        = Inr (foldl (\<lambda>me t. set_table t (fst (be_sync (table_ops E) (tables me t))) me) me ts, None)"
      using go by blast
    with keep [OF r, of ts] show "\<exists>me'. sync_tables E ctx me = Inr (me', None) \<and> rep E ok tbl me' A \<and> flags_of me' = flags_of me"
      by blast
  qed
qed

end

end
