(* ===== verification/Store.thy ===== *)
theory Store
  imports Kernel
begin

text \<open>
  What a store holds, and that \<open>rdfstore_insert\<close> and \<open>rdfstore_remove\<close> keep it: without a text
  index, a store is a set of statements with their contexts, every table of bit vectors has
  under a key the identifiers of exactly the statements with that key, and every history of
  insertions and removals returns what it returns on the set.
\<close>

section \<open>What a store holds\<close>

text \<open>
  The statements of a store by their identifiers, each with the context it was inserted in; its
  cached hash code is left out. \<open>n\<close> identifiers have been given away.
\<close>

type_synonym statements = "nat \<Rightarrow> (RDF_Statement \<times> resource option) option"

definition plain :: "RDF_Statement \<Rightarrow> RDF_Statement" where
  "plain st = st\<lparr>hashcode := 0\<rparr>"

definition statement_hash :: "'s kernel_env \<Rightarrow> RDF_Statement \<times> resource option \<Rightarrow> u32" where
  "statement_hash E x = rdfstore_digest_crc64 (rdfstore_digest_get_statement_digest (sha1 E) (fst x) (snd x))"

lemma hashCode_fresh:
  "hashcode st \<in> {0, statement_hash E (st, ctx)} \<Longrightarrow>
    rdfstore_digest_get_statement_hashCode (sha1 E) st ctx = statement_hash E (st, ctx)"
  by (auto simp: rdfstore_digest_get_statement_hashCode_def statement_hash_def)

definition found_under :: "'s kernel_env \<Rightarrow> statements \<Rightarrow> table \<Rightarrow> flat_key \<Rightarrow> nat set" where
  "found_under E M t k = {i. \<exists>x. M i = Some x \<and> (t, k) \<in> set (index_keys E (fst x) (snd x))}"

definition id_key :: "nat \<Rightarrow> flat_key" where
  "id_key i = packInt (of_nat i)"

definition contents :: "'s kernel_env \<Rightarrow> kview \<Rightarrow> nat \<Rightarrow> statements \<Rightarrow> bool" where
  "contents E A n M \<longleftrightarrow> n \<le> RDFSTORE_MAXRECORDS
     \<and> (\<forall>i. n \<le> i \<longrightarrow> M i = None)
     \<and> kv_map A T_model RDFSTORE_COUNTER_KEY = Some (id_key n)
     \<and> kv_map A T_model RDFSTORE_COUNTER_REMOVED_KEY = Some (id_key (n - card (dom M)))
     \<and> (\<forall>i<RDFSTORE_MAXRECORDS. kv_map A T_nodes (id_key i) = map_option (\<lambda>x. insert_record (fst x) (snd x)) (M i))
     \<and> (\<forall>k v. kv_map A T_statements k = Some v
          \<longleftrightarrow> (\<exists>i x. M i = Some x \<and> packInt (statement_hash E x) = k \<and> v = id_key i))
     \<and> (\<forall>t k. t \<notin> map_tables \<longrightarrow> t \<noteq> T_windex \<longrightarrow> kv_idx A t k = found_under E M t k)"

definition store_holds ::
  "'s kernel_env \<Rightarrow> ('s \<Rightarrow> bool) \<Rightarrow> ('s \<Rightarrow> flat_key \<Rightarrow> flat_data option) \<Rightarrow> 's rdfstore \<Rightarrow> nat \<Rightarrow> statements \<Rightarrow> bool"
where
  "store_holds E ok tbl me n M \<longleftrightarrow> (\<exists>A. rep E ok tbl me A \<and> contents E A n M)"

lemma u32_of_nat: "i < 2 ^ 32 \<Longrightarrow> unat (of_nat i :: u32) = i"
  by (simp add: unsigned_of_nat take_bit_nat_eq_self)

lemma id_key_inject: "i < RDFSTORE_MAXRECORDS \<Longrightarrow> j \<le> RDFSTORE_MAXRECORDS \<Longrightarrow> id_key i = id_key j \<longleftrightarrow> i = j"
proof -
  assume "i < RDFSTORE_MAXRECORDS" "j \<le> RDFSTORE_MAXRECORDS"
  then have "i < 2 ^ 32" "j < 2 ^ 32" by (simp_all add: RDFSTORE_MAXRECORDS_def)
  then show ?thesis unfolding id_key_def packInt_inject by (metis u32_of_nat)
qed

lemma unpack_id_key: "i \<le> RDFSTORE_MAXRECORDS \<Longrightarrow> unat (unpackInt (id_key i)) = i"
  by (simp add: id_key_def RDFSTORE_MAXRECORDS_def u32_of_nat)

lemma id_key_Suc: "packInt (unpackInt (id_key n) + 1) = id_key (Suc n)"
  by (simp add: id_key_def add.commute)

lemma model_keys: "RDFSTORE_COUNTER_KEY \<noteq> RDFSTORE_COUNTER_REMOVED_KEY"
  "RDFSTORE_COUNTER_KEY \<noteq> RDFSTORE_LASTMODIFIED_KEY" "RDFSTORE_COUNTER_REMOVED_KEY \<noteq> RDFSTORE_LASTMODIFIED_KEY"
  by (simp_all add: RDFSTORE_COUNTER_KEY_def RDFSTORE_COUNTER_REMOVED_KEY_def RDFSTORE_LASTMODIFIED_KEY_def bytes_of_def)

lemma statement_hash_plain [simp]: "statement_hash E (plain st, ctx) = statement_hash E (st, ctx)"
  by (cases ctx) (simp_all add: plain_def statement_hash_def rdfstore_digest_get_statement_digest_def statement_digest_input_def)

lemma plain_simps [simp]:
  "insert_record (plain st) ctx = insert_record st ctx"
  "index_keys E (plain st) ctx = index_keys E st ctx"
  "object (plain st) = object st"
  by (simp_all add: plain_def insert_record_def record_lengths_def record_mask_def index_keys_def node_keys_def)

lemma contents_statements:
  "contents E A n M \<Longrightarrow>
    kv_map A T_statements (packInt h) = Some v \<longleftrightarrow> (\<exists>i x. M i = Some x \<and> statement_hash E x = h \<and> v = id_key i)"
  by (simp add: contents_def)

lemma contents_absent:
  assumes "contents E A n M" and "\<And>i x. M i = Some x \<Longrightarrow> statement_hash E x \<noteq> h"
  shows "kv_map A T_statements (packInt h) = None"
  using contents_statements [OF assms(1), of h] assms(2) by (metis option.exhaust)

lemma contents_present:
  assumes "contents E A n M" and "M i = Some x" and "statement_hash E x = h"
  shows "kv_map A T_statements (packInt h) = Some (id_key i)"
  using contents_statements [OF assms(1), of h "id_key i"] assms(2,3) by blast

lemma contents_unique:
  assumes "contents E A n M" and "M i = Some x" and "M j = Some y" and "statement_hash E x = statement_hash E y"
  shows "i = j"
proof -
  have "i < n" "j < n" "n \<le> RDFSTORE_MAXRECORDS"
    using assms(1-3) unfolding contents_def by (metis not_le option.distinct(1))+
  moreover have "id_key i = id_key j"
    using contents_present [OF assms(1,2) assms(4)] contents_present [OF assms(1,3) refl] by simp
  ultimately show ?thesis using id_key_inject [of i j] by simp
qed

lemma contents_dom: "contents E A n M \<Longrightarrow> finite (dom M) \<and> card (dom M) \<le> n"
proof -
  assume "contents E A n M"
  then have "dom M \<subseteq> {..<n}" unfolding contents_def by (auto simp: not_le [symmetric])
  then show ?thesis using card_mono [of "{..<n}" "dom M"] finite_subset by auto
qed

section \<open>Insertion\<close>

definition new_view :: "'s kernel_env \<Rightarrow> RDF_Statement \<Rightarrow> resource option \<Rightarrow> nat \<Rightarrow> kview \<Rightarrow> kview" where
  "new_view E st ctx n A =
     put_map T_model RDFSTORE_LASTMODIFIED_KEY (Some (time_stamp E @ [0]))
       (put_map T_statements (packInt (statement_hash E (st, ctx))) (Some (id_key n))
         (add_keys n (index_keys E st ctx)
           (put_map T_nodes (id_key n) (Some (insert_record st ctx))
             (put_map T_model RDFSTORE_COUNTER_KEY (Some (id_key (Suc n))) A))))"

lemma contents_insert:
  assumes c: "contents E A n M" and n: "n < RDFSTORE_MAXRECORDS"
    and new: "\<And>i x. M i = Some x \<Longrightarrow> statement_hash E x \<noteq> statement_hash E (st, ctx)"
  shows "contents E (new_view E st ctx n A) (Suc n) (M(n \<mapsto> (plain st, ctx)))"
proof -
  have "M n = None" using c by (simp add: contents_def)
  then have removed: "Suc n - card (dom (M(n \<mapsto> (plain st, ctx)))) = n - card (dom M)"
    using contents_dom [OF c] by (simp add: domIff)
  have idx: "kv_idx (new_view E st ctx n A) t k = found_under E (M(n \<mapsto> (plain st, ctx))) t k"
    if "kv_idx A t k = found_under E M t k" for t k
    using that c by (auto simp: new_view_def put_map_def add_keys_def found_under_def contents_def)
  have stm: "kv_map (new_view E st ctx n A) T_statements k = Some v
      \<longleftrightarrow> (\<exists>i x. (M(n \<mapsto> (plain st, ctx))) i = Some x \<and> packInt (statement_hash E x) = k \<and> v = id_key i)" for k v
  proof (cases "k = packInt (statement_hash E (st, ctx))")
    case True
    then have "kv_map (new_view E st ctx n A) T_statements k = Some (id_key n)"
      by (simp add: new_view_def put_map_def add_keys_def)
    then show ?thesis using True new by (auto split: if_splits)
  next
    case False
    then have "kv_map (new_view E st ctx n A) T_statements k = kv_map A T_statements k"
      by (simp add: new_view_def put_map_def add_keys_def)
    moreover have "(\<exists>i x. M i = Some x \<and> packInt (statement_hash E x) = k \<and> v = id_key i)
        \<longleftrightarrow> (\<exists>i x. (M(n \<mapsto> (plain st, ctx))) i = Some x \<and> packInt (statement_hash E x) = k \<and> v = id_key i)"
      using False \<open>M n = None\<close> statement_hash_plain [of E st ctx] by (metis fun_upd_apply option.inject option.distinct(1))
    ultimately show ?thesis using c unfolding contents_def by simp
  qed
  show ?thesis
    unfolding contents_def
  proof (intro conjI allI impI)
    fix t k assume "t \<notin> map_tables" "t \<noteq> T_windex"
    then show "kv_idx (new_view E st ctx n A) t k = found_under E (M(n \<mapsto> (plain st, ctx))) t k"
      using c idx by (simp add: contents_def)
  next
    fix i assume "i < RDFSTORE_MAXRECORDS"
    then show "kv_map (new_view E st ctx n A) T_nodes (id_key i)
        = map_option (\<lambda>x. insert_record (fst x) (snd x)) ((M(n \<mapsto> (plain st, ctx))) i)"
      using c n id_key_inject [of i n] by (simp add: contents_def new_view_def put_map_def add_keys_def)
  next
    show "kv_map (new_view E st ctx n A) T_model RDFSTORE_COUNTER_REMOVED_KEY
        = Some (id_key (Suc n - card (dom (M(n \<mapsto> (plain st, ctx))))))"
      unfolding removed using c model_keys by (simp add: contents_def new_view_def put_map_def add_keys_def)
  qed (use c n stm model_keys in \<open>auto simp: contents_def new_view_def put_map_def add_keys_def\<close>)
qed

definition parse_type_ok :: "RDF_Node \<Rightarrow> bool" where
  "parse_type_ok ob = (case ob of Resource r \<Rightarrow> True
     | Literal l \<Rightarrow> (case dataType l of None \<Rightarrow> True
         | Some dt \<Rightarrow> parseType l = 1 \<longleftrightarrow> dt = RDFSTORE_RDF_PARSETYPE_LITERAL))"

lemma check_parse_type_ok: "parse_type_ok ob \<Longrightarrow> check_parse_type ob me = Inr (me, None)"
  by (auto simp: parse_type_ok_def check_parse_type_def split: RDF_Node.splits option.splits)

lemma add_keys_append: "add_keys n ks (add_keys n ks' A) = add_keys n (ks' @ ks) A"
  by (auto simp: add_keys_def fun_eq_iff intro!: kview.equality)

lemma add_keys_cong: "set ks = set ks' \<Longrightarrow> add_keys n ks A = add_keys n ks' A"
  by (simp add: add_keys_def)

lemma put_map_same: "kv_map A t k = v \<Longrightarrow> put_map t k v A = A"
  by (auto simp: put_map_def intro!: kview.equality)

lemma insert_items:
  "indexable E ob \<Longrightarrow> map (insert_item E n) (object_items E False ob)
     = map (\<lambda>(t, k). index_add E False n t k) (map item_key (object_items E False ob))"
  by (auto simp: indexable_def is_item_def insert_item_def)

lemma remove_items:
  "indexable E ob \<Longrightarrow> map (remove_item E n) (object_items E False ob)
     = map (\<lambda>(t, k). index_remove E True n t k) (map item_key (object_items E False ob))"
  by (auto simp: indexable_def is_item_def remove_item_def)

definition counted_view :: "nat \<Rightarrow> kview \<Rightarrow> kview" where
  "counted_view n A = put_map T_model RDFSTORE_COUNTER_KEY (Some (id_key (Suc n))) A"

context kernel
begin

lemma rep_contents_map:
  assumes "rep E ok tbl me A"
  shows "tbl (tables me T_model) = kv_map A T_model" and "tbl (tables me T_nodes) = kv_map A T_nodes"
    and "tbl (tables me T_statements) = kv_map A T_statements" and "ok (tables me t)"
  using assms by (simp_all add: rep_def map_tables_def)

lemma insert_steps_run:
  assumes "parse_type_ok (object st)" and "indexable E (object st)" and "n < RDFSTORE_MAXRECORDS"
    and "hc = statement_hash E (st, ctx)"
  shows "runs E ok tbl (steps (insert_steps E False st ctx hc n)) (counted_view n A) (new_view E st ctx n A)"
proof -
  let ?A1 = "counted_view n A"
  let ?A2 = "put_map T_nodes (id_key n) (Some (insert_record st ctx)) ?A1"
  let ?items = "map item_key (object_items E False (object st))"
  let ?A3 = "add_keys n ?items ?A2"
  let ?A4 = "add_keys n (node_keys E st @ context_keys E ctx) ?A3"
  let ?A5 = "put_map T_statements (packInt hc) (Some (id_key n)) ?A4"
  have tabs: "t \<notin> map_tables" if "(t, k) \<in> set ?items \<or> (t, k) \<in> set (node_keys E st @ context_keys E ctx)" for t k
    by (rule index_keys_tables(1) [OF assms(2), of t k ctx]) (use that in \<open>auto simp: index_keys_def\<close>)
  have 1: "runs E ok tbl (check_parse_type (object st)) ?A1 ?A1"
    unfolding runs_def using check_parse_type_ok [OF assms(1)] by blast
  have 2: "runs E ok tbl (store_node E n st ctx) ?A1 ?A2"
    by (rule store_map_runs [where g = store_result])
      (simp_all add: map_tables_def store_node_def id_key_def store_result_def)
  have 3: "runs E ok tbl (steps (map (insert_item E n) (object_items E False (object st)))) ?A2 ?A3"
    unfolding insert_items [OF assms(2)] by (rule index_adds_run) (use tabs assms(3) in blast)+
  have 4: "runs E ok tbl (steps (map (\<lambda>(t, k). index_add E False n t k) (node_keys E st @ context_keys E ctx))) ?A3 ?A4"
    by (rule index_adds_run) (use tabs assms(3) in blast)+
  have 5: "runs E ok tbl (store_statement E hc n) ?A4 ?A5"
    by (rule store_map_runs [where g = "\<lambda>e. if e \<noteq> 0 then Some (- 1) else None"])
      (simp_all add: map_tables_def store_statement_def id_key_def)
  have 6: "runs E ok tbl (touch E) ?A5 (put_map T_model RDFSTORE_LASTMODIFIED_KEY (Some (time_stamp E @ [0])) ?A5)"
    by (rule store_map_runs [where g = store_result])
      (simp_all add: map_tables_def touch_def store_result_def)
  have "?A4 = add_keys n (index_keys E st ctx) ?A2"
    unfolding add_keys_append by (rule add_keys_cong) (auto simp: index_keys_def)
  then have "put_map T_model RDFSTORE_LASTMODIFIED_KEY (Some (time_stamp E @ [0])) ?A5 = new_view E st ctx n A"
    unfolding new_view_def counted_view_def assms(4) by simp
  note 6 = 6 [unfolded this]
  show ?thesis
    unfolding insert_steps_def
    by (intro runs_append [OF runs_Cons [OF 1 runs_one [OF 2]]] runs_append [OF 3] runs_append [OF 4]
        runs_Cons [OF 5] runs_Cons [OF 6] runs_one sync_tables_runs)
qed

lemma insert_new_spec:
  assumes r: "rep E ok tbl me A" and c: "contents E A n M" and ft: "\<not> freetext me"
    and "parse_type_ok (object st)" and "indexable E (object st)" and n: "n < RDFSTORE_MAXRECORDS"
    and hc: "hc = statement_hash E (st, ctx)"
  obtains me' where "insert_new E st ctx hc me = Inr (me', None)" and "rep E ok tbl me' (new_view E st ctx n A)"
    and "flags_of me' = flags_of me"
proof -
  obtain s q where i: "be_inc (table_ops E) (tables me T_model) RDFSTORE_COUNTER_KEY = (s, q)" by (metis prod.collapse)
  have "tbl (tables me T_model) RDFSTORE_COUNTER_KEY = Some (id_key n)"
    using rep_contents_map(1) [OF r] c by (simp add: contents_def)
  note I = inc [OF rep_contents_map(4) [OF r] this i, unfolded id_key_Suc]
  let ?me = "set_table T_model s me"
  have "rep E ok tbl ?me (counted_view n A)"
    unfolding counted_view_def by (rule rep_set_table_map [OF r]) (use I in \<open>simp_all add: map_tables_def\<close>)
  then obtain me' where go: "steps (insert_steps E False st ctx hc n) ?me = Inr (me', None)"
      "rep E ok tbl me' (new_view E st ctx n A)" "flags_of me' = flags_of ?me"
    using insert_steps_run [OF assms(4,5) n hc, of A] unfolding runs_def by blast
  have "unat (unpackInt (id_key (Suc n))) = Suc n" "unat (unpackInt (id_key (Suc n)) - 1) = n"
  proof -
    show "unat (unpackInt (id_key (Suc n))) = Suc n" using n by (intro unpack_id_key) simp
    have "unpackInt (id_key (Suc n)) - 1 = (of_nat n :: u32)" by (simp add: id_key_def)
    then show "unat (unpackInt (id_key (Suc n)) - 1) = n"
      using n u32_of_nat [of n] by (simp add: RDFSTORE_MAXRECORDS_def)
  qed
  moreover have "\<not> freetext ?me" using ft by (simp add: set_table_def)
  ultimately have "insert_new E st ctx hc me = Inr (me', None)"
    using i I go(1) n by (simp add: insert_new_def Let_def)
  then show thesis using that go by simp
qed

lemma insert_stored:
  assumes r: "rep E ok tbl me A" and c: "contents E A n M" and "\<not> freetext me"
    and "parse_type_ok (object st)" and "indexable E (object st)" and n: "n < RDFSTORE_MAXRECORDS"
    and ctx: "ctx = effective_context me st given"
    and hc: "hashcode st \<in> {0, statement_hash E (st, ctx)}"
    and new: "\<And>i x. M i = Some x \<Longrightarrow> statement_hash E x \<noteq> statement_hash E (st, ctx)"
  obtains me' st' where "rdfstore_insert E me (Some st) given = Inr (me', Some st', 0)" and "plain st' = plain st"
    and "rep E ok tbl me' (new_view E st ctx n A)" and "flags_of me' = flags_of me"
proof -
  obtain s e where x: "be_exists (table_ops E) (tables me T_statements) (packInt (statement_hash E (st, ctx))) = (s, e)"
    by (metis prod.collapse)
  have "kv_map A T_statements (packInt (statement_hash E (st, ctx))) = None"
    using contents_absent [OF c] new by blast
  then have e: "e \<noteq> 0" "ok s" "tbl s = tbl (tables me T_statements)"
    using exists [OF rep_contents_map(4) [OF r] x] rep_contents_map(3) [OF r] by auto
  let ?st = "cache_hashcode me given (statement_hash E (st, ctx)) st" and ?me = "set_table T_statements s me"
  have st: "plain ?st = plain st" by (simp add: plain_def cache_hashcode_def)
  have same: "object ?st = object st" "insert_record ?st ctx = insert_record st ctx"
    "index_keys E ?st ctx = index_keys E st ctx" "statement_hash E (?st, ctx) = statement_hash E (st, ctx)"
    by (metis st plain_simps(3), metis st plain_simps(1), metis st plain_simps(2), metis st statement_hash_plain)
  then have "new_view E ?st ctx n A = new_view E st ctx n A" by (simp add: new_view_def)
  note same = same this
  have "rep E ok tbl ?me A" by (rule rep_set_table_same [OF r]) (use e in auto)
  moreover have "\<not> freetext ?me" using assms(3) by (simp add: set_table_def)
  ultimately obtain me' where ins: "insert_new E ?st ctx (statement_hash E (st, ctx)) ?me = Inr (me', None)"
      "rep E ok tbl me' (new_view E st ctx n A)" "flags_of me' = flags_of ?me"
    using insert_new_spec [of ?me A n M ?st "statement_hash E (st, ctx)" ctx] assms(4,5) c n same by metis
  have "rdfstore_digest_get_statement_hashCode (sha1 E) st ctx = statement_hash E (st, ctx)"
    by (rule hashCode_fresh [OF hc])
  then have "rdfstore_insert E me (Some st) given = Inr (me', Some ?st, 0)"
    using x e(1) ins(1) by (simp add: rdfstore_insert_def ctx [symmetric] Let_def finish_def)
  then show thesis using that ins st by simp
qed

end

section \<open>Removal\<close>

definition gone_view :: "'s kernel_env \<Rightarrow> RDF_Statement \<Rightarrow> resource option \<Rightarrow> nat \<Rightarrow> flat_data \<Rightarrow> kview \<Rightarrow> kview" where
  "gone_view E st ctx i removed A =
     put_map T_model RDFSTORE_LASTMODIFIED_KEY (Some (time_stamp E @ [0]))
       (put_map T_statements (packInt (statement_hash E (st, ctx))) None
         (put_map T_model RDFSTORE_COUNTER_REMOVED_KEY (Some removed)
           (remove_keys i (index_keys E st ctx)
             (put_map T_nodes (id_key i) None A))))"

lemma contents_below: "contents E A n M \<Longrightarrow> M i = Some x \<Longrightarrow> i < n \<and> i < RDFSTORE_MAXRECORDS"
  unfolding contents_def by (metis not_le option.distinct(1) order.strict_trans1 order.trans leI)

lemma contents_remove:
  assumes c: "contents E A n M" and i: "M i = Some (plain st, ctx)"
    and removed: "removed = id_key (Suc (n - card (dom M)))"
  shows "contents E (gone_view E st ctx i removed A) n (M(i := None))"
proof -
  have "i \<in> dom M" "dom (M(i := None)) = dom M - {i}" using i by auto
  then have fewer: "n - card (dom (M(i := None))) = Suc (n - card (dom M))"
    using contents_dom [OF c] card_Suc_Diff1 [of "dom M" i] by (simp add: Suc_diff_le)
  let ?G = "gone_view E st ctx i removed A"
  have lt: "i < n" "i < RDFSTORE_MAXRECORDS" using contents_below [OF c i] by simp_all
  have idx: "kv_idx ?G t k = found_under E (M(i := None)) t k" if "kv_idx A t k = found_under E M t k" for t k
    using that i by (auto simp: gone_view_def put_map_def remove_keys_def found_under_def)
  have stm: "kv_map ?G T_statements k = Some v
      \<longleftrightarrow> (\<exists>j x. (M(i := None)) j = Some x \<and> packInt (statement_hash E x) = k \<and> v = id_key j)" for k v
  proof (cases "k = packInt (statement_hash E (st, ctx))")
    case True
    have "statement_hash E x \<noteq> statement_hash E (st, ctx)" if "M j = Some x" "j \<noteq> i" for j x
      using contents_unique [OF c that(1) i] that(2) statement_hash_plain [of E st ctx] by auto
    then show ?thesis using True by (auto simp: gone_view_def put_map_def remove_keys_def split: if_splits)
  next
    case False
    then have "kv_map ?G T_statements k = kv_map A T_statements k"
      by (simp add: gone_view_def put_map_def remove_keys_def)
    moreover have "(\<exists>j x. M j = Some x \<and> packInt (statement_hash E x) = k \<and> v = id_key j)
        \<longleftrightarrow> (\<exists>j x. (M(i := None)) j = Some x \<and> packInt (statement_hash E x) = k \<and> v = id_key j)"
      using False i statement_hash_plain [of E st ctx] by (metis fun_upd_apply option.inject option.distinct(1))
    ultimately show ?thesis using c unfolding contents_def by simp
  qed
  show ?thesis
    unfolding contents_def
  proof (intro conjI allI impI)
    fix t k assume "t \<notin> map_tables" "t \<noteq> T_windex"
    then show "kv_idx ?G t k = found_under E (M(i := None)) t k" using c idx by (simp add: contents_def)
  next
    fix j assume "j < RDFSTORE_MAXRECORDS"
    then show "kv_map ?G T_nodes (id_key j) = map_option (\<lambda>x. insert_record (fst x) (snd x)) ((M(i := None)) j)"
      using c lt id_key_inject [of j i] by (simp add: contents_def gone_view_def put_map_def remove_keys_def)
  next
    show "kv_map ?G T_model RDFSTORE_COUNTER_REMOVED_KEY = Some (id_key (n - card (dom (M(i := None)))))"
      unfolding fewer using removed model_keys by (simp add: gone_view_def put_map_def)
  qed (use c stm model_keys in \<open>auto simp: contents_def gone_view_def put_map_def remove_keys_def\<close>)
qed

lemma remove_keys_append: "remove_keys n ks (remove_keys n ks' A) = remove_keys n (ks' @ ks) A"
  by (auto simp: remove_keys_def fun_eq_iff intro!: kview.equality)

lemma kv_idx_remove_keys: "(t, k) \<notin> set ks \<Longrightarrow> kv_idx (remove_keys n ks A) t k = kv_idx A t k"
  by (simp add: remove_keys_def)

context kernel
begin

lemma insert_present:
  assumes r: "rep E ok tbl me A" and c: "contents E A n M"
    and ctx: "ctx = effective_context me st given"
    and hc: "rdfstore_digest_get_statement_hashCode (sha1 E) st ctx = hc"
    and x: "M i = Some x" "statement_hash E x = hc"
  obtains me' st' where "rdfstore_insert E me (Some st) given = Inr (me', Some st', 1)" and "plain st' = plain st"
    and "rep E ok tbl me' A" and "flags_of me' = flags_of me"
proof -
  obtain s e where y: "be_exists (table_ops E) (tables me T_statements) (packInt hc) = (s, e)"
    by (metis prod.collapse)
  have "kv_map A T_statements (packInt hc) = Some (id_key i)"
    by (rule contents_present [OF c x])
  then have e: "e = 0" "ok s" "tbl s = tbl (tables me T_statements)"
    using exists [OF rep_contents_map(4) [OF r] y] rep_contents_map(3) [OF r] by auto
  have "rep E ok tbl (set_table T_statements s me) A" by (rule rep_set_table_same [OF r]) (use e in auto)
  moreover have "rdfstore_insert E me (Some st) given
      = Inr (set_table T_statements s me, Some (cache_hashcode me given hc st), 1)"
    using y e(1) hc by (simp add: rdfstore_insert_def ctx [symmetric] Let_def)
  ultimately show thesis using that by (simp add: plain_def cache_hashcode_def)
qed

lemma insert_full:
  assumes r: "rep E ok tbl me A" and c: "contents E A RDFSTORE_MAXRECORDS M"
    and ctx: "ctx = effective_context me st given"
    and hc: "hashcode st \<in> {0, statement_hash E (st, ctx)}"
    and new: "\<And>i x. M i = Some x \<Longrightarrow> statement_hash E x \<noteq> statement_hash E (st, ctx)"
  obtains me' st' where "rdfstore_insert E me (Some st) given = Inr (me', Some st', - 1)" and "plain st' = plain st"
    and "rep E ok tbl me' A" and "flags_of me' = flags_of me"
proof -
  obtain s e where x: "be_exists (table_ops E) (tables me T_statements) (packInt (statement_hash E (st, ctx))) = (s, e)"
    by (metis prod.collapse)
  have "kv_map A T_statements (packInt (statement_hash E (st, ctx))) = None"
    using contents_absent [OF c] new by blast
  then have e: "e \<noteq> 0" "ok s" "tbl s = tbl (tables me T_statements)"
    using exists [OF rep_contents_map(4) [OF r] x] rep_contents_map(3) [OF r] by auto
  let ?st = "cache_hashcode me given (statement_hash E (st, ctx)) st" and ?m1 = "set_table T_statements s me"
  have r1: "rep E ok tbl ?m1 A" by (rule rep_set_table_same [OF r]) (use e in auto)
  obtain s2 q where i: "be_inc (table_ops E) (tables ?m1 T_model) RDFSTORE_COUNTER_KEY = (s2, q)" by (metis prod.collapse)
  have m: "T_model \<in> map_tables" by (simp add: map_tables_def)
  have cnt: "kv_map A T_model RDFSTORE_COUNTER_KEY = Some (id_key RDFSTORE_MAXRECORDS)" using c by (simp add: contents_def)
  then have "tbl (tables ?m1 T_model) RDFSTORE_COUNTER_KEY = Some (id_key RDFSTORE_MAXRECORDS)"
    using rep_contents_map(1) [OF r1] by simp
  note I = inc [OF rep_contents_map(4) [OF r1] this i, unfolded id_key_Suc]
  let ?m2 = "set_table T_model s2 ?m1" and ?new = "id_key (Suc RDFSTORE_MAXRECORDS)"
  have r2: "rep E ok tbl ?m2 (put_map T_model RDFSTORE_COUNTER_KEY (Some ?new) A)"
    by (rule rep_set_table_map [OF r1 m]) (use I in simp_all)
  obtain s3 q3 where d: "be_dec (table_ops E) (tables ?m2 T_model) RDFSTORE_COUNTER_KEY = (s3, q3)" by (metis prod.collapse)
  have big: "unat (unpackInt ?new) = Suc RDFSTORE_MAXRECORDS"
    unfolding id_key_def by (simp add: RDFSTORE_MAXRECORDS_def)
  then have "unpackInt ?new \<noteq> 0" by (metis unsigned_0 nat.distinct(1))
  moreover have "tbl (tables ?m2 T_model) RDFSTORE_COUNTER_KEY = Some ?new"
    using rep_contents_map(1) [OF r2] by (simp add: put_map_def)
  ultimately have D: "ok s3" "tbl s3 = (tbl (tables ?m2 T_model))(RDFSTORE_COUNTER_KEY \<mapsto> packInt (unpackInt ?new - 1))"
    using dec [OF rep_contents_map(4) [OF r2] _ _ d] by blast+
  have down: "packInt (unpackInt ?new - 1) = id_key RDFSTORE_MAXRECORDS" by (simp add: id_key_def)
  have "rep E ok tbl (set_table T_model s3 ?m2)
      (put_map T_model RDFSTORE_COUNTER_KEY (Some (id_key RDFSTORE_MAXRECORDS))
        (put_map T_model RDFSTORE_COUNTER_KEY (Some ?new) A))"
    by (rule rep_set_table_map [OF r2 m]) (use D down in simp_all)
  moreover have "put_map T_model RDFSTORE_COUNTER_KEY (Some (id_key RDFSTORE_MAXRECORDS))
        (put_map T_model RDFSTORE_COUNTER_KEY (Some ?new) A) = A"
    using cnt by (auto simp: put_map_def fun_eq_iff intro!: kview.equality)
  ultimately have r3: "rep E ok tbl (set_table T_model s3 ?m2) A" by simp
  have "insert_new E ?st ctx (statement_hash E (st, ctx)) ?m1 = Inr (set_table T_model s3 ?m2, Some (- 1))"
    using i I d big by (simp add: insert_new_def Let_def)
  moreover have "rdfstore_digest_get_statement_hashCode (sha1 E) st ctx = statement_hash E (st, ctx)"
    by (rule hashCode_fresh [OF hc])
  ultimately have "rdfstore_insert E me (Some st) given = Inr (set_table T_model s3 ?m2, Some ?st, - 1)"
    using x e(1) by (simp add: rdfstore_insert_def ctx [symmetric] Let_def finish_def)
  then show thesis using that r3 by (simp add: plain_def cache_hashcode_def)
qed

end

context kernel
begin

lemma remove_steps_run:
  assumes c: "contents E A n M" and i: "M i = Some (plain st, ctx)" and ob: "indexable E (object st)"
    and hc: "hc = statement_hash E (st, ctx)"
  shows "runs E ok tbl (steps (remove_steps E False st ctx hc i)) A
    (gone_view E st ctx i (id_key (Suc (n - card (dom M)))) A)"
proof -
  let ?v = "id_key (n - card (dom M))"
  have v: "kv_map A T_model RDFSTORE_COUNTER_REMOVED_KEY = Some ?v" using c by (simp add: contents_def)
  have lt: "i < RDFSTORE_MAXRECORDS" using contents_below [OF c i] by simp
  let ?A1 = "put_map T_nodes (id_key i) None A"
  let ?items = "map item_key (object_items E False (object st))"
  let ?A2 = "remove_keys i (node_keys E st) ?A1"
  let ?A3 = "remove_keys i (context_keys E ctx) ?A2"
  let ?A4 = "remove_keys i ?items ?A3"
  let ?A5 = "put_map T_model RDFSTORE_COUNTER_REMOVED_KEY (Some (id_key (Suc (n - card (dom M))))) ?A4"
  let ?A6 = "put_map T_statements (packInt hc) None ?A5"
  have dist: "distinct (index_keys E st ctx)" by (rule distinct_index_keys [OF ob])
  then have d: "distinct (node_keys E st)" "distinct (context_keys E ctx)" "distinct ?items"
    "set (node_keys E st) \<inter> set (context_keys E ctx) = {}"
    "set (node_keys E st @ context_keys E ctx) \<inter> set ?items = {}"
    unfolding index_keys_def by auto
  have tabs: "t \<notin> map_tables" and mem: "i \<in> kv_idx ?A1 t k" if "(t, k) \<in> set (index_keys E st ctx)" for t k
  proof -
    show "t \<notin> map_tables" by (rule index_keys_tables(1) [OF ob that])
    moreover have "t \<noteq> T_windex" by (rule index_keys_tables(2) [OF ob that])
    ultimately have "kv_idx A t k = found_under E M t k" using c unfolding contents_def by blast
    then show "i \<in> kv_idx ?A1 t k" using i that by (auto simp: found_under_def put_map_def)
  qed
  have sub: "x \<in> set (index_keys E st ctx)"
    if "x \<in> set (node_keys E st) \<or> x \<in> set (context_keys E ctx) \<or> x \<in> set ?items" for x
    using that by (auto simp: index_keys_def)
  have 1: "runs E ok tbl (delete_key E T_nodes (packInt (of_nat i))) A ?A1"
    unfolding id_key_def [symmetric]
    by (rule delete_key_runs) (use c i lt in \<open>simp_all add: map_tables_def contents_def\<close>)
  have 2: "runs E ok tbl (steps (map (\<lambda>(t, k). index_remove E False i t k) (node_keys E st))) ?A1 ?A2"
    by (rule index_removes_run) (use tabs mem sub lt d in \<open>blast+\<close>)
  have m2: "i \<in> kv_idx ?A2 t k" if "(t, k) \<in> set (context_keys E ctx)" for t k
  proof -
    have "(t, k) \<notin> set (node_keys E st)" using d(4) that by blast
    then show ?thesis using mem [of t k] sub that by (simp add: kv_idx_remove_keys)
  qed
  have 3: "runs E ok tbl (steps (map (\<lambda>(t, k). index_remove E True i t k) (context_keys E ctx))) ?A2 ?A3"
    by (rule index_removes_run) (use tabs m2 sub lt d in \<open>blast+\<close>)
  have m3: "i \<in> kv_idx ?A3 t k" if "(t, k) \<in> set ?items" for t k
  proof -
    have "(t, k) \<notin> set (node_keys E st)" "(t, k) \<notin> set (context_keys E ctx)" using d(5) that by auto
    then show ?thesis using mem [of t k] sub [of "(t, k)"] that by (simp add: kv_idx_remove_keys)
  qed
  have 4: "runs E ok tbl (steps (map (remove_item E i) (object_items E False (object st)))) ?A3 ?A4"
    unfolding remove_items [OF ob] by (rule index_removes_run) (use tabs m3 sub lt d in \<open>blast+\<close>)
  have 5: "runs E ok tbl (count_removed E) ?A4 ?A5"
    unfolding id_key_Suc [symmetric] by (rule count_removed_runs) (simp add: remove_keys_def put_map_def v)
  have "kv_map A T_statements (packInt hc) \<noteq> None"
    using contents_present [OF c i] statement_hash_plain [of E st ctx] hc by simp
  then have 6: "runs E ok tbl (delete_key E T_statements (packInt hc)) ?A5 ?A6"
    by (intro delete_key_runs) (simp_all add: map_tables_def remove_keys_def put_map_def)
  have 7: "runs E ok tbl (touch E) ?A6 (put_map T_model RDFSTORE_LASTMODIFIED_KEY (Some (time_stamp E @ [0])) ?A6)"
    by (rule store_map_runs [where g = store_result])
      (simp_all add: map_tables_def touch_def store_result_def)
  have "?A4 = remove_keys i (index_keys E st ctx) ?A1"
    unfolding remove_keys_append index_keys_def by simp
  then have "put_map T_model RDFSTORE_LASTMODIFIED_KEY (Some (time_stamp E @ [0])) ?A6
      = gone_view E st ctx i (id_key (Suc (n - card (dom M)))) A"
    unfolding gone_view_def hc by simp
  note 7 = 7 [unfolded this]
  show ?thesis
    unfolding remove_steps_def
    by (intro runs_append [OF runs_one [OF 1]] runs_append [OF 2] runs_append [OF 3] runs_append [OF 4]
        runs_Cons [OF 5] runs_Cons [OF 6] runs_Cons [OF 7] runs_one sync_tables_runs)
qed

lemma remove_stored:
  assumes r: "rep E ok tbl me A" and c: "contents E A n M" and "\<not> freetext me"
    and i: "M i = Some (plain st, ctx)" and ob: "indexable E (object st)"
    and ctx: "ctx = effective_context me st given"
    and hc: "hashcode st \<in> {0, statement_hash E (st, ctx)}"
  obtains me' st' where "rdfstore_remove E me (Some st) given = Inr (me', Some st', 0)" and "plain st' = plain st"
    and "rep E ok tbl me' (gone_view E st ctx i (id_key (Suc (n - card (dom M)))) A)" and "flags_of me' = flags_of me"
proof -
  let ?hc = "statement_hash E (st, ctx)"
  obtain s q where f: "be_fetch (table_ops E) (tables me T_statements) (packInt ?hc) = (s, q)" by (metis prod.collapse)
  have "kv_map A T_statements (packInt ?hc) = Some (id_key i)"
    using contents_present [OF c i] statement_hash_plain [of E st ctx] by simp
  then have F: "q = Inr (id_key i)" "ok s" "tbl s = tbl (tables me T_statements)"
    using fetch [OF rep_contents_map(4) [OF r] f] rep_contents_map(3) [OF r] by simp_all
  let ?st = "cache_hashcode me given ?hc st" and ?me = "set_table T_statements s me"
  have st: "plain ?st = plain st" by (simp add: plain_def cache_hashcode_def)
  have same: "object ?st = object st" "index_keys E ?st ctx = index_keys E st ctx" "statement_hash E (?st, ctx) = ?hc"
    by (metis st plain_simps(3), metis st plain_simps(2), metis st statement_hash_plain)
  have gv: "gone_view E ?st ctx i v A = gone_view E st ctx i v A" for v by (simp add: gone_view_def same)
  have lt: "unat (unpackInt (id_key i)) = i" using contents_below [OF c i] by (intro unpack_id_key) simp
  have r1: "rep E ok tbl ?me A" by (rule rep_set_table_same [OF r]) (use F in auto)
  have ft: "freetext ?me = False" using assms(3) by (simp add: set_table_def)
  have i': "M i = Some (plain ?st, ctx)" and ob': "indexable E (object ?st)" using i ob st same(1) by simp_all
  have "runs E ok tbl (steps (remove_steps E False ?st ctx ?hc i)) A
      (gone_view E ?st ctx i (id_key (Suc (n - card (dom M)))) A)"
    by (rule remove_steps_run [OF c i' ob']) (simp only: same(3))
  then obtain me' where me': "steps (remove_steps E False ?st ctx ?hc i) ?me = Inr (me', None)"
      "rep E ok tbl me' (gone_view E st ctx i (id_key (Suc (n - card (dom M)))) A)" "flags_of me' = flags_of ?me"
    using r1 unfolding runs_def gv by blast
  have "rdfstore_digest_get_statement_hashCode (sha1 E) st ctx = ?hc"
    by (rule hashCode_fresh [OF hc])
  then have "rdfstore_remove E me (Some st) given = Inr (me', Some ?st, 0)"
    using f F(1) me'(1) lt ft by (simp add: rdfstore_remove_def ctx [symmetric] Let_def finish_def)
  then show thesis using that me' st by simp
qed

lemma remove_absent:
  assumes r: "rep E ok tbl me A" and c: "contents E A n M"
    and ctx: "ctx = effective_context me st given"
    and hc: "hashcode st \<in> {0, statement_hash E (st, ctx)}"
    and new: "\<And>i x. M i = Some x \<Longrightarrow> statement_hash E x \<noteq> statement_hash E (st, ctx)"
  obtains me' st' where "rdfstore_remove E me (Some st) given = Inr (me', Some st', 1)" and "plain st' = plain st"
    and "rep E ok tbl me' A" and "flags_of me' = flags_of me"
proof -
  let ?hc = "statement_hash E (st, ctx)"
  obtain s q where f: "be_fetch (table_ops E) (tables me T_statements) (packInt ?hc) = (s, q)" by (metis prod.collapse)
  have "kv_map A T_statements (packInt ?hc) = None"
    using contents_absent [OF c] new by blast
  then have F: "q = Inl FLAT_STORE_E_NOTFOUND" "ok s" "tbl s = tbl (tables me T_statements)"
    using fetch [OF rep_contents_map(4) [OF r] f] rep_contents_map(3) [OF r] by simp_all
  have "rep E ok tbl (set_table T_statements s me) A" by (rule rep_set_table_same [OF r]) (use F in auto)
  moreover have "rdfstore_digest_get_statement_hashCode (sha1 E) st ctx = ?hc"
    by (rule hashCode_fresh [OF hc])
  then have "rdfstore_remove E me (Some st) given
      = Inr (set_table T_statements s me, Some (cache_hashcode me given ?hc st), 1)"
    using f F(1) by (simp add: rdfstore_remove_def ctx [symmetric] Let_def)
  ultimately show thesis using that by (simp add: plain_def cache_hashcode_def)
qed

end

section \<open>A store as a set of quads\<close>

text \<open>
  The specification: a set of statements, each with its context, and the number of
  identifiers given away. Insertion and removal return what the functions return.
\<close>

type_synonym quad = "RDF_Statement \<times> resource option"

datatype store_call = Call_insert RDF_Statement "resource option" | Call_remove RDF_Statement "resource option"

fun quad_call :: "'s rdfstore \<Rightarrow> store_call \<Rightarrow> nat \<times> quad set \<Rightarrow> (nat \<times> quad set) \<times> int" where
  "quad_call me (Call_insert st given) (n, Q) =
     (let q = (plain st, effective_context me st given) in
      if q \<in> Q then ((n, Q), 1)
      else if n < RDFSTORE_MAXRECORDS then ((Suc n, insert q Q), 0)
      else ((n, Q), - 1))"
| "quad_call me (Call_remove st given) (n, Q) =
     (let q = (plain st, effective_context me st given) in
      if q \<in> Q then ((n, Q - {q}), 0) else ((n, Q), 1))"

fun quad_calls :: "'s rdfstore \<Rightarrow> store_call list \<Rightarrow> nat \<times> quad set \<Rightarrow> (nat \<times> quad set) \<times> int list" where
  "quad_calls me [] S = (S, [])"
| "quad_calls me (c # cs) S =
     (let (S, r) = quad_call me c S; (S, rs) = quad_calls me cs S in (S, r # rs))"

fun run_call :: "'s kernel_env \<Rightarrow> store_call \<Rightarrow> 's rdfstore \<Rightarrow> halt + ('s rdfstore \<times> int)" where
  "run_call E (Call_insert st given) me = bindE (rdfstore_insert E me (Some st) given) (\<lambda>(me, st, r). Inr (me, r))"
| "run_call E (Call_remove st given) me = bindE (rdfstore_remove E me (Some st) given) (\<lambda>(me, st, r). Inr (me, r))"

fun run_calls :: "'s kernel_env \<Rightarrow> store_call list \<Rightarrow> 's rdfstore \<Rightarrow> halt + ('s rdfstore \<times> int list)" where
  "run_calls E [] me = Inr (me, [])"
| "run_calls E (c # cs) me =
     bindE (run_call E c me) (\<lambda>(me, r). bindE (run_calls E cs me) (\<lambda>(me, rs). Inr (me, r # rs)))"

text \<open>
  Calls within a set \<open>X\<close> of quads that the hash codes tell apart: the statement has no hash
  code cached, or its own, and its object can be stored and indexed.
\<close>

fun call_ok :: "'s kernel_env \<Rightarrow> quad set \<Rightarrow> 's rdfstore \<Rightarrow> store_call \<Rightarrow> bool" where
  "call_ok E X me (Call_insert st given) =
     (let ctx = effective_context me st given in
      (plain st, ctx) \<in> X \<and> hashcode st \<in> {0, statement_hash E (st, ctx)}
      \<and> parse_type_ok (object st) \<and> indexable E (object st))"
| "call_ok E X me (Call_remove st given) =
     (let ctx = effective_context me st given in
      (plain st, ctx) \<in> X \<and> hashcode st \<in> {0, statement_hash E (st, ctx)} \<and> indexable E (object st))"

lemma effective_context_flags: "flags_of me' = flags_of me \<Longrightarrow> effective_context me' = effective_context me"
  by (intro ext) (simp add: flags_of_def effective_context_def split: option.split)

lemma flags_calls:
  assumes "flags_of me' = flags_of me"
  shows "call_ok E X me' c = call_ok E X me c" and "quad_call me' c S = quad_call me c S"
    and "quad_calls me' cs S = quad_calls me cs S"
proof -
  note eff = effective_context_flags [OF assms]
  show "call_ok E X me' c = call_ok E X me c" by (cases c) (simp_all add: eff)
  have one: "quad_call me' c S = quad_call me c S" for c S by (cases c; cases S) (simp_all add: eff)
  then show "quad_call me' c S = quad_call me c S" .
  show "quad_calls me' cs S = quad_calls me cs S" by (induction cs arbitrary: S) (simp_all add: one)
qed

lemma ran_remove:
  assumes "contents E A n M" and "M i = Some x"
  shows "ran (M(i := None)) = ran M - {x}"
proof -
  have "j = i" if "M j = Some x" for j using contents_unique [OF assms(1) that assms(2)] by simp
  then have other: "M j = Some x \<longleftrightarrow> j = i" for j using assms(2) by blast
  show ?thesis
  proof (rule set_eqI)
    fix y
    show "y \<in> ran (M(i := None)) \<longleftrightarrow> y \<in> ran M - {x}"
    proof
      assume "y \<in> ran (M(i := None))"
      then obtain j where "j \<noteq> i" "M j = Some y" by (auto simp: ran_def split: if_splits)
      then show "y \<in> ran M - {x}" using other by (auto intro: ranI)
    next
      assume "y \<in> ran M - {x}"
      then obtain j where "M j = Some y" "y \<noteq> x" by (auto simp: ran_def)
      then have "(M(i := None)) j = Some y" using assms(2) by auto
      then show "y \<in> ran (M(i := None))" by (rule ranI)
    qed
  qed
qed

context kernel
begin

lemma run_call_spec:
  assumes h: "store_holds E ok tbl me n M" and ft: "\<not> freetext me"
    and X: "inj_on (statement_hash E) X" "ran M \<subseteq> X" and c: "call_ok E X me c"
  obtains me' n' M' r where "run_call E c me = Inr (me', r)" and "store_holds E ok tbl me' n' M'"
    and "flags_of me' = flags_of me" and "ran M' \<subseteq> X" and "quad_call me c (n, ran M) = ((n', ran M'), r)"
proof -
  obtain A where r: "rep E ok tbl me A" and con: "contents E A n M" using h by (auto simp: store_holds_def)
  have absent: "statement_hash E x \<noteq> statement_hash E (st, ctx)"
    if "(plain st, ctx) \<in> X" "(plain st, ctx) \<notin> ran M" "M i = Some x" for st ctx i x
  proof
    assume "statement_hash E x = statement_hash E (st, ctx)"
    then have "statement_hash E x = statement_hash E (plain st, ctx)" by simp
    then have "x = (plain st, ctx)" using X that by (meson inj_onD ranI subsetD)
    then show False using that by (auto intro: ranI)
  qed
  show thesis
  proof (cases c)
    case (Call_insert st given)
    define ctx where "ctx = effective_context me st given"
    have p: "(plain st, ctx) \<in> X" "hashcode st \<in> {0, statement_hash E (st, ctx)}"
        "parse_type_ok (object st)" "indexable E (object st)"
      using c by (simp_all add: Call_insert Let_def ctx_def)
    show thesis
    proof (cases "(plain st, ctx) \<in> ran M")
      case True
      then obtain i where "M i = Some (plain st, ctx)" by (auto simp: ran_def)
      then obtain me' st' where "rdfstore_insert E me (Some st) given = Inr (me', Some st', 1)"
          "rep E ok tbl me' A" "flags_of me' = flags_of me"
        using insert_present [OF r con ctx_def hashCode_fresh [OF p(2)], of i] statement_hash_plain by metis
      then show thesis
        using that [of me' 1 n M] con X True by (auto simp: Call_insert Let_def ctx_def store_holds_def)
    next
      case False
      show thesis
      proof (cases "n < RDFSTORE_MAXRECORDS")
        case True
        obtain me' st' where i: "rdfstore_insert E me (Some st) given = Inr (me', Some st', 0)"
            "rep E ok tbl me' (new_view E st ctx n A)" "flags_of me' = flags_of me"
          using insert_stored [OF r con ft p(3,4) True ctx_def p(2)] absent [OF p(1) False] by metis
        have con': "contents E (new_view E st ctx n A) (Suc n) (M(n \<mapsto> (plain st, ctx)))"
          using contents_insert [OF con True] absent [OF p(1) False] by blast
        have "M n = None" using con by (simp add: contents_def)
        then have "ran (M(n \<mapsto> (plain st, ctx))) = insert (plain st, ctx) (ran M)" by simp
        then show thesis
          using that [of me' 0 "Suc n" "M(n \<mapsto> (plain st, ctx))"] i con' X p(1) False True
          by (auto simp: Call_insert Let_def ctx_def store_holds_def)
      next
        case full: False
        then have "n = RDFSTORE_MAXRECORDS" using con by (simp add: contents_def)
        then obtain me' st' where i: "rdfstore_insert E me (Some st) given = Inr (me', Some st', - 1)"
            "rep E ok tbl me' A" "flags_of me' = flags_of me"
          using insert_full [OF r _ ctx_def p(2)] con absent [OF p(1) False] by metis
        then show thesis
          using that [of me' "- 1" n M] con X False full by (auto simp: Call_insert Let_def ctx_def store_holds_def)
      qed
    qed
  next
    case (Call_remove st given)
    define ctx where "ctx = effective_context me st given"
    have p: "(plain st, ctx) \<in> X" "hashcode st \<in> {0, statement_hash E (st, ctx)}" "indexable E (object st)"
      using c by (simp_all add: Call_remove Let_def ctx_def)
    show thesis
    proof (cases "(plain st, ctx) \<in> ran M")
      case True
      then obtain i where i: "M i = Some (plain st, ctx)" by (auto simp: ran_def)
      obtain me' st' where rm: "rdfstore_remove E me (Some st) given = Inr (me', Some st', 0)"
          "rep E ok tbl me' (gone_view E st ctx i (id_key (Suc (n - card (dom M)))) A)" "flags_of me' = flags_of me"
        using remove_stored [OF r con ft i p(3) ctx_def p(2)] by metis
      have "ran (M(i := None)) = ran M - {(plain st, ctx)}" by (rule ran_remove [OF con i])
      then show thesis
        using that [of me' 0 n "M(i := None)"] rm contents_remove [OF con i refl] X True
        by (auto simp: Call_remove Let_def ctx_def store_holds_def)
    next
      case False
      obtain me' st' where "rdfstore_remove E me (Some st) given = Inr (me', Some st', 1)"
          "rep E ok tbl me' A" "flags_of me' = flags_of me"
        using remove_absent [OF r con ctx_def p(2)] absent [OF p(1) False] by metis
      then show thesis
        using that [of me' 1 n M] con X False by (auto simp: Call_remove Let_def ctx_def store_holds_def)
    qed
  qed
qed

lemma run_calls_spec:
  assumes "store_holds E ok tbl me n M" and "\<not> freetext me"
    and "inj_on (statement_hash E) X" and "ran M \<subseteq> X" and "\<forall>c\<in>set cs. call_ok E X me c"
  shows "\<exists>me' n' M' rs. run_calls E cs me = Inr (me', rs) \<and> store_holds E ok tbl me' n' M'
    \<and> quad_calls me cs (n, ran M) = ((n', ran M'), rs)"
  using assms
proof (induction cs arbitrary: me n M)
  case (Cons c cs)
  obtain me1 n1 M1 r where s: "run_call E c me = Inr (me1, r)" "store_holds E ok tbl me1 n1 M1"
      "flags_of me1 = flags_of me" "ran M1 \<subseteq> X" "quad_call me c (n, ran M) = ((n1, ran M1), r)"
  proof -
    have "call_ok E X me c" using Cons.prems(5) by simp
    show ?thesis by (rule run_call_spec [OF Cons.prems(1-4) \<open>call_ok E X me c\<close>]) (rule that)
  qed
  have "\<not> freetext me1" using s(3) Cons.prems(2) by (simp add: flags_of_def)
  moreover have "\<forall>c\<in>set cs. call_ok E X me1 c" using Cons.prems(5) flags_calls(1) [OF s(3)] by simp
  ultimately obtain me' n' M' rs where g: "run_calls E cs me1 = Inr (me', rs)" and h: "store_holds E ok tbl me' n' M'"
      and q: "quad_calls me1 cs (n1, ran M1) = ((n', ran M'), rs)"
    using Cons.IH [OF s(2) _ Cons.prems(3) s(4)] by metis
  have "run_calls E (c # cs) me = Inr (me', r # rs)" by (simp add: s(1) g)
  moreover have "quad_calls me (c # cs) (n, ran M) = ((n', ran M'), r # rs)"
    using q unfolding flags_calls(3) [OF s(3)] by (simp add: s(5))
  ultimately show ?case using h by blast
qed auto

end

section \<open>Stores over Berkeley DB\<close>

lemma bdb_exact_table:
  assumes "db_laws D ok tbl walk"
  shows "exact_table (backend_bdb D) ok tbl"
proof (intro exact_table.intro exact_table_axioms.intro bdb_flat_table [OF assms])
  fix s k s' e
  assume s: "ok s" and "tbl s k \<noteq> None" and d: "be_delete (backend_bdb D) s k = (s', e)"
  then have "snd (db_del D s k) = 0" "DB_NOTFOUND D \<noteq> 0" using assms by (simp_all add: db_laws_def)
  then show "e = 0" using d by (auto simp: backend_bdb_def backend_bdb_delete_def split: prod.splits if_splits)
next
  fix s k v s' e
  assume s: "ok s" and d: "be_store (backend_bdb D) s k v = (s', e)"
  then have "snd (db_put D s k v) = 0" using assms by (simp add: db_laws_def)
  then show "e = 0" using d by (auto simp: backend_bdb_def backend_bdb_store_def split: prod.splits if_splits)
next
  fix s k v s' r
  assume s: "ok s" and v: "tbl s k = Some v" and d: "be_inc (backend_bdb D) s k = (s', r)"
  let ?n = "packInt (unpackInt v + 1)"
  have "snd (db_put D s k ?n) = 0 \<and> ok (fst (db_put D s k ?n)) \<and> tbl (fst (db_put D s k ?n)) = (tbl s)(k \<mapsto> ?n)"
    and "db_get D s k = Inr v"
    using assms s v by (simp_all add: db_laws_def)
  then show "ok s' \<and> tbl s' = (tbl s)(k \<mapsto> ?n) \<and> r = Inr ?n"
    using d by (auto simp: backend_bdb_def backend_bdb_inc_def Let_def split: prod.splits)
next
  fix s k v s' r
  assume s: "ok s" and v: "tbl s k = Some v" "unpackInt v \<noteq> 0" and d: "be_dec (backend_bdb D) s k = (s', r)"
  let ?n = "packInt (unpackInt v - 1)"
  have "snd (db_put D s k ?n) = 0 \<and> ok (fst (db_put D s k ?n)) \<and> tbl (fst (db_put D s k ?n)) = (tbl s)(k \<mapsto> ?n)"
    and "db_get D s k = Inr v"
    using assms s v(1) by (simp_all add: db_laws_def)
  moreover have "unpackInt v > 0" using v(2) by (simp add: word_gt_0)
  ultimately show "ok s' \<and> tbl s' = (tbl s)(k \<mapsto> ?n)"
    using d by (auto simp: backend_bdb_def backend_bdb_dec_def Let_def split: prod.splits)
qed

text \<open>
  The coders without the vendored library: copying, and the original one. (Fraenkel coding
  gives back vectors of at most 32768 bytes only.)
\<close>

lemma codec_bcopy: "codec_laws bcopy_coder bcopy_coder"
  unfolding codec_laws_def bcopy_coder_def by (auto intro!: exI [of _ 0])

lemma codec_mine: "codec_laws expand_mine_coder (pure_coder compress_mine)"
  unfolding codec_laws_def
proof (intro allI impI)
  fix buf :: mem and xs :: "byte list"
  assume len: "length xs \<le> MAXRECORDS_BYTES_SIZE" and ne: "\<exists>b\<in>set xs. b \<noteq> 0"
  have "length xs \<le> MAXRUNLENGTH" using len by (simp add: MAXRECORDS_BYTES_SIZE_def MAXRUNLENGTH_def)
  from lossless_mine [OF this] have "lossless (expand_mine_coder, pure_coder compress_mine) xs" .
  then have dec: "\<exists>k. expand_mine_coder buf' (compress_mine xs) = Some (Inr (xs @ replicate k 0))" for buf'
    by (fastforce simp: lossless_def pure_coder_def)
  moreover have "expand_mine (compress_mine xs) buf' = Inr (write_bytes buf' 0 xs, length xs)" for buf'
    using expand_compress_loop [of xs 0 "[]" buf' 0] \<open>length xs \<le> MAXRUNLENGTH\<close>
    by (simp add: expand_mine_def compress_mine_def)
  then have full: "expand_mine_coder buf' (compress_mine xs) = Some (Inr (map (write_bytes buf' 0 xs) [0..<length xs]))" for buf'
    by (simp add: expand_mine_coder_def)
  ultimately have "expand_mine_coder buf' (compress_mine xs) = Some (Inr (xs @ replicate 0 0))" for buf'
    by (metis (no_types, lifting) add_diff_cancel_left' append.right_neutral length_append length_map length_replicate
        length_upt minus_nat.diff_0 option.inject replicate_0 sum.inject(2) self_append_conv)
  moreover have "compress_mine xs \<noteq> []"
  proof
    assume "compress_mine xs = []"
    then have "expand_mine_coder buf [] = Some (Inr (xs @ replicate 0 0))" using calculation by metis
    moreover have "expand_mine_coder buf [] = Some (Inr [])"
      by (simp add: expand_mine_coder_def expand_mine_def expand_loop.simps)
    ultimately show False using ne by auto
  qed
  ultimately show "\<exists>ys z. pure_coder compress_mine buf xs = Some (Inr ys) \<and> ys \<noteq> [] \<and> length xs + z \<le> MAXRECORDS_BYTES_SIZE
      \<and> (\<forall>buf'. expand_mine_coder buf' ys = Some (Inr (xs @ replicate z 0)))"
    using len by (intro exI [of _ "compress_mine xs"] exI [of _ 0]) (simp add: pure_coder_def)
qed

text \<open>The environment of a store over the database \<open>D\<close>\<close>

definition over_bdb :: "'s db \<Rightarrow> 's kernel_env \<Rightarrow> bool" where
  "over_bdb D E \<longleftrightarrow> table_ops E = backend_bdb D \<and> fetch_compressed E = backend_bdb_fetch_compressed D
     \<and> store_compressed E = backend_bdb_store_compressed D"

lemma bdb_kernel:
  assumes "db_laws D ok tbl walk" and "over_bdb D E" and "codec_laws (func_decode E) (func_encode E)"
  shows "kernel E ok tbl"
proof (intro kernel.intro kernel_axioms.intro assms(3))
  show "exact_table (table_ops E) ok tbl"
    using bdb_exact_table [OF assms(1)] assms(2) by (simp add: over_bdb_def)
  show "fetch_compressed E f s k = (case be_fetch (table_ops E) s k of (s', r) \<Rightarrow> (s', map_sum id f r))" for f s k
    using assms(2) by (simp add: over_bdb_def backend_bdb_def backend_bdb_fetch_compressed_def split: prod.split sum.split)
  show "store_compressed E f s k v = be_store (table_ops E) s k (f v)" for f s k v
    using assms(2) by (simp add: over_bdb_def backend_bdb_def backend_bdb_store_compressed_def)
qed

text \<open>
  A store in memory, with the sum of the bytes in front of 16 zero bytes as its digest.
\<close>

definition toy_digest :: "byte list \<Rightarrow> byte list" where
  "toy_digest bs = packInt (sum_list (map ucast bs)) @ replicate 16 0"

definition mem_env :: "((flat_key \<times> flat_data) list \<times> flat_key list) kernel_env" where
  "mem_env =
     \<lparr> table_ops = backend_bdb memdb, fetch_compressed = backend_bdb_fetch_compressed memdb,
       store_compressed = backend_bdb_store_compressed memdb,
       func_decode = bcopy_coder, func_encode = bcopy_coder, sha1 = toy_digest,
       foldedcase = Some, utf8_starts = (\<lambda>_. True), deserialize_integer = (\<lambda>_. None),
       deserialize_double = (\<lambda>_. None), deserialize_dateTime = (\<lambda>_. None), deserialize_date = (\<lambda>_. None),
       time_stamp = [] \<rparr>"

lemma mem_env_kernel: "kernel mem_env (\<lambda>s. distinct (map fst (fst s))) (\<lambda>s. map_of (fst s))"
  by (rule bdb_kernel [OF memdb_laws]) (simp_all add: over_bdb_def mem_env_def codec_bcopy)

interpretation mem_kernel: kernel mem_env "\<lambda>s. distinct (map fst (fst s))" "\<lambda>s. map_of (fst s)"
  by (rule mem_env_kernel)

text \<open>The tables of a store that was just created: the two counters at zero\<close>

definition new_store :: "((flat_key \<times> flat_data) list \<times> flat_key list) rdfstore" where
  "new_store =
     \<lparr> tables = (\<lambda>t. (if t = T_model then [(RDFSTORE_COUNTER_REMOVED_KEY, packInt 0), (RDFSTORE_COUNTER_KEY, packInt 0)]
                     else [], [])),
       bits_decode = (\<lambda>_. 0), bits_encode = (\<lambda>_. 0), freetext = False, me_sync = True, me_flag = False,
       me_context = None \<rparr>"

lemma new_store_holds: "store_holds mem_env (\<lambda>s. distinct (map fst (fst s))) (\<lambda>s. map_of (fst s)) new_store 0 Map.empty"
proof -
  let ?A = "\<lparr>kv_map = \<lambda>t. map_of (fst (tables new_store t)), kv_idx = \<lambda>t k. {}\<rparr>"
  have "rep mem_env (\<lambda>s. distinct (map fst (fst s))) (\<lambda>s. map_of (fst s)) new_store ?A"
    using model_keys by (auto simp: rep_def new_store_def index_rep_def map_tables_def)
  moreover have "contents mem_env ?A 0 Map.empty"
    using model_keys by (simp add: contents_def new_store_def found_under_def id_key_def)
  ultimately show ?thesis unfolding store_holds_def by blast
qed

end
