(* ===== verification/Queries.thy ===== *)
theory Queries
  imports Store
begin

text \<open>
  The smaller functions of \<open>src/rdfstore_kernel.c\<close> on a store: the counters that
  \<open>rdfstore_connect\<close> sets up, \<open>rdfstore_size\<close>, \<open>rdfstore_is_empty\<close>, \<open>rdfstore_contains\<close> and the
  default context; and the properties that join them to insertion and removal.
\<close>

section \<open>Operations\<close>

text \<open>
  The two counters of the model table, made when a store is opened; \<open>named\<close>: the store is
  not in memory, so a store opened read-only must have them.
\<close>

definition init_counter :: "'s kernel_env \<Rightarrow> bool \<Rightarrow> flat_key \<Rightarrow> 's step" where
  "init_counter E named k me =
     (case be_exists (table_ops E) (tables me T_model) k of
        (s, e) \<Rightarrow>
          let me = set_table T_model s me in
          if e \<noteq> 0 then
            if \<not> me_flag me then
              case be_store (table_ops E) (tables me T_model) k (packInt 0) of
                (s, e) \<Rightarrow> Inr (set_table T_model s me, store_result e)
            else Inr (me, if named then Some (- 1) else None)
          else Inr (me, None))"

definition init_counters :: "'s kernel_env \<Rightarrow> bool \<Rightarrow> 's step" where
  "init_counters E named =
     steps [init_counter E named RDFSTORE_COUNTER_REMOVED_KEY, init_counter E named RDFSTORE_COUNTER_KEY]"

text \<open>\<open>None\<close> is the return code \<open>- 1\<close>.\<close>

definition rdfstore_size :: "'s kernel_env \<Rightarrow> 's rdfstore \<Rightarrow> 's rdfstore \<times> u32 option" where
  "rdfstore_size E me =
     (case be_fetch (table_ops E) (tables me T_model) RDFSTORE_COUNTER_REMOVED_KEY of
        (s, Inl err) \<Rightarrow> (set_table T_model s me, None)
      | (s, Inr removed) \<Rightarrow>
          let me = set_table T_model s me in
          (case be_fetch (table_ops E) (tables me T_model) RDFSTORE_COUNTER_KEY of
             (s, Inl err) \<Rightarrow> (set_table T_model s me, None)
           | (s, Inr count) \<Rightarrow> (set_table T_model s me, Some (unpackInt count - unpackInt removed))))"

definition rdfstore_is_empty :: "'s kernel_env \<Rightarrow> 's rdfstore \<Rightarrow> 's rdfstore \<times> int" where
  "rdfstore_is_empty E me = (case rdfstore_size E me of
     (me, None) \<Rightarrow> (me, - 1)
   | (me, Some n) \<Rightarrow> (me, if n > 0 then 1 else 0))"

text \<open>Unlike insertion and removal, \<open>rdfstore_contains\<close> does not look at the default context.\<close>

definition rdfstore_contains ::
  "'s kernel_env \<Rightarrow> 's rdfstore \<Rightarrow> RDF_Statement option \<Rightarrow> resource option
    \<Rightarrow> 's rdfstore \<times> RDF_Statement option \<times> int"
where
  "rdfstore_contains E me statement given_context = (case statement of
     None \<Rightarrow> (me, None, - 1)
   | Some st \<Rightarrow>
       let ctx = (case given_context of None \<Rightarrow> st_context st | Some c \<Rightarrow> Some c);
           hc = rdfstore_digest_get_statement_hashCode (sha1 E) st ctx;
           st = cache_hashcode me given_context hc st
       in case be_fetch (table_ops E) (tables me T_statements) (packInt hc) of
            (s, Inl err) \<Rightarrow> (set_table T_statements s me, Some st, if err \<noteq> FLAT_STORE_E_NOTFOUND then - 1 else 1)
          | (s, Inr d) \<Rightarrow> (set_table T_statements s me, Some st, 0))"

definition rdfstore_set_context :: "'s rdfstore \<Rightarrow> resource option \<Rightarrow> 's rdfstore \<times> int" where
  "rdfstore_set_context me given_context =
     (if me_context me = None \<and> given_context \<noteq> None then (me\<lparr>me_context := given_context\<rparr>, 0) else (me, 1))"

definition rdfstore_reset_context :: "'s rdfstore \<Rightarrow> 's rdfstore \<times> int" where
  "rdfstore_reset_context me =
     (if me_context me \<noteq> None then (me\<lparr>me_context := None\<rparr>, 0) else (me, 1))"

definition rdfstore_get_context :: "'s rdfstore \<Rightarrow> resource option" where
  "rdfstore_get_context me = me_context me"

section \<open>On a store that holds statements\<close>

lemma rep_ignores_context [simp]: "rep E ok tbl (me\<lparr>me_context := c\<rparr>) A = rep E ok tbl me A"
  by (simp add: rep_def)

lemma unpack_id_key_word: "unpackInt (id_key i) = of_nat i"
  by (simp add: id_key_def)

context kernel
begin

lemma fetch_map_table:
  assumes "rep E ok tbl me A" and "t \<in> map_tables" and "be_fetch (table_ops E) (tables me t) k = (s, q)"
  shows "q = (case kv_map A t k of None \<Rightarrow> Inl FLAT_STORE_E_NOTFOUND | Some v \<Rightarrow> Inr v)"
    and "rep E ok tbl (set_table t s me) A"
proof -
  have "ok (tables me t)" "tbl (tables me t) = kv_map A t" using assms(1,2) by (simp_all add: rep_def)
  note F = fetch [OF this(1) assms(3)] this
  then show "q = (case kv_map A t k of None \<Rightarrow> Inl FLAT_STORE_E_NOTFOUND | Some v \<Rightarrow> Inr v)" by simp
  show "rep E ok tbl (set_table t s me) A"
    by (rule rep_set_table_same [OF assms(1)]) (use F in auto)
qed

lemma size_spec:
  assumes "store_holds E ok tbl me n M"
  obtains me' where "rdfstore_size E me = (me', Some (of_nat (card (dom M))))" and "store_holds E ok tbl me' n M"
    and "flags_of me' = flags_of me"
proof -
  obtain A where r: "rep E ok tbl me A" and c: "contents E A n M" using assms by (auto simp: store_holds_def)
  have m: "T_model \<in> map_tables" by (simp add: map_tables_def)
  obtain s q where f: "be_fetch (table_ops E) (tables me T_model) RDFSTORE_COUNTER_REMOVED_KEY = (s, q)"
    by (metis prod.collapse)
  note F = fetch_map_table [OF r m f]
  let ?me = "set_table T_model s me"
  obtain s2 q2 where f2: "be_fetch (table_ops E) (tables ?me T_model) RDFSTORE_COUNTER_KEY = (s2, q2)"
    by (metis prod.collapse)
  note F2 = fetch_map_table [OF F(2) m f2]
  have le: "card (dom M) \<le> n" using contents_dom [OF c] by simp
  have "rdfstore_size E me = (set_table T_model s2 ?me, Some (of_nat n - of_nat (n - card (dom M))))"
    using f f2 F(1) F2(1) c by (simp add: rdfstore_size_def contents_def unpack_id_key_word Let_def)
  moreover have "of_nat n - of_nat (n - card (dom M)) = (of_nat (card (dom M)) :: u32)"
    using le by (simp add: of_nat_diff)
  ultimately show thesis using that F2(2) c by (simp add: store_holds_def) blast
qed

lemma contains_spec:
  assumes h: "store_holds E ok tbl me n M"
    and ctx: "ctx = (case given of None \<Rightarrow> st_context st | Some c \<Rightarrow> Some c)"
    and hc: "hashcode st \<in> {0, statement_hash E (st, ctx)}"
  obtains me' st' where "rdfstore_contains E me (Some st) given
      = (me', Some st', if \<exists>i x. M i = Some x \<and> statement_hash E x = statement_hash E (st, ctx) then 0 else 1)"
    and "plain st' = plain st" and "store_holds E ok tbl me' n M" and "flags_of me' = flags_of me"
proof -
  let ?hc = "statement_hash E (st, ctx)"
  obtain A where r: "rep E ok tbl me A" and c: "contents E A n M" using h by (auto simp: store_holds_def)
  have m: "T_statements \<in> map_tables" by (simp add: map_tables_def)
  obtain s q where f: "be_fetch (table_ops E) (tables me T_statements) (packInt ?hc) = (s, q)" by (metis prod.collapse)
  note F = fetch_map_table [OF r m f]
  have "kv_map A T_statements (packInt ?hc) = Some v \<longleftrightarrow> (\<exists>i x. M i = Some x \<and> statement_hash E x = ?hc \<and> v = id_key i)" for v
    by (rule contents_statements [OF c])
  then have "kv_map A T_statements (packInt ?hc) \<noteq> None \<longleftrightarrow> (\<exists>i x. M i = Some x \<and> statement_hash E x = ?hc)"
    by (metis not_None_eq)
  then have q: "q = Inl FLAT_STORE_E_NOTFOUND \<and> \<not> (\<exists>i x. M i = Some x \<and> statement_hash E x = ?hc)
      \<or> (\<exists>d. q = Inr d) \<and> (\<exists>i x. M i = Some x \<and> statement_hash E x = ?hc)"
    using F(1) by (cases "kv_map A T_statements (packInt ?hc)") auto
  have "rdfstore_digest_get_statement_hashCode (sha1 E) st ctx = ?hc"
    by (rule hashCode_fresh [OF hc])
  then have "rdfstore_contains E me (Some st) given
      = (set_table T_statements s me, Some (cache_hashcode me given ?hc st),
         if \<exists>i x. M i = Some x \<and> statement_hash E x = ?hc then 0 else 1)"
    using f q by (auto simp: rdfstore_contains_def ctx [symmetric] Let_def)
  moreover have "store_holds E ok tbl (set_table T_statements s me) n M"
    using F(2) c unfolding store_holds_def by blast
  ultimately show thesis
    by (intro that [of "set_table T_statements s me" "cache_hashcode me given ?hc st"])
      (simp_all add: plain_def cache_hashcode_def)
qed

lemma init_counter_runs:
  assumes r: "rep E ok tbl me A" and v: "v = kv_map A T_model k" and able: "\<not> me_flag me \<or> v \<noteq> None"
  obtains me' where "init_counter E named k me = Inr (me', None)" and "flags_of me' = flags_of me"
    and "rep E ok tbl me' (put_map T_model k (Some (case v of None \<Rightarrow> packInt 0 | Some d \<Rightarrow> d)) A)"
proof -
  have m: "T_model \<in> map_tables" by (simp add: map_tables_def)
  obtain s e where x: "be_exists (table_ops E) (tables me T_model) k = (s, e)" by (metis prod.collapse)
  have X: "ok s" "tbl s = tbl (tables me T_model)" "e = 0 \<longleftrightarrow> v \<noteq> None"
    using exists [OF rep_contents_map(4) [OF r] x] rep_contents_map(1) [OF r] v by auto
  let ?me = "set_table T_model s me"
  have r1: "rep E ok tbl ?me A" by (rule rep_set_table_same [OF r X(1,2)])
  show thesis
  proof (cases v)
    case (Some d)
    then have "put_map T_model k (Some d) A = A" using v by (simp add: put_map_same)
    then show thesis using that [of ?me] x X r1 Some by (simp add: init_counter_def Let_def)
  next
    case None
    obtain s2 e2 where st: "be_store (table_ops E) (tables ?me T_model) k (packInt 0) = (s2, e2)" by (metis prod.collapse)
    note S = store [OF rep_contents_map(4) [OF r1] st] store_code [OF rep_contents_map(4) [OF r1] st]
    have "rep E ok tbl (set_table T_model s2 ?me) (put_map T_model k (Some (packInt 0)) A)"
      by (rule rep_set_table_map [OF r1 m]) (use S in simp_all)
    moreover have "\<not> me_flag ?me" using able None by (simp add: set_table_def)
    ultimately show thesis
      using that [of "set_table T_model s2 ?me"] x X st S None by (simp add: init_counter_def Let_def store_result_def)
  qed
qed

end

section \<open>Digests of the examples\<close>

definition sample_context :: resource where
  "sample_context = \<lparr>rtype = 0, ident = bytes_of ''http://c''\<rparr>"

lemma toy_crc: "rdfstore_digest_crc64 (toy_digest bs) = sum_list (map ucast bs)"
proof -
  have "unpackInt (packInt v @ bs) = unpackInt (packInt v)" for v bs
    by (simp add: unpackInt_def nth_append)
  then show ?thesis by (simp add: rdfstore_digest_crc64_def toy_digest_def)
qed

lemma toy_sum: "sum_list (map ucast (toy_digest bs)) = (sum_list (map ucast (packInt (sum_list (map ucast bs)))) :: u32)"
  by (simp add: toy_digest_def sum_list_replicate)

lemma sum_rotate1: "sum_list (map ucast (rotate1 bs)) = (sum_list (map ucast bs) :: u32)" for bs :: "byte list"
  by (cases bs) (simp_all add: add.commute)

lemma toy_statement_hash:
  "statement_hash mem_env (st, ctx) =
     (let dig = (\<lambda>n. sum_list (map ucast (toy_digest (node_digest_input n True))) :: u32) in
      dig (Resource (subject st)) + dig (Resource (predicate st)) + dig (object st)
      + (case (case ctx of None \<Rightarrow> st_context st | Some c \<Rightarrow> Some c) of None \<Rightarrow> 0 | Some c \<Rightarrow> dig (Resource c)))"
  by (simp add: statement_hash_def rdfstore_digest_get_statement_digest_def statement_digest_input_def toy_crc mem_env_def
      rdfstore_digest_get_node_digest_def sum_rotate1 Let_def split: RDF_Node.split option.split)

lemmas toy_hash_simps = toy_statement_hash toy_sum node_digest_input_def packInt_def sample_statement_def sample_context_def
  bytes_of_def opt_bytes_def RDFSTORE_RDF_PARSETYPE_LITERAL_def

lemma sample_hashes:
  "statement_hash mem_env (sample_statement, None) = 522"
  "statement_hash mem_env (sample_statement, Some sample_context) = 759"
  by (simp_all add: toy_hash_simps)

lemma sample_indexable: "indexable mem_env (object sample_statement)" "parse_type_ok (object sample_statement)"
  by (simp_all add: indexable_def object_items_plain sample_statement_def lang_items_def type_items_def number_items_def
      mem_env_def bytes_of_def opt_bytes_def Let_def RDFSTORE_MS_XSD_DATE_def RDFSTORE_MS_XSD_DATETIME_def is_item_def
      parse_type_ok_def RDFSTORE_RDF_PARSETYPE_LITERAL_def)

section \<open>Properties\<close>

abbreviation mem_ok :: "(flat_key \<times> flat_data) list \<times> flat_key list \<Rightarrow> bool" where
  "mem_ok \<equiv> \<lambda>s. distinct (map fst (fst s))"

abbreviation mem_tbl :: "(flat_key \<times> flat_data) list \<times> flat_key list \<Rightarrow> flat_key \<Rightarrow> flat_data option" where
  "mem_tbl \<equiv> \<lambda>s. map_of (fst s)"

definition the_sample :: RDF_Statement where
  "the_sample = plain sample_statement"

lemma the_sample [simp]: "plain the_sample = the_sample" "hashcode the_sample = 0" "st_context the_sample = None"
  "object the_sample = object sample_statement" "statement_hash E (the_sample, ctx) = statement_hash E (sample_statement, ctx)"
  by (simp_all add: the_sample_def, simp_all add: plain_def sample_statement_def)

text \<open>C1. A store without a text index is a set of statements with their contexts: any
  sequence of insertions and removals returns, call by call, what it returns on the set
  (0, 1 for a duplicate or an absent statement, -1 when the identifiers are used up),
  never fails, and afterwards every table still represents the set. The hash codes tell
  the statements concerned apart, and their objects can be indexed.\<close>

theorem store_history:
  assumes "kernel E ok tbl" and "store_holds E ok tbl me n M" and "\<not> freetext me"
    and "inj_on (statement_hash E) X" and "ran M \<subseteq> X" and "\<forall>c\<in>set cs. call_ok E X me c"
  shows "\<exists>me' n' M' rs. run_calls E cs me = Inr (me', rs) \<and> store_holds E ok tbl me' n' M'
    \<and> quad_calls me cs (n, ran M) = ((n', ran M'), rs)"
  using assms by (rule kernel.run_calls_spec)

theorem store_history_witness:
  "\<exists>me' n' M'. run_calls mem_env
       [Call_insert the_sample None, Call_insert the_sample (Some sample_context), Call_insert the_sample None,
        Call_remove the_sample None, Call_remove the_sample None] new_store
     = Inr (me', [0, 0, 1, 0, 1])
   \<and> store_holds mem_env mem_ok mem_tbl me' n' M' \<and> ran M' = {(the_sample, Some sample_context)}"
proof -
  let ?cs = "[Call_insert the_sample None, Call_insert the_sample (Some sample_context), Call_insert the_sample None,
        Call_remove the_sample None, Call_remove the_sample None]"
  let ?X = "{(the_sample, None), (the_sample, Some sample_context)}"
  have ctx: "effective_context new_store the_sample given = given" for given
    by (simp add: effective_context_def new_store_def split: option.split)
  have inj: "inj_on (statement_hash mem_env) ?X" by (simp add: sample_hashes)
  have ft: "\<not> freetext new_store" by (simp add: new_store_def)
  have sub: "ran Map.empty \<subseteq> ?X" by simp
  have calls: "\<forall>c\<in>set ?cs. call_ok mem_env ?X new_store c" using sample_indexable by (simp add: ctx Let_def)
  note h = store_history [OF mem_env_kernel new_store_holds ft inj sub calls]
  moreover have "quad_calls new_store ?cs (0, ran Map.empty) = ((2, {(the_sample, Some sample_context)}), [0, 0, 1, 0, 1])"
    by (auto simp: ctx Let_def RDFSTORE_MAXRECORDS_def)
  ultimately show ?thesis using h by (metis prod.inject)
qed

lemma kernel_connects:
  assumes k: "kernel E ok tbl" and ok: "\<forall>t. ok (tables me t)"
    and T: "\<forall>t. t \<noteq> T_model \<longrightarrow> tbl (tables me t) = Map.empty"
    and c: "tbl (tables me T_model) RDFSTORE_COUNTER_KEY = None" "tbl (tables me T_model) RDFSTORE_COUNTER_REMOVED_KEY = None"
    and rw: "\<not> me_flag me"
  obtains me' where "init_counters E named me = Inr (me', None)" and "store_holds E ok tbl me' 0 Map.empty"
    and "flags_of me' = flags_of me"
proof -
  let ?A = "\<lparr>kv_map = \<lambda>t. tbl (tables me t), kv_idx = \<lambda>t k. {}\<rparr>"
  have r: "rep E ok tbl me ?A" using ok T by (auto simp: rep_def index_rep_def map_tables_def)
  obtain me1 where 1: "init_counter E named RDFSTORE_COUNTER_REMOVED_KEY me = Inr (me1, None)" "flags_of me1 = flags_of me"
      "rep E ok tbl me1 (put_map T_model RDFSTORE_COUNTER_REMOVED_KEY (Some (packInt 0)) ?A)" (is "rep E ok tbl me1 ?A1")
    using kernel.init_counter_runs [OF k r refl, of RDFSTORE_COUNTER_REMOVED_KEY named] rw c(2) by auto
  have "\<not> me_flag me1" using 1(2) rw by (simp add: flags_of_def)
  then obtain me2 where 2: "init_counter E named RDFSTORE_COUNTER_KEY me1 = Inr (me2, None)" "flags_of me2 = flags_of me1"
      "rep E ok tbl me2 (put_map T_model RDFSTORE_COUNTER_KEY (Some (packInt 0)) ?A1)" (is "rep E ok tbl me2 ?A2")
    using kernel.init_counter_runs [OF k 1(3) refl, of RDFSTORE_COUNTER_KEY named] c(1) model_keys
    by (auto simp: put_map_def)
  have "contents E ?A2 0 Map.empty"
    using T model_keys by (auto simp: contents_def put_map_def found_under_def id_key_def)
  then show thesis using that [of me2] 1 2 by (simp add: init_counters_def store_holds_def) blast
qed

theorem connect_empty_store:
  assumes "kernel E ok tbl" and "\<forall>t. ok (tables me t)" and "\<forall>t. t \<noteq> T_model \<longrightarrow> tbl (tables me t) = Map.empty"
    and "tbl (tables me T_model) RDFSTORE_COUNTER_KEY = None" and "tbl (tables me T_model) RDFSTORE_COUNTER_REMOVED_KEY = None"
    and "\<not> me_flag me"
  shows "\<exists>me'. init_counters E named me = Inr (me', None) \<and> store_holds E ok tbl me' 0 Map.empty"
  by (rule kernel_connects [OF assms]) blast

theorem connect_empty_store_witness:
  "\<exists>me'. init_counters mem_env True (new_store\<lparr>tables := \<lambda>t. ([], [])\<rparr>) = Inr (me', None)
     \<and> store_holds mem_env mem_ok mem_tbl me' 0 Map.empty"
  by (rule connect_empty_store [OF mem_env_kernel]) (simp_all add: new_store_def)

text \<open>C8. In a store that holds the statements M, the vector fetched and decoded at any key of
  a subject, predicate, object, context, language, data type, date or number table has
  exactly the bits of the identifiers of the statements with that key; no stale and no
  missing bit.\<close>

theorem index_lookup:
  assumes "kernel E ok tbl" and "store_holds E ok tbl me n M" and "t \<notin> map_tables" and "t \<noteq> T_windex"
  shows "\<exists>me' sz. load_bits E c t k me = Inr (me', Inr sz) \<and> store_holds E ok tbl me' n M
    \<and> bitset sz (bits_decode me') = {i. \<exists>st ctx. M i = Some (st, ctx) \<and> (t, k) \<in> set (index_keys E st ctx)}"
proof -
  obtain A where r: "rep E ok tbl me A" and con: "contents E A n M" using assms(2) by (auto simp: store_holds_def)
  obtain me' sz where l: "load_bits E c t k me = Inr (me', Inr sz)" "rep E ok tbl me' A"
      "bitset sz (bits_decode me') = kv_idx A t k"
    by (rule kernel.load_bits_spec [OF assms(1) r assms(3)])
  have "kv_idx A t k = found_under E M t k" using con assms(3,4) unfolding contents_def by blast
  moreover have "found_under E M t k = {i. \<exists>st ctx. M i = Some (st, ctx) \<and> (t, k) \<in> set (index_keys E st ctx)}"
    by (simp add: found_under_def)
  ultimately show ?thesis using l con unfolding store_holds_def by metis
qed

lemma sample_inserted:
  obtains me where "rdfstore_insert mem_env new_store (Some the_sample) None = Inr (me, Some (the_sample\<lparr>hashcode := 522\<rparr>), 0)"
    and "store_holds mem_env mem_ok mem_tbl me 1 [0 \<mapsto> (the_sample, None)]" and "flags_of me = flags_of new_store"
proof -
  obtain A where r: "rep mem_env mem_ok mem_tbl new_store A" and c: "contents mem_env A 0 Map.empty"
    using new_store_holds by (auto simp: store_holds_def)
  have ctx: "None = effective_context new_store the_sample None" by (simp add: effective_context_def new_store_def)
  obtain me st' where i: "rdfstore_insert mem_env new_store (Some the_sample) None = Inr (me, Some st', 0)"
      "rep mem_env mem_ok mem_tbl me (new_view mem_env the_sample None 0 A)" "flags_of me = flags_of new_store"
    by (rule mem_kernel.insert_stored [OF r c _ _ _ _ ctx])
      (use sample_indexable in \<open>simp_all add: new_store_def RDFSTORE_MAXRECORDS_def\<close>)
  have "st' = cache_hashcode new_store None 522 the_sample"
    using i(1) by (auto simp: rdfstore_insert_def ctx [symmetric] Let_def bindE_Inr_iff finish_def
        rdfstore_digest_get_statement_hashCode_def statement_hash_def [of mem_env "(the_sample, None)", simplified, symmetric]
        sample_hashes split: prod.splits if_splits)
  moreover have "contents mem_env (new_view mem_env the_sample None 0 A) (Suc 0) (Map.empty(0 \<mapsto> (plain the_sample, None)))"
    by (rule contents_insert [OF c]) (simp_all add: RDFSTORE_MAXRECORDS_def)
  ultimately show thesis
    using that i by (auto simp: store_holds_def cache_hashcode_def new_store_def)
qed

theorem index_lookup_witness:
  "\<exists>me me' sz. rdfstore_insert mem_env new_store (Some the_sample) None = Inr (me, Some (the_sample\<lparr>hashcode := 522\<rparr>), 0)
     \<and> load_bits mem_env True T_languages (bytes_of ''en'') me = Inr (me', Inr sz) \<and> bitset sz (bits_decode me') = {0}"
proof -
  obtain me where i: "rdfstore_insert mem_env new_store (Some the_sample) None = Inr (me, Some (the_sample\<lparr>hashcode := 522\<rparr>), 0)"
    and h: "store_holds mem_env mem_ok mem_tbl me 1 [0 \<mapsto> (the_sample, None)]"
    by (rule sample_inserted)
  have "(T_languages, bytes_of ''en'') \<in> set (index_keys mem_env the_sample None)"
    by (simp add: index_keys_def object_items_plain lang_items_def mem_env_def sample_statement_def bytes_of_def)
  then have "{j. \<exists>st ctx. [0 \<mapsto> (the_sample, None)] j = Some (st, ctx)
      \<and> (T_languages, bytes_of ''en'') \<in> set (index_keys mem_env st ctx)} = {0 :: nat}" by (auto split: if_splits)
  then show ?thesis
    using i index_lookup [OF mem_env_kernel h, of T_languages True "bytes_of ''en''"] by (auto simp: map_tables_def)
qed

text \<open>C9. A statement that is in the store is fetched by its identifier from the nodes table
  and decoded as the statement that was inserted, up to the fields the record format does
  not keep.\<close>

theorem stored_statement_fetched:
  assumes "kernel E ok tbl" and "store_holds E ok tbl me n M" and "M i = Some (st, ctx)"
    and "literal_ok (object st)" and "\<forall>s\<in>set (record_parts st ctx). length s < 2 ^ 31" and "0 < sz"
  shows "fetch_statement (\<lambda>k. snd (be_fetch (table_ops E) (tables me T_nodes) k)) sz i = Inr (Some (stored_form st ctx))"
proof -
  obtain A where r: "rep E ok tbl me A" and c: "contents E A n M" using assms(2) by (auto simp: store_holds_def)
  obtain s q where f: "be_fetch (table_ops E) (tables me T_nodes) (packInt (of_nat i)) = (s, q)" by (metis prod.collapse)
  have "kv_map A T_nodes (packInt (of_nat i)) = Some (insert_record st ctx)"
    using c contents_below [OF c assms(3)] assms(3) unfolding contents_def id_key_def by auto
  then have "q = Inr (insert_record st ctx)"
    using kernel.fetch_map_table(1) [OF assms(1) r _ f] by (simp add: map_tables_def)
  then show ?thesis
    using assms(4-6) f by (simp add: fetch_statement_def fetch_record_insert_record)
qed

theorem stored_statement_fetched_witness:
  "\<exists>me. rdfstore_insert mem_env new_store (Some the_sample) None = Inr (me, Some (the_sample\<lparr>hashcode := 522\<rparr>), 0)
     \<and> fetch_statement (\<lambda>k. snd (be_fetch (table_ops mem_env) (tables me T_nodes) k)) 1 0 = Inr (Some (stored_form the_sample None))"
proof -
  obtain me where i: "rdfstore_insert mem_env new_store (Some the_sample) None = Inr (me, Some (the_sample\<lparr>hashcode := 522\<rparr>), 0)"
    and h: "store_holds mem_env mem_ok mem_tbl me 1 [0 \<mapsto> (the_sample, None)]"
    by (rule sample_inserted)
  have "fetch_statement (\<lambda>k. snd (be_fetch (table_ops mem_env) (tables me T_nodes) k)) 1 0 = Inr (Some (stored_form the_sample None))"
    by (rule stored_statement_fetched [OF mem_env_kernel h])
      (simp_all add: the_sample_def plain_def sample_statement_def literal_ok_def opt_bytes_def bytes_of_def cstring_def
        RDFSTORE_MAX_LANG_LENGTH_def record_parts_def context_bytes_def)
  with i show ?thesis by blast
qed

lemma card_ran:
  assumes "contents E A n M"
  shows "card (ran M) = card (dom M)"
proof -
  have "inj_on (the \<circ> M) (dom M)"
    by (rule inj_onI) (use contents_unique [OF assms] in fastforce)
  moreover have "ran M = (the \<circ> M) ` dom M" by (force simp: ran_def dom_def)
  ultimately show ?thesis by (metis card_image)
qed

text \<open>C11. rdfstore_size is the number of statements in the store, and rdfstore_is_empty
  answers 0 exactly when there is none.\<close>

theorem size_counts:
  assumes "kernel E ok tbl" and "store_holds E ok tbl me n M"
  shows "snd (rdfstore_size E me) = Some (of_nat (card (ran M)))
    \<and> snd (rdfstore_is_empty E me) = (if ran M = {} then 0 else 1)"
proof -
  obtain A where c: "contents E A n M" using assms(2) by (auto simp: store_holds_def)
  have lt: "card (ran M) < 2 ^ 32" and fin: "finite (ran M)"
    using card_ran [OF c] contents_dom [OF c] c finite_ran by (auto simp: contents_def RDFSTORE_MAXRECORDS_def)
  obtain me' where s: "rdfstore_size E me = (me', Some (of_nat (card (dom M))))"
    by (rule kernel.size_spec [OF assms])
  then have sz: "snd (rdfstore_size E me) = Some (of_nat (card (ran M)))" by (simp add: card_ran [OF c])
  have "(of_nat (card (ran M)) :: u32) > 0 \<longleftrightarrow> ran M \<noteq> {}"
  proof -
    have "(of_nat (card (ran M)) :: u32) > 0 \<longleftrightarrow> unat (of_nat (card (ran M)) :: u32) \<noteq> 0"
      by (simp add: word_gt_0 unat_eq_zero)
    also have "\<dots> \<longleftrightarrow> ran M \<noteq> {}" using u32_of_nat [OF lt] fin by simp
    finally show ?thesis .
  qed
  then show ?thesis using s sz card_ran [OF c] by (simp add: rdfstore_is_empty_def)
qed

lemma insert_keeps_statement:
  "rdfstore_insert E me (Some st) given = Inr (me', Some st', r) \<Longrightarrow> given \<noteq> None \<or> me_context me \<noteq> None \<Longrightarrow> st' = st"
  by (auto simp: rdfstore_insert_def Let_def bindE_Inr_iff finish_def cache_hashcode_def split: prod.splits if_splits)


theorem size_counts_witness:
  "\<exists>me. rdfstore_insert mem_env new_store (Some the_sample) None = Inr (me, Some (the_sample\<lparr>hashcode := 522\<rparr>), 0)
     \<and> snd (rdfstore_size mem_env me) = Some 1 \<and> snd (rdfstore_is_empty mem_env me) = 1"
proof -
  obtain me where i: "rdfstore_insert mem_env new_store (Some the_sample) None = Inr (me, Some (the_sample\<lparr>hashcode := 522\<rparr>), 0)"
    and h: "store_holds mem_env mem_ok mem_tbl me 1 [0 \<mapsto> (the_sample, None)]"
    by (rule sample_inserted)
  show ?thesis using size_counts [OF mem_env_kernel h] i by auto
qed


text \<open>C12. After a statement without a context was inserted with success under the default
  context of the store, rdfstore_contains does not find it, because it does not look at
  the default context.\<close>

theorem contains_misses_default_context:
  assumes "kernel E ok tbl" and "store_holds E ok tbl me n M" and "\<not> freetext me"
    and "parse_type_ok (object st)" and "indexable E (object st)" and "n < RDFSTORE_MAXRECORDS"
    and "me_context me = Some c" and "st_context st = None" and "hashcode st = 0"
    and "\<forall>x\<in>ran M. statement_hash E x \<noteq> statement_hash E (st, Some c) \<and> statement_hash E x \<noteq> statement_hash E (st, None)"
    and "statement_hash E (st, Some c) \<noteq> statement_hash E (st, None)"
  shows "\<exists>me1 me2 st2. rdfstore_insert E me (Some st) None = Inr (me1, Some st, 0)
    \<and> rdfstore_contains E me1 (Some st) None = (me2, Some st2, 1)"
proof -
  obtain A where r: "rep E ok tbl me A" and c: "contents E A n M" using assms(2) by (auto simp: store_holds_def)
  have ctx: "Some c = effective_context me st None" using assms(7,8) by (simp add: effective_context_def)
  have new: "statement_hash E x \<noteq> statement_hash E (st, Some c)" if "M i = Some x" for i x
    using assms(10) that by (auto intro: ranI)
  have hc: "hashcode st \<in> {0, statement_hash E (st, Some c)}" using assms(9) by simp
  obtain me1 st1 where i: "rdfstore_insert E me (Some st) None = Inr (me1, Some st1, 0)"
      "rep E ok tbl me1 (new_view E st (Some c) n A)"
    by (rule kernel.insert_stored [OF assms(1) r c assms(3-6) ctx hc new])
  have st1: "st1 = st" by (rule insert_keeps_statement [OF i(1)]) (simp add: assms(7))
  have "contents E (new_view E st (Some c) n A) (Suc n) (M(n \<mapsto> (plain st, Some c)))"
    by (rule contents_insert [OF c assms(6) new])
  then have h: "store_holds E ok tbl me1 (Suc n) (M(n \<mapsto> (plain st, Some c)))" using i(2) by (auto simp: store_holds_def)
  have "None = (case None of None \<Rightarrow> st_context st | Some c \<Rightarrow> Some c)" by (simp add: assms(8))
  moreover have "\<not> (\<exists>i x. (M(n \<mapsto> (plain st, Some c))) i = Some x \<and> statement_hash E x = statement_hash E (st, None))"
    using assms(10,11) by (auto simp: ranI)
  moreover have "hashcode st \<in> {0, statement_hash E (st, None)}" using assms(9) by simp
  ultimately obtain me2 st2 where "rdfstore_contains E me1 (Some st) None = (me2, Some st2, 1)"
    using kernel.contains_spec [OF assms(1) h, where ctx = None and given = None and st = st] by (simp only: if_False) blast
  then show ?thesis using i(1) st1 by blast
qed

theorem contains_misses_default_context_witness:
  "\<exists>me1 me2 st2. rdfstore_insert mem_env (fst (rdfstore_set_context new_store (Some sample_context))) (Some the_sample) None
        = Inr (me1, Some the_sample, 0)
     \<and> rdfstore_contains mem_env me1 (Some the_sample) None = (me2, Some st2, 1)"
proof -
  have me: "fst (rdfstore_set_context new_store (Some sample_context)) = new_store\<lparr>me_context := Some sample_context\<rparr>"
    by (simp add: rdfstore_set_context_def new_store_def)
  have "store_holds mem_env mem_ok mem_tbl (new_store\<lparr>me_context := Some sample_context\<rparr>) 0 Map.empty"
    using new_store_holds by (simp add: store_holds_def)
  then show ?thesis
    unfolding me
    by (rule contains_misses_default_context [OF mem_env_kernel, where c = sample_context])
      (use sample_indexable in \<open>simp_all add: new_store_def RDFSTORE_MAXRECORDS_def sample_hashes\<close>)
qed

lemma insert_caches:
  assumes "rdfstore_insert E me (Some st) None = Inr (me', Some st', r)" and "me_context me = None" and "hashcode st = 0"
  shows "st' = st\<lparr>hashcode := statement_hash E (st, st_context st)\<rparr>"
proof -
  have "effective_context me st None = st_context st"
    using assms(2) by (simp add: effective_context_def split: option.split)
  moreover have "rdfstore_digest_get_statement_hashCode (sha1 E) st (st_context st) = statement_hash E (st, st_context st)"
    by (rule hashCode_fresh) (simp add: assms(3))
  ultimately show ?thesis
    using assms(1,2)
    by (auto simp: rdfstore_insert_def Let_def bindE_Inr_iff finish_def cache_hashcode_def split: prod.splits if_splits)
qed

theorem context_insert_refused:
  assumes "kernel E ok tbl" and "store_holds E ok tbl me n M" and "\<not> freetext me"
    and "parse_type_ok (object st)" and "indexable E (object st)" and "n < RDFSTORE_MAXRECORDS"
    and "me_context me = None" and "st_context st = None" and "hashcode st = 0"
    and "\<forall>x\<in>ran M. statement_hash E x \<noteq> statement_hash E (st, None)" and "statement_hash E (st, None) \<noteq> 0"
  shows "\<exists>me1 st1 me2 st2. rdfstore_insert E me (Some st) None = Inr (me1, Some st1, 0)
    \<and> rdfstore_insert E me1 (Some st1) (Some c) = Inr (me2, Some st2, 1)
    \<and> store_holds E ok tbl me2 (Suc n) (M(n \<mapsto> (plain st, None)))"
proof -
  obtain A where r: "rep E ok tbl me A" and c: "contents E A n M" using assms(2) by (auto simp: store_holds_def)
  have ctx: "None = effective_context me st None" using assms(7,8) by (simp add: effective_context_def)
  have new: "statement_hash E x \<noteq> statement_hash E (st, None)" if "M i = Some x" for i x
    using assms(10) that by (auto intro: ranI)
  have hc: "hashcode st \<in> {0, statement_hash E (st, None)}" using assms(9) by simp
  obtain me1 st1 where i: "rdfstore_insert E me (Some st) None = Inr (me1, Some st1, 0)"
      "rep E ok tbl me1 (new_view E st None n A)" "flags_of me1 = flags_of me"
    by (rule kernel.insert_stored [OF assms(1) r c assms(3-6) ctx hc new])
  have con: "contents E (new_view E st None n A) (Suc n) (M(n \<mapsto> (plain st, None)))"
    by (rule contents_insert [OF c assms(6) new])
  have "st1 = st\<lparr>hashcode := statement_hash E (st, None)\<rparr>"
    using insert_caches [OF i(1) assms(7,9)] assms(8) by simp
  then have hc1: "rdfstore_digest_get_statement_hashCode (sha1 E) st1 (Some c) = statement_hash E (st, None)"
    using assms(11) by (simp add: rdfstore_digest_get_statement_hashCode_def)
  have ctx1: "Some c = effective_context me1 st1 (Some c)" by (simp add: effective_context_def)
  have at: "(M(n \<mapsto> (plain st, None))) n = Some (plain st, None)" by simp
  obtain me2 st2 where "rdfstore_insert E me1 (Some st1) (Some c) = Inr (me2, Some st2, 1)"
      "rep E ok tbl me2 (new_view E st None n A)"
    by (rule kernel.insert_present [OF assms(1) i(2) con ctx1 hc1 at]) simp_all
  then show ?thesis using i(1) con unfolding store_holds_def by blast
qed

theorem context_insert_refused_witness:
  "\<exists>me1 st1 me2 st2. rdfstore_insert mem_env new_store (Some the_sample) None = Inr (me1, Some st1, 0)
    \<and> rdfstore_insert mem_env me1 (Some st1) (Some sample_context) = Inr (me2, Some st2, 1)
    \<and> store_holds mem_env mem_ok mem_tbl me2 1 [0 \<mapsto> (the_sample, None)]"
  using context_insert_refused [OF mem_env_kernel new_store_holds, of the_sample sample_context] sample_indexable
  by (simp add: new_store_def RDFSTORE_MAXRECORDS_def sample_hashes)

text \<open>A literal whose parse type and data type disagree is refused after the counter was raised.\<close>

lemma size_view:
  assumes k: "kernel E ok tbl" and r: "rep E ok tbl me A"
    and v: "kv_map A T_model RDFSTORE_COUNTER_REMOVED_KEY = Some (id_key a)"
      "kv_map A T_model RDFSTORE_COUNTER_KEY = Some (id_key b)"
  shows "snd (rdfstore_size E me) = Some (of_nat b - of_nat a)"
proof -
  have m: "T_model \<in> map_tables" by (simp add: map_tables_def)
  obtain s q where f: "be_fetch (table_ops E) (tables me T_model) RDFSTORE_COUNTER_REMOVED_KEY = (s, q)"
    by (metis prod.collapse)
  note F = kernel.fetch_map_table [OF k r m f]
  obtain s2 q2 where f2: "be_fetch (table_ops E) (tables (set_table T_model s me) T_model) RDFSTORE_COUNTER_KEY = (s2, q2)"
    by (metis prod.collapse)
  note F2 = kernel.fetch_map_table [OF k F(2) m f2]
  show ?thesis using f f2 F(1) F2(1) v by (simp add: rdfstore_size_def unpack_id_key_word Let_def)
qed

context kernel
begin

lemma rejected_insert:
  assumes r: "rep E ok tbl me A" and c: "contents E A n M" and n: "n < RDFSTORE_MAXRECORDS"
    and lit: "object st = Literal l" "dataType l = Some dt" "parseType l = 1" "dt \<noteq> RDFSTORE_RDF_PARSETYPE_LITERAL"
    and ctx: "ctx = effective_context me st given" and hc: "hashcode st \<in> {0, statement_hash E (st, ctx)}"
    and new: "\<And>i x. M i = Some x \<Longrightarrow> statement_hash E x \<noteq> statement_hash E (st, ctx)"
  obtains me1 st1 where "rdfstore_insert E me (Some st) given = Inr (me1, Some st1, - 1)"
    and "rep E ok tbl me1 (counted_view n A)"
proof -
  let ?hc = "statement_hash E (st, ctx)" and ?st = "cache_hashcode me given (statement_hash E (st, ctx)) st"
  obtain s e where x: "be_exists (table_ops E) (tables me T_statements) (packInt ?hc) = (s, e)" by (metis prod.collapse)
  have "kv_map A T_statements (packInt ?hc) = None" using contents_absent [OF c] new by blast
  then have e: "e \<noteq> 0" "ok s" "tbl s = tbl (tables me T_statements)"
    using exists [OF rep_contents_map(4) [OF r] x] rep_contents_map(3) [OF r] by auto
  let ?m1 = "set_table T_statements s me"
  have r1: "rep E ok tbl ?m1 A" by (rule rep_set_table_same [OF r]) (use e in auto)
  obtain s2 q where i: "be_inc (table_ops E) (tables ?m1 T_model) RDFSTORE_COUNTER_KEY = (s2, q)" by (metis prod.collapse)
  have "tbl (tables ?m1 T_model) RDFSTORE_COUNTER_KEY = Some (id_key n)"
    using rep_contents_map(1) [OF r1] c by (simp add: contents_def)
  note I = inc [OF rep_contents_map(4) [OF r1] this i, unfolded id_key_Suc]
  let ?m2 = "set_table T_model s2 ?m1"
  have r2: "rep E ok tbl ?m2 (counted_view n A)"
    unfolding counted_view_def by (rule rep_set_table_map [OF r1]) (use I in \<open>simp_all add: map_tables_def\<close>)
  have small: "\<not> unat (unpackInt (id_key (Suc n))) > RDFSTORE_MAXRECORDS" using n unpack_id_key [of "Suc n"] by simp
  have "object ?st = Literal l" by (simp add: cache_hashcode_def lit(1))
  then have "check_parse_type (object ?st) ?m2 = Inr (?m2, Some (- 1))" using lit by (simp add: check_parse_type_def)
  then have "insert_new E ?st ctx ?hc ?m1 = Inr (?m2, Some (- 1))"
    using i I small by (simp add: insert_new_def insert_steps_def Let_def)
  then have "rdfstore_insert E me (Some st) given = Inr (?m2, Some ?st, - 1)"
    using x e(1) hashCode_fresh [OF hc] by (simp add: rdfstore_insert_def ctx [symmetric] Let_def finish_def)
  then show thesis using that r2 by blast
qed

end

theorem rejected_insert_counted:
  assumes "kernel E ok tbl" and "store_holds E ok tbl me n M" and "n < RDFSTORE_MAXRECORDS"
    and "object st = Literal l" and "dataType l = Some dt" and "parseType l = 1" and "dt \<noteq> RDFSTORE_RDF_PARSETYPE_LITERAL"
    and "ctx = effective_context me st given" and "hashcode st = 0"
    and "\<forall>x\<in>ran M. statement_hash E x \<noteq> statement_hash E (st, ctx)"
  shows "\<exists>me1 st1. rdfstore_insert E me (Some st) given = Inr (me1, Some st1, - 1)
    \<and> snd (rdfstore_size E me1) = Some (of_nat (card (ran M)) + 1)"
proof -
  obtain A where r: "rep E ok tbl me A" and c: "contents E A n M" using assms(2) by (auto simp: store_holds_def)
  have hc: "hashcode st \<in> {0, statement_hash E (st, ctx)}" using assms(9) by simp
  have new: "statement_hash E x \<noteq> statement_hash E (st, ctx)" if "M i = Some x" for i x
    using assms(10) that by (auto intro: ranI)
  obtain me1 st1 where i: "rdfstore_insert E me (Some st) given = Inr (me1, Some st1, - 1)"
      and r1: "rep E ok tbl me1 (counted_view n A)"
    by (rule kernel.rejected_insert [OF assms(1) r c assms(3-8) hc new])
  have "snd (rdfstore_size E me1) = Some (of_nat (Suc n) - of_nat (n - card (dom M)))"
    by (rule size_view [OF assms(1) r1]) (use c model_keys in \<open>simp_all add: counted_view_def put_map_def contents_def\<close>)
  moreover have "of_nat (Suc n) - of_nat (n - card (dom M)) = (of_nat (card (dom M)) + 1 :: u32)"
    using contents_dom [OF c] by (simp add: of_nat_diff)
  ultimately show ?thesis using i card_ran [OF c] by simp
qed

section \<open>The words of a removed statement\<close>

lemma two_bits_found:
  assumes "i \<in> bitset sz bits" and "j \<in> bitset sz bits" and "i \<noteq> j"
    and p: "p = rdfstore_bits_getfirstsetafter sz bits 0"
  shows "p < 8 * sz \<and> Suc p < 8 * sz \<and> rdfstore_bits_getfirstsetafter sz bits (Suc p) < 8 * sz"
proof -
  have lt: "p < 8 * sz" unfolding p getfirstsetafter_less_iff using assms(1) by blast
  note found = getfirstsetafter_found [OF lt [unfolded p], folded p]
  obtain q where q: "q \<in> bitset sz bits" "q \<noteq> p" using assms(1-3) by metis
  then have "Suc p \<le> q" using found(3) [of q] by simp
  moreover have "q < 8 * sz" using q(1) by (simp add: mem_bitset)
  ultimately show ?thesis using lt q(1) unfolding getfirstsetafter_less_iff by auto
qed

lemma one_bit_found:
  assumes "bitset sz bits \<subseteq> {j}" and p: "p = rdfstore_bits_getfirstsetafter sz bits 0"
  shows "\<not> rdfstore_bits_getfirstsetafter sz bits (Suc p) < 8 * sz \<or> \<not> p < 8 * sz"
proof (rule ccontr)
  assume "\<not> ?thesis"
  then have lt: "p < 8 * sz" and "\<exists>n\<in>bitset sz bits. Suc p \<le> n" unfolding getfirstsetafter_less_iff by auto
  then obtain n where "n \<in> bitset sz bits" "Suc p \<le> n" by blast
  moreover have "p \<in> bitset sz bits" using getfirstsetafter_found(1) lt unfolding p by blast
  ultimately have "n = j" "p = j" "Suc p \<le> n" using assms(1) by blast+
  then show False by simp
qed

context kernel
begin

lemma windex_remove_many:
  assumes r: "rep E ok tbl me A" and ij: "i \<in> kv_idx A T_windex k" "j \<in> kv_idx A T_windex k" "i \<noteq> j"
    and n: "i < RDFSTORE_MAXRECORDS"
  obtains me' where "windex_remove E i k me = Inr (me', None)"
    and "rep E ok tbl me' (put_idx T_windex k (kv_idx A T_windex k - {i}) A)" and "flags_of me' = flags_of me"
proof -
  have t: "T_windex \<notin> map_tables" by (simp add: map_tables_def)
  obtain me1 sz where l: "load_bits E True T_windex k me = Inr (me1, Inr sz)" "rep E ok tbl me1 A"
    "flags_of me1 = flags_of me" "sz \<le> MAXRECORDS_BYTES_SIZE" "bitset sz (bits_decode me1) = kv_idx A T_windex k"
    using load_bits_spec [OF r t] .
  obtain bits sz' where s: "mark_bit (of_bool False) i sz me1 = Inr (me1\<lparr>bits_decode := bits\<rparr>, sz')"
    "sz' \<le> MAXRECORDS_BYTES_SIZE" "0 < sz'" "bitset sz' bits = kv_idx A T_windex k - {i}"
    using mark_bit_spec [OF n l(4), of False me1] l(5) by auto
  obtain me2 where v: "save_bits E True T_windex k sz' (me1\<lparr>bits_decode := bits\<rparr>) = Inr (me2, None)"
    "rep E ok tbl me2 (put_idx T_windex k (kv_idx A T_windex k - {i}) A)" "flags_of me2 = flags_of me"
    using save_bits_spec [of "me1\<lparr>bits_decode := bits\<rparr>" A T_windex sz' True k] l(2,3) t s ij by auto
  have found: "rdfstore_bits_getfirstsetafter sz (bits_decode me1) 0 < 8 * sz
      \<and> Suc (rdfstore_bits_getfirstsetafter sz (bits_decode me1) 0) < 8 * sz
      \<and> rdfstore_bits_getfirstsetafter sz (bits_decode me1) (Suc (rdfstore_bits_getfirstsetafter sz (bits_decode me1) 0)) < 8 * sz"
    by (rule two_bits_found [OF _ _ ij(3) refl]) (use l(5) ij in auto)
  have "windex_remove E i k me = Inr (me2, None)"
    using l(1) s(1,3) v(1) found by (simp add: windex_remove_def Let_def mult.commute)
  then show thesis using that v(2,3) by blast
qed

lemma windex_remove_last:
  assumes r: "rep E ok tbl me A" and one: "kv_idx A T_windex k \<subseteq> {j}"
  obtains me' where "windex_remove E i k me = Inr (me', None)"
    and "rep E ok tbl me' (put_idx T_windex k {} A)" and "flags_of me' = flags_of me"
proof -
  have t: "T_windex \<notin> map_tables" by (simp add: map_tables_def)
  obtain me1 sz where l: "load_bits E True T_windex k me = Inr (me1, Inr sz)" "rep E ok tbl me1 A"
    "flags_of me1 = flags_of me" "bitset sz (bits_decode me1) = kv_idx A T_windex k"
    using load_bits_spec [OF r t] by metis
  obtain s e where d: "be_delete (table_ops E) (tables me1 T_windex) k = (s, e)" by (metis prod.collapse)
  have ok: "ok (tables me1 T_windex)" and ir: "index_rep E (tbl (tables me1 T_windex)) (kv_idx A T_windex)"
    using l(2) t by (simp_all add: rep_def)
  note D = delete [OF ok d]
  have "rep E ok tbl (set_table T_windex s me1) (put_idx T_windex k {} A)"
    by (rule rep_set_table_idx [OF l(2) t]) (use D index_rep_delete [OF ir, of k] in auto)
  moreover have "windex_remove E i k me = Inr (set_table T_windex s me1, None)"
    using l(1) d D one_bit_found [OF one [folded l(4)] refl]
    by (auto simp: windex_remove_def Let_def mult.commute)
  ultimately show thesis using that l(3) by simp
qed

end

theorem repeated_word_lost:
  assumes "kernel E ok tbl" and "rep E ok tbl me A" and "kv_idx A T_windex k = {i, j}" and "i \<noteq> j"
    and "i < RDFSTORE_MAXRECORDS"
  shows "\<exists>me'. steps (map (remove_item E i) [Item_word k, Item_word k]) me = Inr (me', None)
    \<and> tbl (tables me' T_windex) k = None"
proof -
  obtain me1 where 1: "windex_remove E i k me = Inr (me1, None)"
      "rep E ok tbl me1 (put_idx T_windex k (kv_idx A T_windex k - {i}) A)" (is "rep E ok tbl me1 ?A1")
    by (rule kernel.windex_remove_many [OF assms(1,2) _ _ assms(4,5), where k = k]) (simp_all add: assms(3))
  have "kv_idx ?A1 T_windex k \<subseteq> {j}" using assms(3) by (auto simp: put_idx_def)
  then obtain me2 where 2: "windex_remove E i k me1 = Inr (me2, None)"
      "rep E ok tbl me2 (put_idx T_windex k {} ?A1)" (is "rep E ok tbl me2 ?A2")
    by (rule kernel.windex_remove_last [OF assms(1) 1(2)]) blast
  have "index_rep E (tbl (tables me2 T_windex)) (kv_idx ?A2 T_windex)" using 2(2) by (simp add: rep_def map_tables_def)
  moreover have "kv_idx ?A2 T_windex k = {}" by (simp add: put_idx_def)
  ultimately have "tbl (tables me2 T_windex) k = None"
    using index_rep_Some [where k = k] by (metis not_None_eq)
  then show ?thesis using 1(1) 2(1) by (simp add: remove_item_def)
qed

section \<open>All statements of a store\<close>

lemma contents_statement_table:
  assumes c: "contents E A n M"
  shows "statement_table (kv_map A T_statements)" and "statement_ids (kv_map A T_statements) = dom M"
proof -
  let ?T = "kv_map A T_statements"
  have T: "?T k = Some v \<longleftrightarrow> (\<exists>i x. M i = Some x \<and> packInt (statement_hash E x) = k \<and> v = id_key i)" for k v
    using c by (simp add: contents_def)
  have lt: "i < RDFSTORE_MAXRECORDS" if "M i = Some x" for i x using contents_below [OF c that] by simp
  show "statement_table ?T"
    unfolding statement_table_def
  proof (intro conjI inj_onI ballI)
    fix k k' assume "k \<in> dom ?T" "k' \<in> dom ?T" and eq: "?T k = ?T k'"
    then obtain v where v: "?T k = Some v" "?T k' = Some v" by auto
    obtain i x where ix: "M i = Some x" "packInt (statement_hash E x) = k" "v = id_key i" using v(1) T by blast
    obtain j y where jy: "M j = Some y" "packInt (statement_hash E y) = k'" "v = id_key j" using v(2) T by blast
    have "i = j" using ix jy lt id_key_inject [of i j] by (metis less_imp_le)
    then show "k = k'" using ix jy by simp
  next
    fix k assume "k \<in> dom ?T"
    then obtain v where "?T k = Some v" by auto
    then obtain i x where ix: "M i = Some x" "v = id_key i" "?T k = Some v" using T by blast
    then have "unat (of_nat i :: u32) < 8 * MAXRECORDS_BYTES_SIZE"
      using lt [OF ix(1)] u32_of_nat [of i] by (simp add: RDFSTORE_MAXRECORDS_def MAXRECORDS_BYTES_SIZE_def)
    then show "\<exists>i. ?T k = Some (packInt i) \<and> unat i < 8 * MAXRECORDS_BYTES_SIZE" using ix by (auto simp: id_key_def)
  qed
  show "statement_ids ?T = dom M"
  proof (rule set_eqI)
    fix i
    have "i \<in> statement_ids ?T \<longleftrightarrow> (\<exists>k v. ?T k = Some v \<and> i = unat (unpackInt v))"
      by (force simp: statement_ids_def)
    also have "\<dots> \<longleftrightarrow> (\<exists>j x. M j = Some x \<and> i = unat (unpackInt (id_key j)))" unfolding T by blast
    also have "\<dots> \<longleftrightarrow> i \<in> dom M" using lt unpack_id_key by (metis domIff domI less_imp_le not_None_eq)
    finally show "i \<in> statement_ids ?T \<longleftrightarrow> i \<in> dom M" .
  qed
qed

theorem elements_of_store:
  assumes "kernel E ok tbl" and "flat_cursor (table_ops E) ok tbl walk" and "store_holds E ok tbl me n M"
  shows "\<exists>s' it. rdfstore_elements buf (table_ops E) (tables me T_statements) st att
      = Some (s', Inr (Some it), attach st att) \<and> fresh_over st (dom M) it"
proof -
  obtain A where r: "rep E ok tbl me A" and c: "contents E A n M" using assms(3) by (auto simp: store_holds_def)
  note T = contents_statement_table [OF c, folded kernel.rep_contents_map(3) [OF assms(1) r]]
  show ?thesis
    using flat_cursor.elements_table [OF assms(2) kernel.rep_contents_map(4) [OF assms(1) r] T(1)] T(2) by fastforce
qed

theorem elements_of_store_witness:
  "\<exists>me s' it. rdfstore_insert mem_env new_store (Some the_sample) None = Inr (me, Some (the_sample\<lparr>hashcode := 522\<rparr>), 0)
     \<and> rdfstore_elements (\<lambda>_. 9) (backend_bdb memdb) (tables me T_statements) 4 (\<lambda>_. 0)
         = Some (s', Inr (Some it), attach 4 (\<lambda>_. 0)) \<and> fresh_over 4 {0} it"
proof -
  obtain me where i: "rdfstore_insert mem_env new_store (Some the_sample) None = Inr (me, Some (the_sample\<lparr>hashcode := 522\<rparr>), 0)"
    and h: "store_holds mem_env mem_ok mem_tbl me 1 [0 \<mapsto> (the_sample, None)]"
    by (rule sample_inserted)
  have cur: "flat_cursor (table_ops mem_env) mem_ok mem_tbl (\<lambda>s ks. snd s = ks)"
    using bdb_flat_cursor [OF memdb_laws] by (simp add: mem_env_def)
  have ops: "table_ops mem_env = backend_bdb memdb" by (simp add: mem_env_def)
  show ?thesis using elements_of_store [OF mem_env_kernel cur h, of "\<lambda>_. 9" 4 "\<lambda>_. 0", unfolded ops] i by auto
qed

text \<open>
  A statement for a vector of words: the two statements 3 and 9 have the word \<open>cat\<close>.
\<close>

theorem repeated_word_lost_witness:
  "\<exists>me me'. rep mem_env mem_ok mem_tbl me \<lparr>kv_map = \<lambda>t k. if t = T_model then map_of (fst (tables new_store t)) k else None,
        kv_idx = \<lambda>t k. if t = T_windex \<and> k = bytes_of ''cat'' then {3, 9} else {}\<rparr>
     \<and> steps (map (remove_item mem_env 3) [Item_word (bytes_of ''cat''), Item_word (bytes_of ''cat'')]) me = Inr (me', None)
     \<and> mem_tbl (tables me' T_windex) (bytes_of ''cat'') = None"
proof -
  let ?A = "\<lparr>kv_map = \<lambda>t k. if t = T_model then map_of (fst (tables new_store t)) k else None,
        kv_idx = \<lambda>t k. if t = T_windex \<and> k = bytes_of ''cat'' then {3, 9} else {}\<rparr>"
  define me where "me = set_table T_windex ([(bytes_of ''cat'', [8, 2])], []) new_store"
  have "list_bits [8, 2] = {3, 9}"
  proof -
    have "list_bits [8, 2] = set (filter (membit (\<lambda>i. [8, 2] ! i)) [0..<16])"
      by (auto simp: list_bits_def bitset_def)
    also have "\<dots> = {3, 9}" by code_simp
    finally show ?thesis .
  qed
  then have "coded mem_env [8, 2] {3, 9}"
    unfolding coded_def by (intro exI [of _ "[8, 2]"]) (simp add: mem_env_def bcopy_coder_def MAXRECORDS_BYTES_SIZE_def)
  then have r: "rep mem_env mem_ok mem_tbl me ?A"
    using model_keys by (auto simp: rep_def me_def set_table_def new_store_def index_rep_def map_tables_def)
  have "\<exists>me'. steps (map (remove_item mem_env 3) [Item_word (bytes_of ''cat''), Item_word (bytes_of ''cat'')]) me = Inr (me', None)
      \<and> mem_tbl (tables me' T_windex) (bytes_of ''cat'') = None"
    by (rule repeated_word_lost [OF mem_env_kernel r, where j = 9]) (simp_all add: RDFSTORE_MAXRECORDS_def)
  with r show ?thesis by blast
qed

section \<open>Removal before the cache is written back\<close>

text \<open>C16. Over the write-back cache, the removal of a statement whose record has not reached
  the database deletes the record, then takes the return code of the deletion for a
  missing statement: it returns 1 and leaves the statement in the statements table and in
  every index.\<close>

theorem remove_unsynced_incomplete:
  assumes "flat_table B ok tbl" and "table_ops E = caching_backend B" and "\<forall>t. cached_inv ok tbl (tables me t)"
    and "ctx = effective_context me st given" and "hashcode st \<in> {0, statement_hash E (st, ctx)}"
    and "cached_tbl tbl (tables me T_statements) (packInt (statement_hash E (st, ctx))) = Some (id_key i)"
    and "i \<le> RDFSTORE_MAXRECORDS"
    and "cached_tbl tbl (tables me T_nodes) (id_key i) \<noteq> None" and "tbl (fst (tables me T_nodes)) (id_key i) = None"
  shows "\<exists>me' st'. rdfstore_remove E me (Some st) given = Inr (me', Some st', 1)
    \<and> (\<forall>t. t \<noteq> T_nodes \<longrightarrow> cached_tbl tbl (tables me' t) = cached_tbl tbl (tables me t))
    \<and> cached_tbl tbl (tables me' T_nodes) = (cached_tbl tbl (tables me T_nodes))(id_key i := None)"
proof -
  let ?hc = "statement_hash E (st, ctx)" and ?C = "caching_backend B"
  note C = flat_table.caching_flat_table [OF assms(1)]
  obtain s q where f: "be_fetch ?C (tables me T_statements) (packInt ?hc) = (s, q)" by (metis prod.collapse)
  have "cached_inv ok tbl (tables me T_statements)" using assms(3) by blast
  note F = flat_table.fetch [OF C this f]
  have q: "q = Inr (id_key i)" using F assms(6) by simp
  let ?m1 = "set_table T_statements s me" and ?st = "cache_hashcode me given ?hc st"
  have nodes: "tables ?m1 T_nodes = tables me T_nodes" by (simp add: set_table_def)
  obtain s2 e where d: "be_delete ?C (tables me T_nodes) (id_key i) = (s2, e)" by (metis prod.collapse)
  have inv: "cached_inv ok tbl (tables me T_nodes)" using assms(3) by blast
  note D = flat_table.delete [OF C inv d]
  have e: "e = FLAT_STORE_E_NOTFOUND" by (rule flat_table.cached_delete_unsynced [OF assms(1) inv assms(8,9) d])
  let ?m2 = "set_table T_nodes s2 ?m1"
  have "delete_key E T_nodes (packInt (of_nat i)) ?m1 = Inr (?m2, Some 1)"
    using d e nodes assms(2) by (simp add: delete_key_def id_key_def FLAT_STORE_E_NOTFOUND_def)
  then have "steps (remove_steps E ft st' ctx hc i) ?m1 = Inr (?m2, Some 1)" for ft st' hc
    by (simp add: remove_steps_def)
  moreover have "unat (unpackInt (id_key i)) = i" by (rule unpack_id_key [OF assms(7)])
  ultimately have "rdfstore_remove E me (Some st) given = Inr (?m2, Some ?st, 1)"
    using f q assms(2) hashCode_fresh [OF assms(5)]
    by (simp add: rdfstore_remove_def assms(4) [symmetric] Let_def finish_def)
  moreover have "cached_tbl tbl (tables ?m2 t) = cached_tbl tbl (tables me t)" if "t \<noteq> T_nodes" for t
    using that F by (simp add: set_table_def)
  moreover have "cached_tbl tbl (tables ?m2 T_nodes) = (cached_tbl tbl (tables me T_nodes))(id_key i := None)"
    using D by (simp add: set_table_def)
  ultimately show ?thesis by blast
qed

definition cached_env :: "((flat_key \<times> flat_data) list \<times> flat_key list) cached kernel_env" where
  "cached_env =
     \<lparr> table_ops = caching_backend (backend_bdb memdb),
       fetch_compressed = backend_caching_fetch_compressed (backend_bdb memdb),
       store_compressed = backend_caching_store_compressed (backend_bdb memdb),
       func_decode = bcopy_coder, func_encode = bcopy_coder, sha1 = toy_digest,
       foldedcase = Some, utf8_starts = (\<lambda>_. True), deserialize_integer = (\<lambda>_. None),
       deserialize_double = (\<lambda>_. None), deserialize_dateTime = (\<lambda>_. None), deserialize_date = (\<lambda>_. None),
       time_stamp = [] \<rparr>"

lemma cached_hash: "statement_hash cached_env x = statement_hash mem_env x"
  by (simp add: statement_hash_def cached_env_def mem_env_def)

text \<open>The record of the sample statement is in the cache of the nodes only.\<close>

definition unsynced_store :: "((flat_key \<times> flat_data) list \<times> flat_key list) cached rdfstore" where
  "unsynced_store =
     \<lparr> tables = (\<lambda>t. if t = T_statements then backend_caching_open ([(packInt 522, id_key 0)], [])
          else if t = T_nodes then fst (be_store (caching_backend (backend_bdb memdb)) (backend_caching_open ([], []))
             (id_key 0) (insert_record the_sample None))
          else backend_caching_open ([], [])),
       bits_decode = (\<lambda>_. 0), bits_encode = (\<lambda>_. 0), freetext = False, me_sync = True, me_flag = False,
       me_context = None \<rparr>"

theorem remove_unsynced_incomplete_witness:
  "\<exists>me' st'. rdfstore_remove cached_env unsynced_store (Some the_sample) None = Inr (me', Some st', 1)
    \<and> cached_tbl mem_tbl (tables me' T_statements) (packInt 522) = Some (id_key 0)
    \<and> cached_tbl mem_tbl (tables me' T_nodes) (id_key 0) = None"
proof -
  let ?me = unsynced_store
  have ft: "flat_table (backend_bdb memdb) mem_ok mem_tbl" by (rule bdb_flat_table [OF memdb_laws])
  let ?s = "be_store (caching_backend (backend_bdb memdb)) (backend_caching_open ([], [])) (id_key 0) (insert_record the_sample None)"
  obtain sm e where s: "?s = (sm, e)" by (metis prod.collapse)
  have open0: "cached_inv mem_ok mem_tbl (backend_caching_open ([], []))" by (rule open_inv) simp
  note S = flat_table.cached_store_table(2) [OF ft open0 s] flat_table.first_store_cached [OF ft s]
  have inv: "\<forall>t. cached_inv mem_ok mem_tbl (tables ?me t)"
    using S s by (auto simp: unsynced_store_def intro!: open_inv)
  have ctx: "None = effective_context ?me the_sample None" by (simp add: effective_context_def unsynced_store_def)
  have st: "cached_tbl mem_tbl (tables ?me T_statements) (packInt (statement_hash cached_env (the_sample, None))) = Some (id_key 0)"
    by (simp add: unsynced_store_def cached_hash sample_hashes open_tbl)
  have nd: "cached_tbl mem_tbl (tables ?me T_nodes) (id_key 0) \<noteq> None" "mem_tbl (fst (tables ?me T_nodes)) (id_key 0) = None"
    using S s by (simp_all add: unsynced_store_def)
  have ops: "table_ops cached_env = caching_backend (backend_bdb memdb)" by (simp add: cached_env_def)
  have hc: "hashcode the_sample \<in> {0, h}" for h by simp
  have zero: "0 \<le> RDFSTORE_MAXRECORDS" by simp
  have "\<exists>me' st'. rdfstore_remove cached_env ?me (Some the_sample) None = Inr (me', Some st', 1)
      \<and> (\<forall>t. t \<noteq> T_nodes \<longrightarrow> cached_tbl mem_tbl (tables me' t) = cached_tbl mem_tbl (tables ?me t))
      \<and> cached_tbl mem_tbl (tables me' T_nodes) = (cached_tbl mem_tbl (tables ?me T_nodes))(id_key 0 := None)"
    by (rule remove_unsynced_incomplete [OF ft ops inv ctx hc st zero nd])
  then show ?thesis using st by (auto simp: cached_hash sample_hashes)
qed

definition odd_statement :: RDF_Statement where
  "odd_statement = the_sample\<lparr>object := Literal \<lparr>lit_string = Some [120], parseType = 1, lang = [], dataType = Some [100]\<rparr>\<rparr>"

theorem rejected_insert_counted_witness:
  "\<exists>me1 st1. rdfstore_insert mem_env new_store (Some odd_statement) None = Inr (me1, Some st1, - 1)
     \<and> snd (rdfstore_size mem_env me1) = Some 1"
proof -
  have "\<exists>me1 st1. rdfstore_insert mem_env new_store (Some odd_statement) None = Inr (me1, Some st1, - 1)
      \<and> snd (rdfstore_size mem_env me1) = Some (of_nat (card (ran (Map.empty :: statements))) + 1)"
    by (rule rejected_insert_counted [OF mem_env_kernel new_store_holds, where ctx = None and dt = "[100]"
          and l = "\<lparr>lit_string = Some [120], parseType = 1, lang = [], dataType = Some [100]\<rparr>"])
      (simp_all add: RDFSTORE_MAXRECORDS_def odd_statement_def the_sample_def plain_def sample_statement_def
        effective_context_def new_store_def RDFSTORE_RDF_PARSETYPE_LITERAL_def bytes_of_def)
  then show ?thesis by simp
qed

end
