(* ===== verification/Pattern.thy ===== *)
theory Pattern
  imports Digest
begin

text \<open>
  Triple patterns (\<open>src/include/rdfstore.h\<close>, and the \<open>rdfstore_triple_pattern\<close> functions of
  \<open>src/rdfstore_kernel.c\<close>): for each component of a statement the list of the nodes or
  strings it may have, with the operator that combines them. A list that is null is empty.
  A node comes with its field \<open>hashcode\<close>, a string is its bytes up to the zero. Allocation
  succeeds. An \<open>add\<close> function returns the pattern and the part that was added.
\<close>

type_synonym hashed_node = "u32 \<times> RDF_Node"

datatype pattern_part = Resource_part hashed_node | Literal_part hashed_node | String_part "byte list"

record RDF_Triple_Pattern =
  subjects :: "pattern_part list"
  subjects_operator :: nat
  predicates :: "pattern_part list"
  predicates_operator :: nat
  objects :: "pattern_part list"
  objects_operator :: nat
  contexts :: "pattern_part list"
  contexts_operator :: nat
  langs :: "pattern_part list"
  langs_operator :: nat
  dts :: "pattern_part list"
  dts_operator :: nat
  words :: "pattern_part list"
  words_operator :: nat
  ranges :: "pattern_part list"
  ranges_operator :: nat

definition rdfstore_triple_pattern_new :: RDF_Triple_Pattern where
  "rdfstore_triple_pattern_new =
     \<lparr> subjects = [], subjects_operator = 0, predicates = [], predicates_operator = 0,
       objects = [], objects_operator = 0, contexts = [], contexts_operator = 0,
       langs = [], langs_operator = 0, dts = [], dts_operator = 0,
       words = [], words_operator = 0, ranges = [], ranges_operator = 0 \<rparr>"

text \<open>\<open>node->type == RDFSTORE_NODE_TYPE_LITERAL\<close>\<close>

definition is_literal :: "hashed_node \<Rightarrow> bool" where
  "is_literal n = (case snd n of Literal l \<Rightarrow> True | Resource r \<Rightarrow> False)"

type_synonym pattern_change = "RDF_Triple_Pattern option \<times> pattern_part option"

text \<open>The new part goes to the end of its list.\<close>

definition add_part ::
  "((pattern_part list \<Rightarrow> pattern_part list) \<Rightarrow> RDF_Triple_Pattern \<Rightarrow> RDF_Triple_Pattern)
    \<Rightarrow> pattern_part \<Rightarrow> RDF_Triple_Pattern \<Rightarrow> pattern_change"
where
  "add_part update li tp = (Some (update (\<lambda>list. list @ [li]) tp), Some li)"

definition add_resource ::
  "((pattern_part list \<Rightarrow> pattern_part list) \<Rightarrow> RDF_Triple_Pattern \<Rightarrow> RDF_Triple_Pattern)
    \<Rightarrow> RDF_Triple_Pattern option \<Rightarrow> hashed_node option \<Rightarrow> pattern_change"
where
  "add_resource update tp node = (case tp of
     None \<Rightarrow> (None, None)
   | Some t \<Rightarrow> (case node of
         None \<Rightarrow> (tp, None)
       | Some n \<Rightarrow> if is_literal n then (tp, None) else add_part update (Resource_part n) t))"

definition rdfstore_triple_pattern_add_subject ::
  "RDF_Triple_Pattern option \<Rightarrow> hashed_node option \<Rightarrow> pattern_change"
where
  "rdfstore_triple_pattern_add_subject = add_resource subjects_update"

definition rdfstore_triple_pattern_add_predicate ::
  "RDF_Triple_Pattern option \<Rightarrow> hashed_node option \<Rightarrow> pattern_change"
where
  "rdfstore_triple_pattern_add_predicate = add_resource predicates_update"

definition rdfstore_triple_pattern_add_context ::
  "RDF_Triple_Pattern option \<Rightarrow> hashed_node option \<Rightarrow> pattern_change"
where
  "rdfstore_triple_pattern_add_context = add_resource contexts_update"

definition rdfstore_triple_pattern_add_object ::
  "RDF_Triple_Pattern option \<Rightarrow> hashed_node option \<Rightarrow> pattern_change"
where
  "rdfstore_triple_pattern_add_object tp node = (case tp of
     None \<Rightarrow> (None, None)
   | Some t \<Rightarrow> (case node of
         None \<Rightarrow> (tp, None)
       | Some n \<Rightarrow> add_part objects_update (if is_literal n then Literal_part n else Resource_part n) t))"

text \<open>\<open>str\<close> is the C string, without its zero.\<close>

definition rdfstore_triple_pattern_add_lang ::
  "RDF_Triple_Pattern option \<Rightarrow> byte list option \<Rightarrow> pattern_change"
where
  "rdfstore_triple_pattern_add_lang tp str = (case tp of
     None \<Rightarrow> (None, None)
   | Some t \<Rightarrow> (case str of
         None \<Rightarrow> (tp, None)
       | Some s \<Rightarrow> if length s \<le> 0 then (tp, None) else add_part langs_update (String_part s) t))"

text \<open>
  Strings given with their length: \<open>len\<close> bytes are copied and a zero is put behind them (one
  byte past the allocation, which is of \<open>len\<close> bytes). What is read back is the C string.
\<close>

definition add_counted ::
  "((pattern_part list \<Rightarrow> pattern_part list) \<Rightarrow> RDF_Triple_Pattern \<Rightarrow> RDF_Triple_Pattern)
    \<Rightarrow> RDF_Triple_Pattern option \<Rightarrow> byte list option \<Rightarrow> int \<Rightarrow> pattern_change"
where
  "add_counted update tp str len = (case tp of
     None \<Rightarrow> (None, None)
   | Some t \<Rightarrow> (case str of
         None \<Rightarrow> (tp, None)
       | Some s \<Rightarrow>
           if len \<le> 0 then (tp, None)
           else add_part update (String_part (takeWhile (\<lambda>b. b \<noteq> 0) (take (nat len) s))) t))"

definition rdfstore_triple_pattern_add_datatype ::
  "RDF_Triple_Pattern option \<Rightarrow> byte list option \<Rightarrow> int \<Rightarrow> pattern_change"
where
  "rdfstore_triple_pattern_add_datatype = add_counted dts_update"

definition rdfstore_triple_pattern_add_word ::
  "RDF_Triple_Pattern option \<Rightarrow> byte list option \<Rightarrow> int \<Rightarrow> pattern_change"
where
  "rdfstore_triple_pattern_add_word = add_counted words_update"

definition rdfstore_triple_pattern_add_ranges ::
  "RDF_Triple_Pattern option \<Rightarrow> byte list option \<Rightarrow> int \<Rightarrow> pattern_change"
where
  "rdfstore_triple_pattern_add_ranges = add_counted ranges_update"

text \<open>The operators: 0 is or, 1 is and, 2 is not; those of the ranges go up to 10.\<close>

definition set_operator ::
  "int \<Rightarrow> ((nat \<Rightarrow> nat) \<Rightarrow> RDF_Triple_Pattern \<Rightarrow> RDF_Triple_Pattern)
    \<Rightarrow> RDF_Triple_Pattern option \<Rightarrow> int \<Rightarrow> RDF_Triple_Pattern option \<times> int"
where
  "set_operator limit update tp op = (case tp of
     None \<Rightarrow> (None, 0)
   | Some t \<Rightarrow> if op < 0 \<or> op > limit then (tp, 0) else (Some (update (\<lambda>_. nat op) t), 1))"

definition rdfstore_triple_pattern_set_subjects_operator where
  "rdfstore_triple_pattern_set_subjects_operator = set_operator 2 subjects_operator_update"

definition rdfstore_triple_pattern_set_predicates_operator where
  "rdfstore_triple_pattern_set_predicates_operator = set_operator 2 predicates_operator_update"

definition rdfstore_triple_pattern_set_objects_operator where
  "rdfstore_triple_pattern_set_objects_operator = set_operator 2 objects_operator_update"

definition rdfstore_triple_pattern_set_contexts_operator where
  "rdfstore_triple_pattern_set_contexts_operator = set_operator 2 contexts_operator_update"

definition rdfstore_triple_pattern_set_langs_operator where
  "rdfstore_triple_pattern_set_langs_operator = set_operator 2 langs_operator_update"

definition rdfstore_triple_pattern_set_datatypes_operator where
  "rdfstore_triple_pattern_set_datatypes_operator = set_operator 2 dts_operator_update"

definition rdfstore_triple_pattern_set_words_operator where
  "rdfstore_triple_pattern_set_words_operator = set_operator 2 words_operator_update"

definition rdfstore_triple_pattern_set_ranges_operator where
  "rdfstore_triple_pattern_set_ranges_operator = set_operator 10 ranges_operator_update"

section \<open>Patterns the search accepts\<close>

fun resource_part :: "pattern_part \<Rightarrow> bool" where
  "resource_part (Resource_part n) = True"
| "resource_part p = False"

fun string_part :: "pattern_part \<Rightarrow> bool" where
  "string_part (String_part s) = True"
| "string_part p = False"

text \<open>The checks at the start of \<open>rdfstore_search\<close>\<close>

definition pattern_ok :: "RDF_Triple_Pattern \<Rightarrow> bool" where
  "pattern_ok tp \<longleftrightarrow>
     (subjects tp = [] \<or> (\<forall>p\<in>set (subjects tp). resource_part p) \<and> subjects_operator tp \<le> 2)
   \<and> (predicates tp = [] \<or> (\<forall>p\<in>set (predicates tp). resource_part p) \<and> predicates_operator tp \<le> 2)
   \<and> (objects tp = [] \<or> (\<forall>p\<in>set (objects tp). \<not> string_part p) \<and> objects_operator tp \<le> 2)
   \<and> (contexts tp = [] \<or> (\<forall>p\<in>set (contexts tp). resource_part p) \<and> contexts_operator tp \<le> 2)
   \<and> (langs tp = [] \<or> (\<forall>p\<in>set (langs tp). string_part p) \<and> langs_operator tp \<le> 2)
   \<and> (dts tp = [] \<or> (\<forall>p\<in>set (dts tp). string_part p) \<and> dts_operator tp \<le> 2)
   \<and> (words tp = [] \<or> (\<forall>p\<in>set (words tp). string_part p) \<and> words_operator tp \<le> 2)
   \<and> (ranges tp = [] \<or> (\<forall>p\<in>set (ranges tp). string_part p) \<and> ranges_operator tp \<le> 10)"

text \<open>No component given\<close>

definition pattern_empty :: "RDF_Triple_Pattern \<Rightarrow> bool" where
  "pattern_empty tp \<longleftrightarrow> subjects tp = [] \<and> predicates tp = [] \<and> objects tp = [] \<and> contexts tp = []
     \<and> langs tp = [] \<and> dts tp = [] \<and> words tp = [] \<and> ranges tp = []"

section \<open>Patterns built by the constructors\<close>

datatype pattern_call =
    Add_subject "hashed_node option"
  | Add_predicate "hashed_node option"
  | Add_object "hashed_node option"
  | Add_context "hashed_node option"
  | Add_lang "byte list option"
  | Add_datatype "byte list option" int
  | Add_word "byte list option" int
  | Add_ranges "byte list option" int
  | Set_subjects_operator int
  | Set_predicates_operator int
  | Set_objects_operator int
  | Set_contexts_operator int
  | Set_langs_operator int
  | Set_datatypes_operator int
  | Set_words_operator int
  | Set_ranges_operator int

fun pattern_step :: "pattern_call \<Rightarrow> RDF_Triple_Pattern option \<Rightarrow> RDF_Triple_Pattern option" where
  "pattern_step (Add_subject n) tp = fst (rdfstore_triple_pattern_add_subject tp n)"
| "pattern_step (Add_predicate n) tp = fst (rdfstore_triple_pattern_add_predicate tp n)"
| "pattern_step (Add_object n) tp = fst (rdfstore_triple_pattern_add_object tp n)"
| "pattern_step (Add_context n) tp = fst (rdfstore_triple_pattern_add_context tp n)"
| "pattern_step (Add_lang s) tp = fst (rdfstore_triple_pattern_add_lang tp s)"
| "pattern_step (Add_datatype s n) tp = fst (rdfstore_triple_pattern_add_datatype tp s n)"
| "pattern_step (Add_word s n) tp = fst (rdfstore_triple_pattern_add_word tp s n)"
| "pattern_step (Add_ranges s n) tp = fst (rdfstore_triple_pattern_add_ranges tp s n)"
| "pattern_step (Set_subjects_operator n) tp = fst (rdfstore_triple_pattern_set_subjects_operator tp n)"
| "pattern_step (Set_predicates_operator n) tp = fst (rdfstore_triple_pattern_set_predicates_operator tp n)"
| "pattern_step (Set_objects_operator n) tp = fst (rdfstore_triple_pattern_set_objects_operator tp n)"
| "pattern_step (Set_contexts_operator n) tp = fst (rdfstore_triple_pattern_set_contexts_operator tp n)"
| "pattern_step (Set_langs_operator n) tp = fst (rdfstore_triple_pattern_set_langs_operator tp n)"
| "pattern_step (Set_datatypes_operator n) tp = fst (rdfstore_triple_pattern_set_datatypes_operator tp n)"
| "pattern_step (Set_words_operator n) tp = fst (rdfstore_triple_pattern_set_words_operator tp n)"
| "pattern_step (Set_ranges_operator n) tp = fst (rdfstore_triple_pattern_set_ranges_operator tp n)"

lemmas pattern_constructors =
  rdfstore_triple_pattern_add_subject_def rdfstore_triple_pattern_add_predicate_def
  rdfstore_triple_pattern_add_object_def rdfstore_triple_pattern_add_context_def
  rdfstore_triple_pattern_add_lang_def rdfstore_triple_pattern_add_datatype_def
  rdfstore_triple_pattern_add_word_def rdfstore_triple_pattern_add_ranges_def
  rdfstore_triple_pattern_set_subjects_operator_def rdfstore_triple_pattern_set_predicates_operator_def
  rdfstore_triple_pattern_set_objects_operator_def rdfstore_triple_pattern_set_contexts_operator_def
  rdfstore_triple_pattern_set_langs_operator_def rdfstore_triple_pattern_set_datatypes_operator_def
  rdfstore_triple_pattern_set_words_operator_def rdfstore_triple_pattern_set_ranges_operator_def

text \<open>The operators stay in their limits also where the component is empty.\<close>

definition pattern_inv :: "RDF_Triple_Pattern \<Rightarrow> bool" where
  "pattern_inv tp \<longleftrightarrow>
     (\<forall>p\<in>set (subjects tp @ predicates tp @ contexts tp). resource_part p)
   \<and> (\<forall>p\<in>set (objects tp). \<not> string_part p)
   \<and> (\<forall>p\<in>set (langs tp @ dts tp @ words tp @ ranges tp). string_part p)
   \<and> subjects_operator tp \<le> 2 \<and> predicates_operator tp \<le> 2 \<and> objects_operator tp \<le> 2
   \<and> contexts_operator tp \<le> 2 \<and> langs_operator tp \<le> 2 \<and> dts_operator tp \<le> 2
   \<and> words_operator tp \<le> 2 \<and> ranges_operator tp \<le> 10"

lemma pattern_inv_ok: "pattern_inv tp \<Longrightarrow> pattern_ok tp"
  by (simp add: pattern_inv_def pattern_ok_def)

lemma pattern_step_inv:
  assumes "pattern_inv tp"
  shows "\<exists>tp'. pattern_step c (Some tp) = Some tp' \<and> pattern_inv tp'"
  using assms
  by (cases c) (auto simp: pattern_constructors add_resource_def add_counted_def set_operator_def add_part_def
      pattern_inv_def ball_Un split: option.split)


end
