(* ===== verification/Search.thy ===== *)
theory Search
  imports Queries Pattern
begin

text \<open>
  \<open>rdfstore_search\<close> of \<open>src/rdfstore_kernel.c\<close>. Each component of the pattern is gathered into
  \<open>bits2\<close> from the vectors at the keys of its parts and joined into \<open>bits\<close>; \<open>bits1\<close> is where
  the logical operations write. The three buffers are static and cleared at the start.

  The store is identified by the number \<open>st\<close>, \<open>att\<close> counts the iterators attached to it, and
  \<open>buf\<close> is the fresh memory of the iterator. A store that waits to be closed until its last
  iterator is gone is left to \<open>rdfstore_iterator_close\<close>.
\<close>

section \<open>Gathering the vectors of a component\<close>

text \<open>The vector gathered so far, its size, and the buffer of the logical operations\<close>

record gathering =
  g_bits :: mem
  g_size :: nat
  g_tmp :: mem

text \<open>\<open>bcopy(src, dst, n)\<close>\<close>

definition bcopy :: "mem \<Rightarrow> mem \<Rightarrow> nat \<Rightarrow> mem" where
  "bcopy src dst n = write_bytes dst 0 (map src [0..<n])"

text \<open>With the operator 2 nothing is written, and what \<open>bits1\<close> holds is taken.\<close>

definition combine :: "nat \<Rightarrow> nat \<Rightarrow> mem \<Rightarrow> gathering \<Rightarrow> gathering" where
  "combine op outsize2 decoded g =
     (let (sz, tmp) =
        (if op = 1 then rdfstore_bits_and (g_size g) (g_bits g) outsize2 decoded (g_tmp g)
         else if op = 0 then rdfstore_bits_or (g_size g) (g_bits g) outsize2 decoded (g_tmp g)
         else (g_size g, g_tmp g));
        sz = rdfstore_bits_shorten sz tmp
      in \<lparr> g_bits = bcopy tmp (g_bits g) sz, g_size = sz, g_tmp = tmp \<rparr>)"

definition fetch_into ::
  "'s kernel_env \<Rightarrow> table \<Rightarrow> nat \<Rightarrow> flat_key \<Rightarrow> 's rdfstore \<Rightarrow> gathering
    \<Rightarrow> halt + ('s rdfstore \<times> (flat_error + gathering))"
where
  "fetch_into E t op k me g =
     (case be_fetch (table_ops E) (tables me t) k of
        (s, Inl err) \<Rightarrow> Inr (set_table t s me, Inl err)
      | (s, Inr d) \<Rightarrow>
          let me = set_table t s me in
          if g_size g > 0 then
            case run_coder (func_decode E) (bits_decode me) d of
              Inl h \<Rightarrow> Inl h
            | Inr bs \<Rightarrow>
                let me = me\<lparr>bits_decode := write_bytes (bits_decode me) 0 bs\<rparr>
                in Inr (me, Inr (combine op (length bs) (bits_decode me) g))
          else
            case run_coder (func_decode E) (g_bits g) d of
              Inl h \<Rightarrow> Inl h
            | Inr bs \<Rightarrow> Inr (me, Inr (g\<lparr>g_bits := write_bytes (g_bits g) 0 bs, g_size := length bs\<rparr>)))"

text \<open>
  The loop over the parts. \<open>key\<close> gives the key of a part and the part with its hash code set;
  a key that is not in the table is passed over. \<open>None\<close>: the search is over with a null.
\<close>

fun gather_parts ::
  "'s kernel_env \<Rightarrow> table \<Rightarrow> nat \<Rightarrow> (pattern_part \<Rightarrow> pattern_part \<times> flat_key option) \<Rightarrow> pattern_part list
    \<Rightarrow> 's rdfstore \<Rightarrow> gathering \<Rightarrow> halt + ('s rdfstore \<times> pattern_part list \<times> gathering option)"
where
  "gather_parts E t op key [] me g = Inr (me, [], Some g)"
| "gather_parts E t op key (p # ps) me g =
     (case key p of
        (p, None) \<Rightarrow> Inr (me, p # ps, None)
      | (p, Some k) \<Rightarrow>
          bindE (fetch_into E t op k me g) (\<lambda>(me, r).
            let go = (\<lambda>g. bindE (gather_parts E t op key ps me g) (\<lambda>(me, ps, r). Inr (me, p # ps, r)))
            in case r of
                 Inl err \<Rightarrow> if err \<noteq> FLAT_STORE_E_NOTFOUND then Inr (me, p # ps, None) else go g
               | Inr g \<Rightarrow> go g))"

section \<open>The keys of the parts\<close>

definition hashed_key :: "'s kernel_env \<Rightarrow> pattern_part \<Rightarrow> pattern_part \<times> flat_key option" where
  "hashed_key E p = (case p of
     Resource_part (cached, n) \<Rightarrow>
       let hc = rdfstore_digest_get_node_hashCode (sha1 E) cached n False in (Resource_part (hc, n), Some (packInt hc))
   | Literal_part (cached, n) \<Rightarrow>
       let hc = rdfstore_digest_get_node_hashCode (sha1 E) cached n False in (Literal_part (hc, n), Some (packInt hc))
   | String_part s \<Rightarrow> (p, None))"

definition part_string :: "pattern_part \<Rightarrow> byte list" where
  "part_string p = (case p of String_part s \<Rightarrow> s | Resource_part n \<Rightarrow> [] | Literal_part n \<Rightarrow> [])"

definition folded_key :: "'s kernel_env \<Rightarrow> pattern_part \<Rightarrow> pattern_part \<times> flat_key option" where
  "folded_key E p = (p, foldedcase E (part_string p))"

definition string_key :: "pattern_part \<Rightarrow> pattern_part \<times> flat_key option" where
  "string_key p = (p, Some (part_string p))"

section \<open>Joining the components\<close>

record 's search_state =
  store_of :: "'s rdfstore"
  pattern_of :: RDF_Triple_Pattern
  bits :: mem
  bits1 :: mem
  bits2 :: mem
  outsize1 :: nat

text \<open>Where the search may end before its last line: it returns null, or an iterator without a statement.\<close>

datatype search_end = Search_null | Search_empty

type_synonym 's search_step = "'s search_state \<Rightarrow> halt + ('s search_state \<times> search_end option)"

fun search_steps :: "'s search_step list \<Rightarrow> 's search_step" where
  "search_steps [] S = Inr (S, None)"
| "search_steps (f # fs) S =
     bindE (f S) (\<lambda>(S, r). case r of None \<Rightarrow> search_steps fs S | Some e \<Rightarrow> Inr (S, Some e))"

text \<open>The first component to be joined, but for the contexts: the \<open>or\<close> with the cleared \<open>bits\<close>\<close>

definition join_first :: "gathering \<Rightarrow> 's search_state \<Rightarrow> 's search_state" where
  "join_first g S =
     (let (sz, tmp) = rdfstore_bits_or (g_size g) (bits S) (g_size g) (g_bits g) (g_tmp g)
      in S\<lparr>bits := bcopy tmp (bits S) (g_size g), bits1 := tmp, bits2 := g_bits g, outsize1 := sz\<rparr>)"

definition join_first_contexts :: "gathering \<Rightarrow> 's search_state \<Rightarrow> 's search_state" where
  "join_first_contexts g S =
     S\<lparr>bits := bcopy (g_bits g) (bits S) (g_size g), bits1 := g_tmp g, bits2 := g_bits g, outsize1 := g_size g\<rparr>"

definition join ::
  "(gathering \<Rightarrow> 's search_state \<Rightarrow> 's search_state) \<Rightarrow> gathering \<Rightarrow> 's search_state \<Rightarrow> 's search_state \<times> search_end option"
where
  "join alone g S =
     (if g_size g = 0 then (S\<lparr>bits1 := g_tmp g, bits2 := g_bits g\<rparr>, Some Search_empty)
      else if outsize1 S > 0 then
        let (sz, tmp) = rdfstore_bits_and (outsize1 S) (bits S) (g_size g) (g_bits g) (g_tmp g);
            sz = rdfstore_bits_shorten sz tmp;
            S = S\<lparr>bits1 := tmp, bits2 := g_bits g, outsize1 := sz\<rparr>
        in if sz = 0 then (S, Some Search_empty) else (S\<lparr>bits := bcopy tmp (bits S) sz\<rparr>, None)
      else (alone g S, None))"

definition search_component ::
  "'s kernel_env \<Rightarrow> table \<Rightarrow> (pattern_part \<Rightarrow> pattern_part \<times> flat_key option)
    \<Rightarrow> (RDF_Triple_Pattern \<Rightarrow> pattern_part list)
    \<Rightarrow> ((pattern_part list \<Rightarrow> pattern_part list) \<Rightarrow> RDF_Triple_Pattern \<Rightarrow> RDF_Triple_Pattern)
    \<Rightarrow> (RDF_Triple_Pattern \<Rightarrow> nat) \<Rightarrow> (gathering \<Rightarrow> 's search_state \<Rightarrow> 's search_state) \<Rightarrow> 's search_step"
where
  "search_component E t key get update op alone S =
     (if get (pattern_of S) = [] then Inr (S, None)
      else bindE (gather_parts E t (op (pattern_of S)) key (get (pattern_of S)) (store_of S)
                    \<lparr>g_bits = bits2 S, g_size = 0, g_tmp = bits1 S\<rparr>)
        (\<lambda>(me, ps, r).
          let S = S\<lparr>store_of := me, pattern_of := update (\<lambda>_. ps) (pattern_of S)\<rparr>
          in case r of None \<Rightarrow> Inr (S, Some Search_null) | Some g \<Rightarrow> Inr (join alone g S)))"

definition search_subjects :: "'s kernel_env \<Rightarrow> 's search_step" where
  "search_subjects E =
     search_component E T_subjects (hashed_key E) subjects subjects_update subjects_operator join_first"

definition search_predicates :: "'s kernel_env \<Rightarrow> 's search_step" where
  "search_predicates E =
     search_component E T_predicates (hashed_key E) predicates predicates_update predicates_operator join_first"

definition search_objects :: "'s kernel_env \<Rightarrow> 's search_step" where
  "search_objects E =
     search_component E T_objects (hashed_key E) objects objects_update objects_operator join_first"

definition search_langs :: "'s kernel_env \<Rightarrow> 's search_step" where
  "search_langs E =
     search_component E T_languages (folded_key E) langs langs_update langs_operator join_first"

definition search_dts :: "'s kernel_env \<Rightarrow> 's search_step" where
  "search_dts E =
     search_component E T_datatypes string_key dts dts_update dts_operator join_first"

definition search_contexts :: "'s kernel_env \<Rightarrow> 's search_step" where
  "search_contexts E =
     search_component E T_contexts (hashed_key E) contexts contexts_update contexts_operator join_first_contexts"

text \<open>The words come first and are gathered in \<open>bits\<close> itself.\<close>

definition search_words :: "'s kernel_env \<Rightarrow> 's search_step" where
  "search_words E S =
     (if \<not> (freetext (store_of S) \<and> words (pattern_of S) \<noteq> []) then Inr (S, None)
      else bindE (gather_parts E T_windex (words_operator (pattern_of S)) (folded_key E) (words (pattern_of S))
                    (store_of S) \<lparr>g_bits = bits S, g_size = outsize1 S, g_tmp = bits1 S\<rparr>)
        (\<lambda>(me, ps, r).
          let S = S\<lparr>store_of := me, pattern_of := (pattern_of S)\<lparr>words := ps\<rparr>\<rparr>
          in case r of
               None \<Rightarrow> Inr (S, Some Search_null)
             | Some g \<Rightarrow>
                 let S = S\<lparr>bits := g_bits g, bits1 := g_tmp g, outsize1 := g_size g\<rparr>
                 in Inr (S, if outsize1 S = 0 then Some Search_empty else None)))"

section \<open>Ranges of values\<close>

text \<open>
  How the machine compares the numbers that the keys of the tables of numbers hold: the value
  of the bytes of a \<open>long\<close>, and \<open>==\<close> and \<open>>\<close> on the bytes of a \<open>double\<close>.
\<close>

record machine =
  long_at :: "flat_key \<Rightarrow> int"
  double_eq :: "flat_key \<Rightarrow> flat_key \<Rightarrow> bool"
  double_gt :: "flat_key \<Rightarrow> flat_key \<Rightarrow> bool"

text \<open>\<open>strcmp\<close> on the bytes from two pointers on\<close>

fun strcmp :: "byte list \<Rightarrow> byte list \<Rightarrow> int" where
  "strcmp (x # xs) (y # ys) =
     (if x \<noteq> y then uint x - uint y else if x = 0 then 0 else strcmp xs ys)"
| "strcmp xs ys = 0"

definition value_eq :: "machine \<Rightarrow> table \<Rightarrow> flat_key \<Rightarrow> flat_key \<Rightarrow> bool" where
  "value_eq m t a b = (if t = T_xsd_integer then long_at m a = long_at m b
     else if t = T_xsd_double then double_eq m a b else strcmp a b = 0)"

definition value_gt :: "machine \<Rightarrow> table \<Rightarrow> flat_key \<Rightarrow> flat_key \<Rightarrow> bool" where
  "value_gt m t a b = (if t = T_xsd_integer then long_at m a > long_at m b
     else if t = T_xsd_double then double_gt m a b else strcmp a b > 0)"

text \<open>The table a bound belongs to, and its key\<close>

definition range_date :: "'s kernel_env \<Rightarrow> byte list \<Rightarrow> flat_key option" where
  "range_date E s = (case deserialize_dateTime E s of
     Some txt \<Rightarrow> Some (txt @ [0])
   | None \<Rightarrow> (case deserialize_date E s of Some txt \<Rightarrow> Some (txt @ [0]) | None \<Rightarrow> None))"

definition range_first :: "'s kernel_env \<Rightarrow> byte list \<Rightarrow> (table \<times> flat_key) option" where
  "range_first E s = (case deserialize_integer E s of
     Some k \<Rightarrow> Some (T_xsd_integer, k)
   | None \<Rightarrow> (case deserialize_double E s of
       Some k \<Rightarrow> Some (T_xsd_double, k)
     | None \<Rightarrow> map_option (Pair T_xsd_date) (range_date E s)))"

definition range_second :: "'s kernel_env \<Rightarrow> table \<Rightarrow> byte list \<Rightarrow> flat_key option" where
  "range_second E t s = (if t = T_xsd_integer then deserialize_integer E s
     else if t = T_xsd_double then deserialize_double E s else range_date E s)"

text \<open>What the loops over the cursor do at a key\<close>

datatype range_choice = Range_stop | Range_skip | Range_visit | Range_last

definition below_choice :: "machine \<Rightarrow> table \<Rightarrow> flat_key \<Rightarrow> bool \<Rightarrow> flat_key \<Rightarrow> range_choice" where
  "below_choice m t bound inclusive key =
     (if value_eq m t key bound then if inclusive then Range_last else Range_stop
      else if value_gt m t key bound then Range_stop else Range_visit)"

definition differs_choice :: "machine \<Rightarrow> table \<Rightarrow> flat_key \<Rightarrow> flat_key \<Rightarrow> range_choice" where
  "differs_choice m t bound key = (if value_eq m t key bound then Range_skip else Range_visit)"

definition above_choice :: "machine \<Rightarrow> table \<Rightarrow> flat_key \<Rightarrow> bool \<Rightarrow> flat_key \<Rightarrow> range_choice" where
  "above_choice m t bound strict key =
     (if value_eq m t key bound \<and> strict then Range_skip else Range_visit)"

text \<open>
  The body of the loops at a key, up to the call of \<open>next\<close>: \<open>Inl\<close> is what the loop ends with.
  A key that the cursor gives and the fetch does not find ends it, like the last key.
\<close>

definition range_visit ::
  "'s kernel_env \<Rightarrow> table \<Rightarrow> range_choice \<Rightarrow> flat_key \<Rightarrow> 's rdfstore \<Rightarrow> gathering
    \<Rightarrow> (halt + ('s rdfstore \<times> gathering option)) + ('s rdfstore \<times> gathering)"
where
  "range_visit E t choice key me g = (case choice of
     Range_stop \<Rightarrow> Inl (Inr (me, Some g))
   | Range_skip \<Rightarrow> Inr (me, g)
   | _ \<Rightarrow> (case fetch_into E t 0 key me g of
         Inl h \<Rightarrow> Inl (Inl h)
       | Inr (me, Inl err) \<Rightarrow> Inl (Inr (me, if err \<noteq> FLAT_STORE_E_NOTFOUND then None else Some g))
       | Inr (me, Inr g) \<Rightarrow> if choice = Range_last then Inl (Inr (me, Some g)) else Inr (me, g)))"

text \<open>The \<open>do ... while (err == 0)\<close> loops; \<open>None\<close> is one that does not end.\<close>

partial_function (option) range_loop ::
  "'s kernel_env \<Rightarrow> table \<Rightarrow> (flat_key \<Rightarrow> range_choice) \<Rightarrow> flat_key \<Rightarrow> 's rdfstore \<Rightarrow> gathering
    \<Rightarrow> (halt + ('s rdfstore \<times> gathering option)) option"
where
  "range_loop E t choice key me g =
     (case range_visit E t (choice key) key me g of
        Inl r \<Rightarrow> Some r
      | Inr (me, g) \<Rightarrow> (case be_next (table_ops E) (tables me t) key of
            (s, Inl err) \<Rightarrow> Some (Inr (set_table t s me, Some g))
          | (s, Inr key) \<Rightarrow> range_loop E t choice key (set_table t s me) g))"

text \<open>A loop from the first key, or from a key on; \<open>first\<close> and \<open>from\<close> may find none.\<close>

definition range_scan ::
  "'s kernel_env \<Rightarrow> table \<Rightarrow> ('s \<Rightarrow> 's \<times> (flat_error + flat_key)) \<Rightarrow> (flat_key \<Rightarrow> range_choice)
    \<Rightarrow> 's rdfstore \<Rightarrow> gathering \<Rightarrow> halt + ('s rdfstore \<times> gathering option)"
where
  "range_scan E t start choice me g =
     (case start (tables me t) of
        (s, Inl err) \<Rightarrow> Inr (set_table t s me, Some g)
      | (s, Inr key) \<Rightarrow> (case range_loop E t choice key (set_table t s me) g of
            None \<Rightarrow> Inl Halt_loop | Some r \<Rightarrow> r))"

text \<open>A single value; when it is not in the table the search returns null.\<close>

definition range_value ::
  "'s kernel_env \<Rightarrow> table \<Rightarrow> flat_key \<Rightarrow> 's rdfstore \<Rightarrow> gathering \<Rightarrow> halt + ('s rdfstore \<times> gathering option)"
where
  "range_value E t key me g =
     bindE (fetch_into E t 0 key me g) (\<lambda>(me, r). Inr (me, case r of Inl err \<Rightarrow> None | Inr g \<Rightarrow> Some g))"

text \<open>Gathering into an empty \<open>bits2\<close> and joining\<close>

definition range_join ::
  "('s rdfstore \<Rightarrow> gathering \<Rightarrow> halt + ('s rdfstore \<times> gathering option)) \<Rightarrow> 's search_step"
where
  "range_join gather S =
     bindE (gather (store_of S) \<lparr>g_bits = bits2 S, g_size = 0, g_tmp = bits1 S\<rparr>) (\<lambda>(me, r).
       let S = S\<lparr>store_of := me\<rparr>
       in case r of None \<Rightarrow> Inr (S, Some Search_null) | Some g \<Rightarrow> Inr (join join_first g S))"

definition search_ranges :: "machine \<Rightarrow> 's kernel_env \<Rightarrow> 's search_step" where
  "search_ranges m E S = (case ranges (pattern_of S) of
     [] \<Rightarrow> Inr (S, None)
   | p # ps \<Rightarrow>
       let op = ranges_operator (pattern_of S);
           first = be_first (table_ops E);
           from = (\<lambda>k s. be_from (table_ops E) s k)
       in case range_first E (part_string p) of
            None \<Rightarrow> Inr (S, Some Search_null)
          | Some (t, k) \<Rightarrow>
              if op > 6 \<and> op < 11 then
                case ps of
                  [] \<Rightarrow> Inr (S, Some Search_null)
                | p2 # _ \<Rightarrow> (case range_second E t (part_string p2) of
                      None \<Rightarrow> Inr (S, Some Search_null)
                    | Some k2 \<Rightarrow> search_steps
                        [range_join (range_scan E t (from k) (above_choice m t k (op = 7 \<or> op = 10))),
                         range_join (range_scan E t first (below_choice m t k2 (op = 9 \<or> op = 10)))] S)
              else if op = 1 \<or> op = 2 then range_join (range_scan E t first (below_choice m t k (op = 2))) S
              else if op = 3 then range_join (range_value E t k) S
              else if op = 4 then range_join (range_scan E t first (differs_choice m t k)) S
              else if op = 5 \<or> op = 6 then range_join (range_scan E t (from k) (above_choice m t k (op = 6))) S
              else range_join (\<lambda>me g. Inr (me, Some g)) S)"

section \<open>Search\<close>

text \<open>An iterator without a statement, in fresh memory\<close>

definition empty_results :: "mem \<Rightarrow> nat \<Rightarrow> rdfstore_iterator" where
  "empty_results buf st = \<lparr> it_store = st, it_size = 0, ids = buf, ids_size = 0, remove_holes = 0,
     st_counter = 0, pos = 0 \<rparr>"

definition full_results :: "mem \<Rightarrow> nat \<Rightarrow> 's search_state \<Rightarrow> rdfstore_iterator" where
  "full_results buf st S = (empty_results buf st)
     \<lparr>ids := bcopy (bits S) buf (outsize1 S), ids_size := outsize1 S,
      it_size := count_loop (outsize1 S) (bits S) 0 0\<rparr>"

definition all_steps :: "machine \<Rightarrow> 's kernel_env \<Rightarrow> 's search_step list" where
  "all_steps m E =
     [search_words E, search_subjects E, search_predicates E, search_objects E, search_langs E, search_dts E,
      search_ranges m E, search_contexts E]"

definition start_state :: "'s rdfstore \<Rightarrow> RDF_Triple_Pattern \<Rightarrow> 's search_state" where
  "start_state me tp =
     \<lparr> store_of = me, pattern_of = tp, bits = (\<lambda>_. 0), bits1 = (\<lambda>_. 0), bits2 = (\<lambda>_. 0), outsize1 = 0 \<rparr>"

definition rdfstore_search ::
  "machine \<Rightarrow> 's kernel_env \<Rightarrow> mem \<Rightarrow> nat \<Rightarrow> attachments \<Rightarrow> 's rdfstore \<Rightarrow> RDF_Triple_Pattern option
    \<Rightarrow> halt + ('s rdfstore \<times> RDF_Triple_Pattern option \<times> rdfstore_iterator option \<times> attachments)"
where
  "rdfstore_search m E buf st att me tp =
     (let elements = (case rdfstore_elements buf (table_ops E) (tables me T_statements) st att of
            None \<Rightarrow> Inl Halt_loop
          | Some (s, Inl e, att) \<Rightarrow> Inl (Halt_bits e)
          | Some (s, Inr r, att) \<Rightarrow> Inr (set_table T_statements s me, tp, r, att))
      in case tp of
           None \<Rightarrow> elements
         | Some t \<Rightarrow>
             if \<not> pattern_ok t then Inr (me, tp, None, att)
             else if freetext me \<and> words t \<noteq> [] \<and> objects t \<noteq> [] then Inr (me, tp, None, att)
             else if pattern_empty t then elements
             else bindE (search_steps (all_steps m E) (start_state me t)) (\<lambda>(S, r).
               Inr (store_of S, Some (pattern_of S),
                 case r of
                   Some Search_null \<Rightarrow> None
                 | Some Search_empty \<Rightarrow> Some (empty_results buf st)
                 | None \<Rightarrow> Some (full_results buf st S),
                 case r of
                   Some Search_null \<Rightarrow> detach st (attach st att)
                 | _ \<Rightarrow> attach st att)))"

section \<open>What is gathered\<close>

lemma bitset_bcopy: "m \<le> n \<Longrightarrow> bitset m (bcopy src dst n) = bitset m src"
  unfolding bcopy_def by (rule bitset_cong) (simp add: write_bytes_def)

text \<open>
  The set gathered with one more vector, on the operators 0 and 1. A vector for a key that is
  not there does not count, and an empty set is taken for a start.
\<close>

definition take_in :: "nat \<Rightarrow> nat set \<Rightarrow> nat set \<Rightarrow> nat set" where
  "take_in op X V = (if V = {} then X else if X = {} then V else if op = 1 then X \<inter> V else X \<union> V)"

definition gathered :: "gathering \<Rightarrow> nat set" where
  "gathered g = bitset (g_size g) (g_bits g)"

definition gathering_ok :: "gathering \<Rightarrow> bool" where
  "gathering_ok g \<longleftrightarrow> g_size g \<le> MAXRECORDS_BYTES_SIZE \<and> (0 < g_size g \<longleftrightarrow> gathered g \<noteq> {})"

lemma combine_spec:
  assumes op: "op < 2" and ok: "gathering_ok g" and n: "n \<le> MAXRECORDS_BYTES_SIZE"
  shows "gathered (combine op n m g) = (if op = 1 then gathered g \<inter> bitset n m else gathered g \<union> bitset n m)"
    and "gathering_ok (combine op n m g)"
proof -
  obtain sz tmp where r: "(if op = 1 then rdfstore_bits_and (g_size g) (g_bits g) n m (g_tmp g)
       else rdfstore_bits_or (g_size g) (g_bits g) n m (g_tmp g)) = (sz, tmp)" by fastforce
  have S: "bitset sz tmp = (if op = 1 then gathered g \<inter> bitset n m else gathered g \<union> bitset n m)"
      "sz \<le> max (g_size g) n"
    using r bits_and_spec [of "g_size g" "g_bits g" n m "g_tmp g" sz tmp]
      bits_or_spec [of "g_size g" "g_bits g" n m "g_tmp g" sz tmp]
    by (auto simp: gathered_def split: if_splits)
  have c: "combine op n m g = \<lparr>g_bits = bcopy tmp (g_bits g) (rdfstore_bits_shorten sz tmp),
      g_size = rdfstore_bits_shorten sz tmp, g_tmp = tmp\<rparr>"
    using op r by (cases "op = 1") (simp_all add: combine_def Let_def)
  have "gathered (combine op n m g) = bitset sz tmp"
    by (simp add: c gathered_def bitset_bcopy bits_shorten_bitset)
  then show "gathered (combine op n m g) = (if op = 1 then gathered g \<inter> bitset n m else gathered g \<union> bitset n m)"
    and "gathering_ok (combine op n m g)"
    using S ok n bits_shorten_le [of sz tmp] by (auto simp: gathering_ok_def c shorten_pos)
qed

context kernel
begin

lemma fetch_into_spec:
  assumes r: "rep E ok tbl me A" and t: "t \<notin> map_tables" and g: "gathering_ok g" and op: "op < 2"
  obtains me' q where "fetch_into E t op k me g = Inr (me', q)" and "rep E ok tbl me' A" and "flags_of me' = flags_of me"
    and "kv_idx A t k = {} \<Longrightarrow> q = Inl FLAT_STORE_E_NOTFOUND"
    and "kv_idx A t k \<noteq> {} \<Longrightarrow> \<exists>g'. q = Inr g' \<and> gathering_ok g' \<and> gathered g' = take_in op (gathered g) (kv_idx A t k)"
proof -
  let ?V = "kv_idx A t k"
  obtain s q where f: "be_fetch (table_ops E) (tables me t) k = (s, q)" by (metis prod.collapse)
  have ok: "ok (tables me t)" and ir: "index_rep E (tbl (tables me t)) (kv_idx A t)" using r t by (simp_all add: rep_def)
  note F = fetch [OF ok f]
  let ?me = "set_table t s me"
  have r1: "rep E ok tbl ?me A" by (rule rep_set_table_same [OF r]) (use F in auto)
  show thesis
  proof (cases "tbl (tables me t) k")
    case None
    then have "?V = {}" by (rule index_rep_None [OF ir])
    moreover have "fetch_into E t op k me g = Inr (?me, Inl FLAT_STORE_E_NOTFOUND)"
      using None F f by (simp add: fetch_into_def)
    ultimately show thesis using that [of ?me "Inl FLAT_STORE_E_NOTFOUND"] r1 by simp
  next
    case (Some d)
    then have V: "?V \<noteq> {}" and c: "coded E d ?V" using index_rep_Some [OF ir] by blast+
    obtain bs where bs: "\<And>buf. func_decode E buf d = Some (Inr bs)"
      "length bs \<le> MAXRECORDS_BYTES_SIZE" "list_bits bs = ?V"
      using c by (auto simp: coded_def)
    have q: "q = Inr d" using Some F by simp
    show thesis
    proof (cases "g_size g > 0")
      case True
      let ?me2 = "?me\<lparr>bits_decode := write_bytes (bits_decode ?me) 0 bs\<rparr>"
      let ?g = "combine op (length bs) (bits_decode ?me2) g"
      have "gathered g \<noteq> {}" using True g by (simp add: gathering_ok_def)
      moreover have "bitset (length bs) (bits_decode ?me2) = ?V" by (simp add: list_bits_write bs(3))
      ultimately have "gathering_ok ?g \<and> gathered ?g = take_in op (gathered g) ?V"
        using combine_spec [OF op g bs(2), of "bits_decode ?me2"] V by (simp add: take_in_def)
      moreover have "fetch_into E t op k me g = Inr (?me2, Inr ?g)"
        using True f q bs(1) by (simp add: fetch_into_def run_coder_def Let_def)
      ultimately show thesis using that [of ?me2 "Inr ?g"] V r1 by simp
    next
      case False
      let ?g = "g\<lparr>g_bits := write_bytes (g_bits g) 0 bs, g_size := length bs\<rparr>"
      have "gathered g = {}" using False g by (simp add: gathering_ok_def)
      moreover have "gathered ?g = ?V" by (simp add: gathered_def list_bits_write bs(3))
      moreover have "length bs > 0" using V bs(3) by (auto simp: list_bits_def)
      ultimately have "gathering_ok ?g \<and> gathered ?g = take_in op (gathered g) ?V"
        using bs(2) V by (auto simp: gathering_ok_def take_in_def)
      moreover have "fetch_into E t op k me g = Inr (?me, Inr ?g)"
        using False f q bs(1) by (simp add: fetch_into_def run_coder_def Let_def)
      ultimately show thesis using that [of ?me "Inr ?g"] V r1 by simp
    qed
  qed
qed

lemma gather_parts_spec:
  assumes "rep E ok tbl me A" and "t \<notin> map_tables" and "gathering_ok g" and "op < 2"
    and "\<forall>p\<in>set ps. snd (key p) \<noteq> None"
  shows "\<exists>me' g'. gather_parts E t op key ps me g = Inr (me', map (fst \<circ> key) ps, Some g')
    \<and> rep E ok tbl me' A \<and> flags_of me' = flags_of me \<and> gathering_ok g'
    \<and> gathered g' = foldl (take_in op) (gathered g) (map (\<lambda>p. kv_idx A t (the (snd (key p)))) ps)"
  using assms(1,3,5)
proof (induction ps arbitrary: me g)
  case Nil
  then show ?case by simp
next
  case (Cons p ps)
  obtain p' k where k: "key p = (p', Some k)" using Cons.prems(3) by (cases "key p") auto
  obtain me1 q where f: "fetch_into E t op k me g = Inr (me1, q)" "rep E ok tbl me1 A" "flags_of me1 = flags_of me"
      "kv_idx A t k = {} \<Longrightarrow> q = Inl FLAT_STORE_E_NOTFOUND"
      "kv_idx A t k \<noteq> {} \<Longrightarrow> \<exists>g'. q = Inr g' \<and> gathering_ok g' \<and> gathered g' = take_in op (gathered g) (kv_idx A t k)"
    by (rule fetch_into_spec [OF Cons.prems(1) assms(2) Cons.prems(2) assms(4), of k]) blast
  obtain g1 where g1: "gathering_ok g1" "gathered g1 = take_in op (gathered g) (kv_idx A t k)"
    and go: "gather_parts E t op key (p # ps) me g
      = bindE (gather_parts E t op key ps me1 g1) (\<lambda>(me, ps, r). Inr (me, p' # ps, r))"
  proof (cases "kv_idx A t k = {}")
    case True
    then show thesis using that [of g] Cons.prems(2) f k by (simp add: take_in_def)
  next
    case False
    then obtain g' where "q = Inr g'" "gathering_ok g'" "gathered g' = take_in op (gathered g) (kv_idx A t k)"
      using f(5) by blast
    then show thesis using that [of g'] f(1) k by simp
  qed
  have "\<forall>p\<in>set ps. snd (key p) \<noteq> None" using Cons.prems(3) by simp
  from Cons.IH [OF f(2) g1(1) this] obtain me2 g2 where
    "gather_parts E t op key ps me1 g1 = Inr (me2, map (fst \<circ> key) ps, Some g2)" "rep E ok tbl me2 A"
    "flags_of me2 = flags_of me1" "gathering_ok g2"
    "gathered g2 = foldl (take_in op) (gathered g1) (map (\<lambda>p. kv_idx A t (the (snd (key p)))) ps)"
    by blast
  then show ?case using go f(3) g1(2) k by (intro exI [of _ me2] exI [of _ g2]) simp
qed

end

section \<open>What is joined\<close>

text \<open>Nothing yet, with the buffer still cleared, or a set that is not empty\<close>

definition joined :: "'s search_state \<Rightarrow> nat set option \<Rightarrow> bool" where
  "joined S X \<longleftrightarrow> outsize1 S \<le> MAXRECORDS_BYTES_SIZE \<and> (case X of
     None \<Rightarrow> outsize1 S = 0 \<and> bits S = (\<lambda>_. 0)
   | Some Y \<Rightarrow> 0 < outsize1 S \<and> Y \<noteq> {} \<and> bitset (outsize1 S) (bits S) = Y)"

fun meet :: "nat set option \<Rightarrow> nat set option \<Rightarrow> nat set option" where
  "meet None Y = Y"
| "meet X None = X"
| "meet (Some X) (Some Y) = Some (X \<inter> Y)"

lemma meet_None [simp]: "meet X None = X"
  by (cases X) simp_all

lemma bitset_zero [simp]: "bitset n (\<lambda>_. 0) = {}"
  by (simp add: bitset_def membit_def)

lemma join_alone:
  assumes g: "gathering_ok g" and G: "gathered g \<noteq> {}" and z: "bits S = (\<lambda>_. 0)"
    and alone: "alone = join_first \<or> alone = join_first_contexts"
  shows "joined (alone g S) (Some (gathered g)) \<and> store_of (alone g S) = store_of S
    \<and> pattern_of (alone g S) = pattern_of S"
proof -
  have pos: "0 < g_size g" "g_size g \<le> MAXRECORDS_BYTES_SIZE" using g G by (simp_all add: gathering_ok_def)
  obtain sz tmp where r: "rdfstore_bits_or (g_size g) (bits S) (g_size g) (g_bits g) (g_tmp g) = (sz, tmp)" by fastforce
  note R = bits_or_spec [OF r, unfolded z, simplified, folded gathered_def]
  have "0 < sz" using R(1) G by (cases sz) auto
  then have "joined (join_first g S) (Some (gathered g))"
    using r R pos G by (simp add: joined_def join_first_def bitset_bcopy)
  moreover have "joined (join_first_contexts g S) (Some (gathered g))"
    using pos G by (simp add: joined_def join_first_contexts_def bitset_bcopy gathered_def)
  moreover have "store_of (alone g S) = store_of S" "pattern_of (alone g S) = pattern_of S"
    using alone r by (auto simp: join_first_def join_first_contexts_def)
  ultimately show ?thesis using alone by blast
qed

lemma join_spec:
  assumes g: "gathering_ok g" and X: "joined S X" and alone: "alone = join_first \<or> alone = join_first_contexts"
  obtains S' r where "join alone g S = (S', r)" and "store_of S' = store_of S" and "pattern_of S' = pattern_of S"
    and "meet X (Some (gathered g)) = Some {} \<Longrightarrow> r = Some Search_empty"
    and "meet X (Some (gathered g)) \<noteq> Some {} \<Longrightarrow> r = None \<and> joined S' (meet X (Some (gathered g)))"
proof (cases "gathered g = {}")
  case True
  then have "g_size g = 0" using g by (simp add: gathering_ok_def)
  moreover have "meet X (Some {}) = Some {}" by (cases X) simp_all
  ultimately show thesis
    using that [of "S\<lparr>bits1 := g_tmp g, bits2 := g_bits g\<rparr>" "Some Search_empty"] True by (simp add: join_def)
next
  case False
  then have pos: "g_size g \<noteq> 0" using g by (simp add: gathering_ok_def)
  show thesis
  proof (cases X)
    case None
    then have "outsize1 S = 0" "bits S = (\<lambda>_. 0)" using X by (simp_all add: joined_def)
    then show thesis
      using that [of "alone g S" None] join_alone [OF g False _ alone, of S] pos None False by (simp add: join_def)
  next
    case (Some Y)
    then have Y: "0 < outsize1 S" "bitset (outsize1 S) (bits S) = Y" "outsize1 S \<le> MAXRECORDS_BYTES_SIZE"
      using X by (simp_all add: joined_def)
    obtain sz tmp where r: "rdfstore_bits_and (outsize1 S) (bits S) (g_size g) (g_bits g) (g_tmp g) = (sz, tmp)"
      by fastforce
    note R = bits_and_spec [OF r, unfolded Y, folded gathered_def]
    let ?z = "rdfstore_bits_shorten sz tmp"
    let ?S = "S\<lparr>bits1 := tmp, bits2 := g_bits g, outsize1 := ?z\<rparr>"
    have z: "?z \<le> MAXRECORDS_BYTES_SIZE" using R(2) Y(3) bits_shorten_le [of sz tmp] by linarith
    have pz: "0 < ?z \<longleftrightarrow> Y \<inter> gathered g \<noteq> {}" using shorten_pos [of sz tmp] R(1) by simp
    have J: "join alone g S = (if ?z = 0 then (?S, Some Search_empty) else (?S\<lparr>bits := bcopy tmp (bits S) ?z\<rparr>, None))"
      using pos Y(1) r by (simp add: join_def Let_def)
    show thesis
    proof (cases "Y \<inter> gathered g = {}")
      case True
      then show thesis using that [of ?S "Some Search_empty"] J pz Some by simp
    next
      case False
      then have "joined (?S\<lparr>bits := bcopy tmp (bits S) ?z\<rparr>) (Some (Y \<inter> gathered g))"
        using z pz R(1) by (simp add: joined_def bitset_bcopy bits_shorten_bitset)
      then show thesis
        using that [of "?S\<lparr>bits := bcopy tmp (bits S) ?z\<rparr>" None] J pz False Some by simp
    qed
  qed
qed

section \<open>The steps of the search\<close>

text \<open>What the caching of hash codes in a pattern keeps of it: the keys and the operators\<close>

definition pattern_view :: "'s kernel_env \<Rightarrow> RDF_Triple_Pattern \<Rightarrow> (flat_key option list \<times> nat) list" where
  "pattern_view E tp =
     [(map (snd \<circ> hashed_key E) (subjects tp), subjects_operator tp),
      (map (snd \<circ> hashed_key E) (predicates tp), predicates_operator tp),
      (map (snd \<circ> hashed_key E) (objects tp), objects_operator tp),
      (map (snd \<circ> folded_key E) (langs tp), langs_operator tp),
      (map (snd \<circ> string_key) (dts tp), dts_operator tp),
      (map (snd \<circ> hashed_key E) (contexts tp), contexts_operator tp),
      (map (snd \<circ> folded_key E) (words tp), words_operator tp),
      (map (snd \<circ> string_key) (ranges tp), ranges_operator tp)]"

lemma hashed_key_again: "snd (hashed_key E (fst (hashed_key E p))) = snd (hashed_key E p)"
  by (cases p) (auto simp: hashed_key_def rdfstore_digest_get_node_hashCode_def Let_def)

lemma keys_again:
  "map (snd \<circ> hashed_key E) (map (fst \<circ> hashed_key E) ps) = map (snd \<circ> hashed_key E) ps"
  "map (fst \<circ> folded_key E) ps = ps" "map (fst \<circ> string_key) ps = ps"
  by (simp_all add: hashed_key_again comp_def folded_key_def string_key_def)

text \<open>\<open>J\<close> is a property of the tables that a fetch keeps.\<close>

definition fetch_keeps :: "'s kernel_env \<Rightarrow> (table \<Rightarrow> 's \<Rightarrow> bool) \<Rightarrow> bool" where
  "fetch_keeps E J \<longleftrightarrow> (\<forall>t s k. J t s \<longrightarrow> J t (fst (be_fetch (table_ops E) s k)))"

lemma fetch_into_tables:
  "fetch_into E t op k me g = Inr (me', q) \<Longrightarrow>
    tables me' = (tables me)(t := fst (be_fetch (table_ops E) (tables me t) k))"
  by (auto simp: fetch_into_def set_table_def Let_def split: prod.splits sum.splits if_splits)

lemma gather_parts_keeps:
  assumes "fetch_keeps E J"
  shows "gather_parts E t op key ps me g = Inr (me', ps', r) \<Longrightarrow> \<forall>t. J t (tables me t) \<Longrightarrow> \<forall>t. J t (tables me' t)"
proof (induction ps arbitrary: me g ps' r)
  case (Cons p ps)
  have one: "\<forall>u. J u (tables me1 u)" if "fetch_into E t op k me g = Inr (me1, q)" for k me1 q
    using fetch_into_tables [OF that] Cons.prems(2) assms unfolding fetch_keeps_def by simp
  show ?case
  proof (cases "snd (key p)")
    case None
    then show ?thesis using Cons.prems by (cases "key p") auto
  next
    case (Some k)
    obtain me1 q where f: "fetch_into E t op k me g = Inr (me1, q)"
      using Cons.prems(1) Some by (cases "key p") (auto simp: bindE_Inr_iff)
    have k: "key p = (fst (key p), Some k)" using Some by (cases "key p") simp
    have "me' = me1 \<or> (\<exists>g1 ps1 r1. gather_parts E t op key ps me1 g1 = Inr (me', ps1, r1))"
      using Cons.prems(1) f by (subst (asm) gather_parts.simps, subst (asm) k)
        (auto simp: bindE_Inr_iff Let_def split: sum.splits if_splits)
    then show ?thesis using one [OF f] Cons.IH by blast
  qed
qed simp

definition searching ::
  "'s kernel_env \<Rightarrow> ('s \<Rightarrow> bool) \<Rightarrow> ('s \<Rightarrow> flat_key \<Rightarrow> flat_data option) \<Rightarrow> (table \<Rightarrow> 's \<Rightarrow> bool) \<Rightarrow> kview
    \<Rightarrow> bool \<times> bool \<times> bool \<times> resource option \<Rightarrow> RDF_Triple_Pattern \<Rightarrow> 's search_state \<Rightarrow> bool"
where
  "searching E ok tbl J A fl tp S \<longleftrightarrow> rep E ok tbl (store_of S) A \<and> flags_of (store_of S) = fl
     \<and> pattern_view E (pattern_of S) = pattern_view E tp \<and> (\<forall>t. J t (tables (store_of S) t))"

text \<open>A step that asks for the identifiers \<open>C\<close>, or for nothing\<close>

definition restricts ::
  "('s search_state \<Rightarrow> bool) \<Rightarrow> 's search_step \<Rightarrow> nat set option \<Rightarrow> bool"
where
  "restricts P f C \<longleftrightarrow> (\<forall>S X. P S \<longrightarrow> joined S X \<longrightarrow>
     (\<exists>S' r. f S = Inr (S', r) \<and> P S'
        \<and> (if meet X C = Some {} then r = Some Search_empty else r = None \<and> joined S' (meet X C))))"

fun meets :: "nat set option \<Rightarrow> nat set option list \<Rightarrow> nat set option" where
  "meets X [] = X"
| "meets X (C # Cs) = meets (meet X C) Cs"

lemma meets_empty: "meets (Some {}) Cs = Some {}"
proof (induction Cs)
  case (Cons C Cs)
  then show ?case by (cases C) simp_all
qed simp

lemma search_steps_spec:
  assumes "list_all2 (restricts P) fs Cs" and "P S" and "joined S X"
  shows "\<exists>S' r. search_steps fs S = Inr (S', r) \<and> P S'
    \<and> (if meets X Cs = Some {} then r = Some Search_empty else r = None \<and> joined S' (meets X Cs))"
  using assms
proof (induction fs Cs arbitrary: S X rule: list_all2_induct)
  case Nil
  then show ?case by (auto simp: joined_def)
next
  case (Cons f fs C Cs)
  obtain S1 r1 where f: "f S = Inr (S1, r1)" "P S1"
    "if meet X C = Some {} then r1 = Some Search_empty else r1 = None \<and> joined S1 (meet X C)"
    using Cons.hyps(1) Cons.prems(1,2) unfolding restricts_def by blast
  show ?case
  proof (cases "meet X C = Some {}")
    case True
    then show ?thesis using f by (intro exI [of _ S1] exI [of _ "Some Search_empty"]) (simp add: meets_empty)
  next
    case False
    with f have r1: "r1 = None" "joined S1 (meet X C)" by simp_all
    then have "search_steps (f # fs) S = search_steps fs S1" using f(1) by simp
    then show ?thesis using Cons.IH [OF f(2) r1(2)] by (simp only: meets.simps)
  qed
qed

text \<open>The identifiers a component asks for, by the vectors of its keys\<close>

definition component_ids :: "kview \<Rightarrow> table \<Rightarrow> flat_key option list \<times> nat \<Rightarrow> nat set option" where
  "component_ids A t c = (if fst c = [] then None
     else Some (foldl (take_in (snd c)) {} (map (\<lambda>k. kv_idx A t (the k)) (fst c))))"

lemma map_comp_keys: "map (\<lambda>p. kv_idx A t (the (snd (key p)))) ps = map (\<lambda>k. kv_idx A t (the k)) (map (snd \<circ> key) ps)"
  by simp

context kernel
begin

lemma component_restricts:
  assumes t: "t \<notin> map_tables" and J: "fetch_keeps E J"
    and view: "\<And>S. searching E ok tbl J A fl tp S \<Longrightarrow> (map (snd \<circ> key) (get (pattern_of S)), op (pattern_of S)) = c"
    and keep: "\<And>tp. pattern_view E (update (\<lambda>_. map (fst \<circ> key) (get tp)) tp) = pattern_view E tp"
    and op: "snd c < 2" and keys: "None \<notin> set (fst c)"
    and alone: "alone = join_first \<or> alone = join_first_contexts"
  shows "restricts (searching E ok tbl J A fl tp) (search_component E t key get update op alone) (component_ids A t c)"
  unfolding restricts_def
proof (intro allI impI)
  fix S X assume S: "searching E ok tbl J A fl tp S" and X: "joined S X"
  let ?ps = "get (pattern_of S)"
  have r: "rep E ok tbl (store_of S) A" using S by (simp add: searching_def)
  have c: "map (snd \<circ> key) ?ps = fst c" "op (pattern_of S) = snd c" using view [OF S] by auto
  show "\<exists>S' r. search_component E t key get update op alone S = Inr (S', r) \<and> searching E ok tbl J A fl tp S'
      \<and> (if meet X (component_ids A t c) = Some {} then r = Some Search_empty
         else r = None \<and> joined S' (meet X (component_ids A t c)))"
  proof (cases "?ps = []")
    case True
    then have "component_ids A t c = None" using c(1) by (simp add: component_ids_def)
    moreover have "X \<noteq> Some {}" using X by (auto simp: joined_def)
    ultimately show ?thesis using True S X by (simp add: search_component_def)
  next
    case False
    let ?g = "\<lparr>g_bits = bits2 S, g_size = 0, g_tmp = bits1 S\<rparr>"
    have ok: "gathering_ok ?g" "gathered ?g = {}" by (simp_all add: gathering_ok_def gathered_def)
    have "\<forall>p\<in>set ?ps. snd (key p) \<noteq> None" using keys unfolding c(1) [symmetric] by force
    from gather_parts_spec [OF r t ok(1) op this] obtain me' g' where
      go: "gather_parts E t (snd c) key ?ps (store_of S) ?g = Inr (me', map (fst \<circ> key) ?ps, Some g')"
      and me': "rep E ok tbl me' A" "flags_of me' = flags_of (store_of S)" and g': "gathering_ok g'"
      and G: "gathered g' = foldl (take_in (snd c)) {} (map (\<lambda>k. kv_idx A t (the k)) (fst c))"
      unfolding ok(2) map_comp_keys c(1) by blast
    have kept: "\<forall>t. J t (tables me' t)"
      using gather_parts_keeps [OF J go] S by (simp add: searching_def)
    let ?S = "S\<lparr>store_of := me', pattern_of := update (\<lambda>_. map (fst \<circ> key) ?ps) (pattern_of S)\<rparr>"
    have X': "joined ?S X" using X by (cases X) (simp_all add: joined_def)
    obtain S' r' where N: "join alone g' ?S = (S', r')" "store_of S' = store_of ?S" "pattern_of S' = pattern_of ?S"
      "meet X (Some (gathered g')) = Some {} \<Longrightarrow> r' = Some Search_empty"
      "meet X (Some (gathered g')) \<noteq> Some {} \<Longrightarrow> r' = None \<and> joined S' (meet X (Some (gathered g')))"
      by (rule join_spec [OF g' X' alone]) blast
    have C: "component_ids A t c = Some (gathered g')" using False c(1) G by (auto simp: component_ids_def)
    have "search_component E t key get update op alone S = Inr (S', r')"
      using False go N(1) c(2) by (simp add: search_component_def Let_def)
    moreover have "searching E ok tbl J A fl tp S'" using S me' N(2,3) kept by (simp add: searching_def keep)
    ultimately show ?thesis unfolding C using N(4,5) by auto
  qed
qed

end

lemma searching_view:
  assumes "searching E ok tbl J A fl tp S"
  shows "map (snd \<circ> hashed_key E) (subjects (pattern_of S)) = map (snd \<circ> hashed_key E) (subjects tp)"
    and "map (snd \<circ> hashed_key E) (predicates (pattern_of S)) = map (snd \<circ> hashed_key E) (predicates tp)"
    and "map (snd \<circ> hashed_key E) (objects (pattern_of S)) = map (snd \<circ> hashed_key E) (objects tp)"
    and "map (snd \<circ> folded_key E) (langs (pattern_of S)) = map (snd \<circ> folded_key E) (langs tp)"
    and "map (snd \<circ> string_key) (dts (pattern_of S)) = map (snd \<circ> string_key) (dts tp)"
    and "map (snd \<circ> hashed_key E) (contexts (pattern_of S)) = map (snd \<circ> hashed_key E) (contexts tp)"
    and "map (snd \<circ> folded_key E) (words (pattern_of S)) = map (snd \<circ> folded_key E) (words tp)"
    and "map (snd \<circ> string_key) (ranges (pattern_of S)) = map (snd \<circ> string_key) (ranges tp)"
    and "subjects_operator (pattern_of S) = subjects_operator tp"
    and "predicates_operator (pattern_of S) = predicates_operator tp"
    and "objects_operator (pattern_of S) = objects_operator tp"
    and "langs_operator (pattern_of S) = langs_operator tp"
    and "dts_operator (pattern_of S) = dts_operator tp"
    and "contexts_operator (pattern_of S) = contexts_operator tp"
    and "words_operator (pattern_of S) = words_operator tp"
    and "ranges_operator (pattern_of S) = ranges_operator tp"
  using assms unfolding searching_def pattern_view_def by simp_all

text \<open>The operators are 0 or 1, and the strings that are folded can be.\<close>

definition simple_pattern :: "'s kernel_env \<Rightarrow> RDF_Triple_Pattern \<Rightarrow> bool" where
  "simple_pattern E tp \<longleftrightarrow> pattern_ok tp
     \<and> subjects_operator tp < 2 \<and> predicates_operator tp < 2 \<and> objects_operator tp < 2
     \<and> contexts_operator tp < 2 \<and> langs_operator tp < 2 \<and> dts_operator tp < 2 \<and> words_operator tp < 2
     \<and> (\<forall>p\<in>set (langs tp @ words tp). foldedcase E (part_string p) \<noteq> None)"

lemma hashed_key_total: "\<not> string_part p \<Longrightarrow> snd (hashed_key E p) \<noteq> None"
  by (cases p) (auto simp: hashed_key_def Let_def)

lemma resource_not_string: "resource_part p \<Longrightarrow> \<not> string_part p"
  by (cases p) simp_all

lemma simple_keys:
  assumes "simple_pattern E tp"
  shows "None \<notin> set (map (snd \<circ> hashed_key E) (subjects tp))"
    and "None \<notin> set (map (snd \<circ> hashed_key E) (predicates tp))"
    and "None \<notin> set (map (snd \<circ> hashed_key E) (objects tp))"
    and "None \<notin> set (map (snd \<circ> hashed_key E) (contexts tp))"
    and "None \<notin> set (map (snd \<circ> folded_key E) (langs tp))"
    and "None \<notin> set (map (snd \<circ> folded_key E) (words tp))"
    and "None \<notin> set (map (snd \<circ> string_key) ps)"
proof -
  have ok: "pattern_ok tp" using assms by (simp add: simple_pattern_def)
  have ns: "None \<notin> set (map (snd \<circ> hashed_key E) ps)" if "\<forall>p\<in>set ps. \<not> string_part p" for ps
  proof
    assume "None \<in> set (map (snd \<circ> hashed_key E) ps)"
    then obtain p where "p \<in> set ps" "snd (hashed_key E p) = None" by auto
    then show False using that hashed_key_total [of p E] by blast
  qed
  show "None \<notin> set (map (snd \<circ> hashed_key E) (subjects tp))" "None \<notin> set (map (snd \<circ> hashed_key E) (predicates tp))"
    "None \<notin> set (map (snd \<circ> hashed_key E) (objects tp))" "None \<notin> set (map (snd \<circ> hashed_key E) (contexts tp))"
    by (rule ns, use ok in \<open>unfold pattern_ok_def, metis resource_not_string empty_iff list.set(1)\<close>)+
  have "None \<notin> set (map (snd \<circ> folded_key E) ps)" if "\<forall>p\<in>set ps. foldedcase E (part_string p) \<noteq> None" for ps
    using that by (auto simp: folded_key_def)
  then show "None \<notin> set (map (snd \<circ> folded_key E) (langs tp))" "None \<notin> set (map (snd \<circ> folded_key E) (words tp))"
    using assms by (simp_all add: simple_pattern_def)
  show "None \<notin> set (map (snd \<circ> string_key) ps)" by (auto simp: string_key_def)
qed

text \<open>What the components but the words and the ranges ask for\<close>

definition ids_subjects :: "'s kernel_env \<Rightarrow> kview \<Rightarrow> RDF_Triple_Pattern \<Rightarrow> nat set option" where
  "ids_subjects E A tp = component_ids A T_subjects (map (snd \<circ> hashed_key E) (subjects tp), subjects_operator tp)"

definition ids_predicates :: "'s kernel_env \<Rightarrow> kview \<Rightarrow> RDF_Triple_Pattern \<Rightarrow> nat set option" where
  "ids_predicates E A tp = component_ids A T_predicates (map (snd \<circ> hashed_key E) (predicates tp), predicates_operator tp)"

definition ids_objects :: "'s kernel_env \<Rightarrow> kview \<Rightarrow> RDF_Triple_Pattern \<Rightarrow> nat set option" where
  "ids_objects E A tp = component_ids A T_objects (map (snd \<circ> hashed_key E) (objects tp), objects_operator tp)"

definition ids_langs :: "'s kernel_env \<Rightarrow> kview \<Rightarrow> RDF_Triple_Pattern \<Rightarrow> nat set option" where
  "ids_langs E A tp = component_ids A T_languages (map (snd \<circ> folded_key E) (langs tp), langs_operator tp)"

definition ids_dts :: "'s kernel_env \<Rightarrow> kview \<Rightarrow> RDF_Triple_Pattern \<Rightarrow> nat set option" where
  "ids_dts E A tp = component_ids A T_datatypes (map (snd \<circ> string_key) (dts tp), dts_operator tp)"

definition ids_contexts :: "'s kernel_env \<Rightarrow> kview \<Rightarrow> RDF_Triple_Pattern \<Rightarrow> nat set option" where
  "ids_contexts E A tp = component_ids A T_contexts (map (snd \<circ> hashed_key E) (contexts tp), contexts_operator tp)"

definition ids_words :: "'s kernel_env \<Rightarrow> kview \<Rightarrow> bool \<Rightarrow> RDF_Triple_Pattern \<Rightarrow> nat set option" where
  "ids_words E A ft tp =
     (if ft then component_ids A T_windex (map (snd \<circ> folded_key E) (words tp), words_operator tp) else None)"

text \<open>All the components; the ranges ask for \<open>R\<close>\<close>

definition pattern_ids :: "'s kernel_env \<Rightarrow> kview \<Rightarrow> bool \<Rightarrow> nat set option \<Rightarrow> RDF_Triple_Pattern \<Rightarrow> nat set option" where
  "pattern_ids E A ft R tp = meets (ids_words E A ft tp)
     [ids_subjects E A tp, ids_predicates E A tp, ids_objects E A tp, ids_langs E A tp, ids_dts E A tp, R, ids_contexts E A tp]"

lemma gathering_start: "gathering_ok \<lparr>g_bits = b, g_size = 0, g_tmp = c\<rparr>" "gathered \<lparr>g_bits = b, g_size = 0, g_tmp = c\<rparr> = {}"
  by (simp_all add: gathering_ok_def gathered_def)

context kernel
begin

lemma steps_restrict:
  assumes "simple_pattern E tp" and "fetch_keeps E J"
  shows "restricts (searching E ok tbl J A fl tp) (search_subjects E) (ids_subjects E A tp)"
    and "restricts (searching E ok tbl J A fl tp) (search_predicates E) (ids_predicates E A tp)"
    and "restricts (searching E ok tbl J A fl tp) (search_objects E) (ids_objects E A tp)"
    and "restricts (searching E ok tbl J A fl tp) (search_langs E) (ids_langs E A tp)"
    and "restricts (searching E ok tbl J A fl tp) (search_dts E) (ids_dts E A tp)"
    and "restricts (searching E ok tbl J A fl tp) (search_contexts E) (ids_contexts E A tp)"
proof -
  note K = simple_keys [OF assms(1)]
  have O: "subjects_operator tp < 2" "predicates_operator tp < 2" "objects_operator tp < 2"
     "contexts_operator tp < 2" "langs_operator tp < 2" "dts_operator tp < 2"
    using assms(1) by (simp_all add: simple_pattern_def)
  note R = component_restricts [OF _ assms(2)]
  show "restricts (searching E ok tbl J A fl tp) (search_subjects E) (ids_subjects E A tp)"
    unfolding search_subjects_def ids_subjects_def
    by (rule R) (use K O in \<open>simp_all add: searching_view map_tables_def pattern_view_def hashed_key_again\<close>)
  show "restricts (searching E ok tbl J A fl tp) (search_predicates E) (ids_predicates E A tp)"
    unfolding search_predicates_def ids_predicates_def
    by (rule R) (use K O in \<open>simp_all add: searching_view map_tables_def pattern_view_def hashed_key_again\<close>)
  show "restricts (searching E ok tbl J A fl tp) (search_objects E) (ids_objects E A tp)"
    unfolding search_objects_def ids_objects_def
    by (rule R) (use K O in \<open>simp_all add: searching_view map_tables_def pattern_view_def hashed_key_again\<close>)
  show "restricts (searching E ok tbl J A fl tp) (search_langs E) (ids_langs E A tp)"
    unfolding search_langs_def ids_langs_def
    by (rule R) (use K O in \<open>simp_all add: searching_view map_tables_def pattern_view_def keys_again\<close>)
  show "restricts (searching E ok tbl J A fl tp) (search_dts E) (ids_dts E A tp)"
    unfolding search_dts_def ids_dts_def
    by (rule R) (use K O in \<open>simp_all add: searching_view map_tables_def pattern_view_def keys_again\<close>)
  show "restricts (searching E ok tbl J A fl tp) (search_contexts E) (ids_contexts E A tp)"
    unfolding search_contexts_def ids_contexts_def
    by (rule R) (use K O in \<open>simp_all add: searching_view map_tables_def pattern_view_def hashed_key_again\<close>)
qed

lemma words_spec:
  assumes s: "simple_pattern E tp" and P: "searching E ok tbl J A fl tp S" and X: "joined S None" and ft: "ft = fst fl"
    and J: "fetch_keeps E J"
  shows "\<exists>S' r. search_words E S = Inr (S', r) \<and> searching E ok tbl J A fl tp S'
    \<and> (if ids_words E A ft tp = Some {} then r = Some Search_empty else r = None \<and> joined S' (ids_words E A ft tp))"
proof -
  note V = searching_view [OF P]
  have f: "freetext (store_of S) = ft" using P ft by (auto simp: searching_def flags_of_def)
  have r: "rep E ok tbl (store_of S) A" using P by (simp add: searching_def)
  have none: "words (pattern_of S) = [] \<longleftrightarrow> words tp = []" using V(7) by (metis Nil_is_map_conv)
  show ?thesis
  proof (cases "ft \<and> words tp \<noteq> []")
    case False
    then have "ids_words E A ft tp = None" "search_words E S = Inr (S, None)"
      using f none by (auto simp: ids_words_def component_ids_def search_words_def)
    then show ?thesis using P X by simp
  next
    case True
    let ?ps = "words (pattern_of S)" and ?g = "\<lparr>g_bits = bits S, g_size = outsize1 S, g_tmp = bits1 S\<rparr>"
    have z: "outsize1 S = 0" using X by (simp add: joined_def)
    note ok = gathering_start [of "bits S" "bits1 S", folded z]
    have keys: "\<forall>p\<in>set ?ps. snd (folded_key E p) \<noteq> None"
      using simple_keys(6) [OF s] unfolding V(7) [symmetric] by force
    have w: "T_windex \<notin> map_tables" "words_operator tp < 2" using s by (simp_all add: map_tables_def simple_pattern_def)
    from gather_parts_spec [OF r w(1) ok(1) w(2) keys] obtain me' g' where
      go: "gather_parts E T_windex (words_operator tp) (folded_key E) ?ps (store_of S) ?g = Inr (me', ?ps, Some g')"
      and me': "rep E ok tbl me' A" "flags_of me' = flags_of (store_of S)" and g': "gathering_ok g'"
      and G: "gathered g' = foldl (take_in (words_operator tp)) {} (map (\<lambda>k. kv_idx A T_windex (the k)) (map (snd \<circ> folded_key E) (words tp)))"
      unfolding ok(2) map_comp_keys V(7) keys_again by blast
    have kept: "\<forall>t. J t (tables me' t)"
      using gather_parts_keeps [OF J go] P by (simp add: searching_def)
    let ?S = "S\<lparr>store_of := me', bits := g_bits g', bits1 := g_tmp g', outsize1 := g_size g'\<rparr>"
    have C: "ids_words E A ft tp = Some (gathered g')" using True G by (simp add: ids_words_def component_ids_def)
    have "search_words E S = Inr (?S, if g_size g' = 0 then Some Search_empty else None)"
      using True f none go V(15) by (simp add: search_words_def Let_def)
    moreover have "searching E ok tbl J A fl tp ?S" using P me' kept by (simp add: searching_def)
    moreover have "joined ?S (Some (gathered g'))" if "gathered g' \<noteq> {}"
      using that g' by (simp add: joined_def gathering_ok_def gathered_def)
    moreover have "g_size g' = 0 \<longleftrightarrow> gathered g' = {}" using g' by (auto simp: gathering_ok_def)
    ultimately show ?thesis unfolding C by auto
  qed
qed

end

end
