(* ===== verification/Results.thy ===== *)
theory Results
  imports Search
begin

text \<open>
  What \<open>rdfstore_search\<close> (\<open>Search\<close>) returns on a store that holds statements: with or-patterns
  exactly the statements that match, and what becomes of the operator and.
\<close>

definition set_of :: "nat set option \<Rightarrow> nat set" where
  "set_of X = (case X of None \<Rightarrow> {} | Some Y \<Rightarrow> Y)"

lemma empty_results_fresh: "fresh_over st {} (empty_results buf st)"
  by (simp add: fresh_over_def empty_results_def ids_of_def it_wf_def)

lemma full_results_fresh: "joined S X \<Longrightarrow> fresh_over st (set_of X) (full_results buf st S)"
  by (cases X) (simp_all add: joined_def fresh_over_def full_results_def empty_results_def ids_of_def it_wf_def
      count_loop_card bitset_bcopy set_of_def)

lemma no_ranges_restrict:
  assumes "ranges tp = []"
  shows "restricts (searching E ok tbl J A fl tp) (search_ranges m E) None"
  unfolding restricts_def
proof (intro allI impI)
  fix S X assume P: "searching E ok tbl J A fl tp S" and X: "joined S X"
  have "ranges (pattern_of S) = []" using searching_view(8) [OF P] assms by simp
  then show "\<exists>S' r. search_ranges m E S = Inr (S', r) \<and> searching E ok tbl J A fl tp S'
      \<and> (if meet X None = Some {} then r = Some Search_empty else r = None \<and> joined S' (meet X None))"
    using P X by (auto simp: search_ranges_def joined_def)
qed

context kernel
begin

lemma search_spec:
  assumes r: "rep E ok tbl me A" and s: "simple_pattern E tp" and ne: "\<not> pattern_empty tp"
    and fr: "\<not> (freetext me \<and> words tp \<noteq> [] \<and> objects tp \<noteq> [])"
    and J: "fetch_keeps E J" "\<forall>t. J t (tables me t)"
    and R: "restricts (searching E ok tbl J A (flags_of me) tp) (search_ranges m E) R"
  obtains me' tp' it where "rdfstore_search m E buf st att me (Some tp) = Inr (me', Some tp', Some it, attach st att)"
    and "rep E ok tbl me' A" and "flags_of me' = flags_of me" and "pattern_view E tp' = pattern_view E tp"
    and "fresh_over st (set_of (pattern_ids E A (freetext me) R tp)) it"
proof -
  let ?P = "searching E ok tbl J A (flags_of me) tp" and ?S = "start_state me tp"
  let ?Cs = "[ids_subjects E A tp, ids_predicates E A tp, ids_objects E A tp, ids_langs E A tp, ids_dts E A tp, R, ids_contexts E A tp]"
  let ?W = "ids_words E A (freetext me) tp"
  have P: "?P ?S" using r J(2) by (simp add: searching_def start_state_def)
  have start: "joined ?S None" by (simp add: joined_def start_state_def)
  have ft: "freetext me = fst (flags_of me)" by (simp add: flags_of_def)
  obtain S1 r1 where w: "search_words E ?S = Inr (S1, r1)" "?P S1"
    "if ?W = Some {} then r1 = Some Search_empty else r1 = None \<and> joined S1 ?W"
    using words_spec [OF s P start ft J(1)] by blast
  note st = steps_restrict [OF s J(1), of A "flags_of me"]
  have "list_all2 (restricts ?P) (tl (all_steps m E)) ?Cs"
    using st R by (simp add: all_steps_def)
  note rest = search_steps_spec [OF this w(2)]
  have all: "all_steps m E = search_words E # tl (all_steps m E)" by (simp add: all_steps_def)
  have "\<exists>S' q. search_steps (all_steps m E) ?S = Inr (S', q) \<and> ?P S'
      \<and> (if meets ?W ?Cs = Some {} then q = Some Search_empty else q = None \<and> joined S' (meets ?W ?Cs))"
  proof (cases "?W = Some {}")
    case True
    then have "search_steps (all_steps m E) ?S = Inr (S1, Some Search_empty)" using w(1,3) by (subst all) simp
    moreover have "meets ?W ?Cs = Some {}" unfolding True by (rule meets_empty)
    ultimately show ?thesis using w(2) by simp
  next
    case False
    then have w': "r1 = None" "joined S1 ?W" using w(3) by simp_all
    then have "search_steps (all_steps m E) ?S = search_steps (tl (all_steps m E)) S1" using w(1) by (subst all) simp
    with rest [OF w'(2)] show ?thesis by (simp only:)
  qed
  then obtain S' q where go: "search_steps (all_steps m E) ?S = Inr (S', q)" "?P S'"
      "if meets ?W ?Cs = Some {} then q = Some Search_empty else q = None \<and> joined S' (meets ?W ?Cs)" by blast
  let ?it = "if q = None then full_results buf st S' else empty_results buf st"
  have "pattern_ok tp" using s by (simp add: simple_pattern_def)
  moreover have q: "q = None \<or> q = Some Search_empty" using go(3) by (auto split: if_splits)
  ultimately have "rdfstore_search m E buf st att me (Some tp)
      = Inr (store_of S', Some (pattern_of S'), Some ?it, attach st att)"
    using ne fr go(1) by (auto simp: rdfstore_search_def Let_def)
  moreover have "fresh_over st (set_of (pattern_ids E A (freetext me) R tp)) ?it"
    using go(3) empty_results_fresh [of st buf] full_results_fresh [of S' "meets ?W ?Cs" st buf]
    unfolding pattern_ids_def by (auto simp: set_of_def split: if_splits)
  ultimately show thesis
    using that [of "store_of S'" "pattern_of S'" ?it] go(2) by (simp add: searching_def)
qed

end

lemma fetch_keeps_True: "fetch_keeps E (\<lambda>_ _. True)"
  by (simp add: fetch_keeps_def)

section \<open>Statements that match\<close>

definition same_node :: "'s kernel_env \<Rightarrow> pattern_part \<Rightarrow> RDF_Node \<Rightarrow> bool" where
  "same_node E p n = (case p of
     Resource_part (cached, n') \<Rightarrow> node_hash E n' = node_hash E n
   | Literal_part (cached, n') \<Rightarrow> node_hash E n' = node_hash E n
   | String_part s \<Rightarrow> False)"

text \<open>The hash code in a node of the pattern is not set, or is that of the node.\<close>

definition part_fresh :: "'s kernel_env \<Rightarrow> pattern_part \<Rightarrow> bool" where
  "part_fresh E p = (case p of
     Resource_part (cached, n) \<Rightarrow> cached \<in> {0, node_hash E n}
   | Literal_part (cached, n) \<Rightarrow> cached \<in> {0, node_hash E n}
   | String_part s \<Rightarrow> True)"

definition same_lang :: "'s kernel_env \<Rightarrow> pattern_part \<Rightarrow> RDF_Node \<Rightarrow> bool" where
  "same_lang E p ob \<longleftrightarrow>
     (\<exists>l. ob = Literal l \<and> lang l \<noteq> [] \<and> foldedcase E (lang l) = foldedcase E (part_string p))"

definition same_type :: "pattern_part \<Rightarrow> RDF_Node \<Rightarrow> bool" where
  "same_type p ob \<longleftrightarrow> (\<exists>l. ob = Literal l \<and> opt_bytes (dataType l) \<noteq> [] \<and> opt_bytes (dataType l) = part_string p)"

text \<open>A component that is given has a part the statement agrees with.\<close>

definition some_part :: "pattern_part list \<Rightarrow> (pattern_part \<Rightarrow> bool) \<Rightarrow> bool" where
  "some_part ps P \<longleftrightarrow> ps = [] \<or> (\<exists>p\<in>set ps. P p)"

definition statement_matches :: "'s kernel_env \<Rightarrow> RDF_Triple_Pattern \<Rightarrow> RDF_Statement \<Rightarrow> resource option \<Rightarrow> bool" where
  "statement_matches E tp st ctx \<longleftrightarrow>
     some_part (subjects tp) (\<lambda>p. same_node E p (Resource (subject st)))
   \<and> some_part (predicates tp) (\<lambda>p. same_node E p (Resource (predicate st)))
   \<and> some_part (objects tp) (\<lambda>p. same_node E p (object st))
   \<and> some_part (langs tp) (\<lambda>p. same_lang E p (object st))
   \<and> some_part (dts tp) (\<lambda>p. same_type p (object st))
   \<and> some_part (contexts tp) (\<lambda>p. \<exists>c. ctx = Some c \<and> same_node E p (Resource c))"

lemma take_in_or: "foldl (take_in 0) X Vs = X \<union> \<Union> (set Vs)"
  by (induction Vs arbitrary: X) (auto simp: take_in_def)

lemma hashed_key_fresh:
  "part_fresh E p \<Longrightarrow> \<not> string_part p \<Longrightarrow> \<exists>n. snd (hashed_key E p) = Some (packInt (node_hash E n))
     \<and> (\<forall>n'. same_node E p n' \<longleftrightarrow> node_hash E n = node_hash E n')"
  by (cases p) (auto simp: part_fresh_def hashed_key_def same_node_def node_hash_def Let_def
      rdfstore_digest_get_node_hashCode_def)

lemma object_key_tables:
  assumes "indexable E ob" and "it \<in> set (object_items E False ob)"
  shows "fst (item_key it) \<notin> {T_subjects, T_predicates, T_objects, T_contexts}"
  using object_parts [OF assms(1)] assms(2) unfolding parts_in_def by fastforce

lemma index_keys_node:
  assumes "indexable E (object st)"
  shows "(T_subjects, k) \<in> set (index_keys E st ctx) \<longleftrightarrow> k = packInt (node_hash E (Resource (subject st)))"
    and "(T_predicates, k) \<in> set (index_keys E st ctx) \<longleftrightarrow> k = packInt (node_hash E (Resource (predicate st)))"
    and "(T_objects, k) \<in> set (index_keys E st ctx) \<longleftrightarrow> k = packInt (node_hash E (object st))"
    and "(T_contexts, k) \<in> set (index_keys E st ctx) \<longleftrightarrow> (\<exists>c. ctx = Some c \<and> k = packInt (node_hash E (Resource c)))"
proof -
  have "(t, k) \<notin> item_key ` set (object_items E False (object st))"
    if "t \<in> {T_subjects, T_predicates, T_objects, T_contexts}" for t
    using object_key_tables [OF assms] that by (metis fst_conv imageE)
  then show "(T_subjects, k) \<in> set (index_keys E st ctx) \<longleftrightarrow> k = packInt (node_hash E (Resource (subject st)))"
    and "(T_predicates, k) \<in> set (index_keys E st ctx) \<longleftrightarrow> k = packInt (node_hash E (Resource (predicate st)))"
    and "(T_objects, k) \<in> set (index_keys E st ctx) \<longleftrightarrow> k = packInt (node_hash E (object st))"
    and "(T_contexts, k) \<in> set (index_keys E st ctx) \<longleftrightarrow> (\<exists>c. ctx = Some c \<and> k = packInt (node_hash E (Resource c)))"
    by (auto simp: index_keys_def node_keys_def context_keys_def split: option.splits)
qed

lemma item_key_in:
  assumes "\<forall>it\<in>set its. is_item it"
  shows "(t, k) \<in> item_key ` set its \<longleftrightarrow> Item t k \<in> set its"
proof
  assume "(t, k) \<in> item_key ` set its"
  then obtain it where it: "it \<in> set its" "item_key it = (t, k)" by auto
  with assms obtain t' k' where "it = Item t' k'" unfolding is_item_def by blast
  then show "Item t k \<in> set its" using it by simp
next
  assume "Item t k \<in> set its"
  then show "(t, k) \<in> item_key ` set its" by (rule rev_image_eqI) simp
qed

lemma index_keys_item:
  assumes "indexable E (object st)" and "t \<notin> {T_subjects, T_predicates, T_objects, T_contexts}"
  shows "(t, k) \<in> set (index_keys E st ctx) \<longleftrightarrow> Item t k \<in> set (object_items E False (object st))"
proof -
  have "(t, k) \<notin> set (node_keys E st @ context_keys E ctx)"
    using node_context_tables(1) [of E st ctx] assms(2) by (metis fst_conv imageI subsetD)
  then show ?thesis
    using item_key_in [of "object_items E False (object st)" t k] assms(1)
    by (auto simp: index_keys_def indexable_def)
qed

lemma index_keys_lang:
  assumes "indexable E (object st)"
  shows "(T_languages, k) \<in> set (index_keys E st ctx)
    \<longleftrightarrow> (\<exists>l. object st = Literal l \<and> lang l \<noteq> [] \<and> foldedcase E (lang l) = Some k)"
proof (cases "object st")
  case (Resource r)
  then show ?thesis by (simp add: index_keys_item [OF assms] object_items_plain)
next
  case (Literal l)
  have "Item T_languages k \<notin> set (type_items E l)" "Item T_languages k \<notin> set (number_items E l)"
    by (auto simp: type_items_def date_items_def number_items_def Let_def split: option.splits)
  moreover have "Item T_languages k \<in> set (lang_items E l) \<longleftrightarrow> lang l \<noteq> [] \<and> foldedcase E (lang l) = Some k"
    by (auto simp: lang_items_def split: option.splits)
  ultimately show ?thesis by (simp add: index_keys_item [OF assms] Literal object_items_plain)
qed

lemma index_keys_type:
  assumes "indexable E (object st)"
  shows "(T_datatypes, k) \<in> set (index_keys E st ctx)
    \<longleftrightarrow> (\<exists>l. object st = Literal l \<and> opt_bytes (dataType l) \<noteq> [] \<and> opt_bytes (dataType l) = k)"
proof (cases "object st")
  case (Resource r)
  then show ?thesis by (simp add: index_keys_item [OF assms] object_items_plain)
next
  case (Literal l)
  have "Item T_datatypes k \<notin> set (lang_items E l)" "Item T_datatypes k \<notin> set (number_items E l)"
    by (auto simp: lang_items_def number_items_def split: option.splits)
  moreover have "Item T_datatypes k \<in> set (type_items E l) \<longleftrightarrow> opt_bytes (dataType l) \<noteq> [] \<and> opt_bytes (dataType l) = k"
    by (auto simp: type_items_def date_items_def Let_def split: option.splits)
  ultimately show ?thesis by (simp add: index_keys_item [OF assms] Literal object_items_plain)
qed

section \<open>The statements asked for\<close>

text \<open>Nothing asked for, or the statements of a kind\<close>

definition asked :: "statements \<Rightarrow> bool \<Rightarrow> (RDF_Statement \<Rightarrow> resource option \<Rightarrow> bool) \<Rightarrow> nat set option" where
  "asked M none P = (if none then None else Some {i. \<exists>st ctx. M i = Some (st, ctx) \<and> P st ctx})"

lemma meet_asked:
  assumes "a \<longrightarrow> (\<forall>st ctx. P st ctx)" and "b \<longrightarrow> (\<forall>st ctx. Q st ctx)"
  shows "meet (asked M a P) (asked M b Q) = asked M (a \<and> b) (\<lambda>st ctx. P st ctx \<and> Q st ctx)"
  using assms by (auto simp: asked_def)

lemma some_part_Nil [simp]: "some_part [] P"
  by (simp add: some_part_def)

lemma component_or:
  assumes "\<And>i p. p \<in> set ps \<Longrightarrow> i \<in> kv_idx A t (the (f p)) \<longleftrightarrow> (\<exists>st ctx. M i = Some (st, ctx) \<and> Q p st ctx)"
  shows "component_ids A t (map f ps, 0) = asked M (ps = []) (\<lambda>st ctx. some_part ps (\<lambda>p. Q p st ctx))"
proof (cases "ps = []")
  case False
  have "component_ids A t (map f ps, 0) = Some (\<Union>p\<in>set ps. kv_idx A t (the (f p)))"
    using False by (simp add: component_ids_def take_in_or)
  also have "(\<Union>p\<in>set ps. kv_idx A t (the (f p))) = {i. \<exists>st ctx. M i = Some (st, ctx) \<and> (\<exists>p\<in>set ps. Q p st ctx)}"
    by (rule set_eqI) (auto simp: assms)
  finally show ?thesis using False by (simp add: asked_def some_part_def)
qed (simp add: component_ids_def asked_def)

definition or_pattern :: "'s kernel_env \<Rightarrow> RDF_Triple_Pattern \<Rightarrow> bool" where
  "or_pattern E tp \<longleftrightarrow> pattern_ok tp \<and> subjects_operator tp = 0 \<and> predicates_operator tp = 0 \<and> objects_operator tp = 0
     \<and> contexts_operator tp = 0 \<and> langs_operator tp = 0 \<and> dts_operator tp = 0
     \<and> words tp = [] \<and> words_operator tp = 0
     \<and> (\<forall>p\<in>set (langs tp). foldedcase E (part_string p) \<noteq> None)
     \<and> (\<forall>p\<in>set (subjects tp @ predicates tp @ objects tp @ contexts tp). part_fresh E p)"

lemma or_simple: "or_pattern E tp \<Longrightarrow> simple_pattern E tp"
  by (simp add: or_pattern_def simple_pattern_def)

lemma kv_idx_found:
  assumes "contents E A n M" and "t \<notin> map_tables" and "t \<noteq> T_windex"
  shows "i \<in> kv_idx A t k \<longleftrightarrow> (\<exists>st ctx. M i = Some (st, ctx) \<and> (t, k) \<in> set (index_keys E st ctx))"
proof -
  have "kv_idx A t k = found_under E M t k" using assms unfolding contents_def by blast
  then show ?thesis by (simp add: found_under_def)
qed

lemma node_component:
  assumes c: "contents E A n M" and ix: "\<forall>(st, ctx)\<in>ran M. indexable E (object st)"
    and t: "t \<notin> map_tables" "t \<noteq> T_windex"
    and ps: "\<forall>p\<in>set ps. part_fresh E p \<and> \<not> string_part p"
    and keys: "\<And>st ctx k. indexable E (object st) \<Longrightarrow>
      (t, k) \<in> set (index_keys E st ctx) \<longleftrightarrow> (\<exists>x. nd st ctx = Some x \<and> k = packInt (node_hash E x))"
  shows "component_ids A t (map (snd \<circ> hashed_key E) ps, 0)
    = asked M (ps = []) (\<lambda>st ctx. some_part ps (\<lambda>p. \<exists>x. nd st ctx = Some x \<and> same_node E p x))"
proof (rule component_or)
  fix i p assume "p \<in> set ps"
  then obtain x where x: "snd (hashed_key E p) = Some (packInt (node_hash E x))"
    "\<And>n'. same_node E p n' \<longleftrightarrow> node_hash E x = node_hash E n'"
    using hashed_key_fresh [of E p] ps by blast
  have "indexable E (object st)" if "M i = Some (st, ctx)" for st ctx
    using ix that by (fastforce simp: ran_def)
  then show "i \<in> kv_idx A t (the ((snd \<circ> hashed_key E) p))
      \<longleftrightarrow> (\<exists>st ctx. M i = Some (st, ctx) \<and> (\<exists>x. nd st ctx = Some x \<and> same_node E p x))"
    unfolding kv_idx_found [OF c t] comp_def x(1) option.sel x(2) using keys by (simp cong: conj_cong)
qed

lemma or_pattern_ids:
  assumes c: "contents E A n M" and ix: "\<forall>(st, ctx)\<in>ran M. indexable E (object st)" and tp: "or_pattern E tp"
    and ne: "\<not> pattern_empty tp" and R: "ranges tp = [] \<Longrightarrow> Q = (\<lambda>st ctx. True)"
  shows "set_of (pattern_ids E A ft (asked M (ranges tp = []) Q) tp)
    = {i. \<exists>st ctx. M i = Some (st, ctx) \<and> statement_matches E tp st ctx \<and> Q st ctx}"
proof -
  have ok: "pattern_ok tp" using tp by (simp add: or_pattern_def)
  have fresh: "\<forall>p\<in>set (subjects tp). part_fresh E p \<and> \<not> string_part p"
    "\<forall>p\<in>set (predicates tp). part_fresh E p \<and> \<not> string_part p"
    "\<forall>p\<in>set (objects tp). part_fresh E p \<and> \<not> string_part p"
    "\<forall>p\<in>set (contexts tp). part_fresh E p \<and> \<not> string_part p"
    using tp ok unfolding or_pattern_def pattern_ok_def by (metis Un_iff resource_not_string empty_iff list.set(1) set_append)+
  have idx: "indexable E (object st)" if "M i = Some (st, ctx)" for i st ctx
    using ix that by (fastforce simp: ran_def)
  have S: "ids_subjects E A tp = asked M (subjects tp = []) (\<lambda>st ctx. some_part (subjects tp) (\<lambda>p. same_node E p (Resource (subject st))))"
    using node_component [OF c ix _ _ fresh(1), of T_subjects "\<lambda>st ctx. Some (Resource (subject st))"] tp
    by (simp add: ids_subjects_def or_pattern_def map_tables_def index_keys_node)
  have Pr: "ids_predicates E A tp = asked M (predicates tp = []) (\<lambda>st ctx. some_part (predicates tp) (\<lambda>p. same_node E p (Resource (predicate st))))"
    using node_component [OF c ix _ _ fresh(2), of T_predicates "\<lambda>st ctx. Some (Resource (predicate st))"] tp
    by (simp add: ids_predicates_def or_pattern_def map_tables_def index_keys_node)
  have O: "ids_objects E A tp = asked M (objects tp = []) (\<lambda>st ctx. some_part (objects tp) (\<lambda>p. same_node E p (object st)))"
    using node_component [OF c ix _ _ fresh(3), of T_objects "\<lambda>st ctx. Some (object st)"] tp
    by (simp add: ids_objects_def or_pattern_def map_tables_def index_keys_node)
  have C: "ids_contexts E A tp = asked M (contexts tp = []) (\<lambda>st ctx. some_part (contexts tp) (\<lambda>p. \<exists>c. ctx = Some c \<and> same_node E p (Resource c)))"
  proof -
    have "(\<exists>x. map_option Resource ctx = Some x \<and> P x) \<longleftrightarrow> (\<exists>c. ctx = Some c \<and> P (Resource c))" for P ctx
      by (cases ctx) simp_all
    then show ?thesis
      using node_component [OF c ix _ _ fresh(4), of T_contexts "\<lambda>st ctx. map_option Resource ctx"] tp
      by (simp add: ids_contexts_def or_pattern_def map_tables_def index_keys_node)
  qed
  have L: "ids_langs E A tp = asked M (langs tp = []) (\<lambda>st ctx. some_part (langs tp) (\<lambda>p. same_lang E p (object st)))"
  proof -
    have "component_ids A T_languages (map (snd \<circ> folded_key E) (langs tp), 0)
        = asked M (langs tp = []) (\<lambda>st ctx. some_part (langs tp) (\<lambda>p. same_lang E p (object st)))"
    proof (rule component_or)
      fix i p assume "p \<in> set (langs tp)"
      then obtain k where k: "foldedcase E (part_string p) = Some k" using tp unfolding or_pattern_def by blast
      show "i \<in> kv_idx A T_languages (the ((snd \<circ> folded_key E) p))
          \<longleftrightarrow> (\<exists>st ctx. M i = Some (st, ctx) \<and> same_lang E p (object st))"
        using kv_idx_found [OF c, of T_languages i k]
        by (simp add: folded_key_def k map_tables_def same_lang_def index_keys_lang idx cong: conj_cong)
    qed
    then show ?thesis using tp by (simp add: ids_langs_def or_pattern_def)
  qed
  have D: "ids_dts E A tp = asked M (dts tp = []) (\<lambda>st ctx. some_part (dts tp) (\<lambda>p. same_type p (object st)))"
  proof -
    have "component_ids A T_datatypes (map (snd \<circ> string_key) (dts tp), 0)
        = asked M (dts tp = []) (\<lambda>st ctx. some_part (dts tp) (\<lambda>p. same_type p (object st)))"
    proof (rule component_or)
      fix i p
      show "i \<in> kv_idx A T_datatypes (the ((snd \<circ> string_key) p))
          \<longleftrightarrow> (\<exists>st ctx. M i = Some (st, ctx) \<and> same_type p (object st))"
        using kv_idx_found [OF c, of T_datatypes i "part_string p"]
        by (simp add: string_key_def map_tables_def same_type_def index_keys_type idx cong: conj_cong)
    qed
    then show ?thesis using tp by (simp add: ids_dts_def or_pattern_def)
  qed
  have W: "ids_words E A ft tp = None" using tp by (simp add: or_pattern_def ids_words_def component_ids_def)
  have ands: "pattern_empty tp \<longleftrightarrow> subjects tp = [] \<and> predicates tp = [] \<and> objects tp = [] \<and> langs tp = [] \<and> dts tp = []
      \<and> ranges tp = [] \<and> contexts tp = []"
    using tp by (auto simp: pattern_empty_def or_pattern_def)
  have Q: "ranges tp = [] \<longrightarrow> (\<forall>st ctx. Q st ctx)" using R by auto
  have "pattern_ids E A ft (asked M (ranges tp = []) Q) tp
      = asked M (pattern_empty tp) (\<lambda>st ctx. statement_matches E tp st ctx \<and> Q st ctx)"
    unfolding pattern_ids_def W S Pr O L D C ands by (simp add: meet_asked Q statement_matches_def [abs_def] conj_ac)
  then show ?thesis using ne by (simp add: asked_def set_of_def)
qed

section \<open>Properties\<close>

text \<open>C2. In a store that holds the statements M, a search with or-patterns on subjects,
  predicates, objects, contexts, languages and data types returns a fresh, attached
  iterator over exactly the identifiers of the statements that agree, in every component
  given, with one of its parts, and leaves the store as it was.\<close>

theorem search_finds:
  assumes "kernel E ok tbl" and "store_holds E ok tbl me n M" and "\<forall>(st, ctx)\<in>ran M. indexable E (object st)"
    and "or_pattern E tp" and "ranges tp = []" and "\<not> pattern_empty tp"
  shows "\<exists>me' tp' it. rdfstore_search m E buf st att me (Some tp) = Inr (me', Some tp', Some it, attach st att)
    \<and> store_holds E ok tbl me' n M
    \<and> fresh_over st {i. \<exists>s ctx. M i = Some (s, ctx) \<and> statement_matches E tp s ctx} it"
proof -
  obtain A where r: "rep E ok tbl me A" and c: "contents E A n M" using assms(2) by (auto simp: store_holds_def)
  have w: "\<not> (freetext me \<and> words tp \<noteq> [] \<and> objects tp \<noteq> [])"
    using assms(4) by (simp_all add: or_pattern_def)
  obtain me' tp' it where s: "rdfstore_search m E buf st att me (Some tp) = Inr (me', Some tp', Some it, attach st att)"
    "rep E ok tbl me' A" "fresh_over st (set_of (pattern_ids E A (freetext me) None tp)) it"
    by (rule kernel.search_spec [OF assms(1) r or_simple [OF assms(4)] assms(6) w fetch_keeps_True _ no_ranges_restrict [OF assms(5)],
        where m = m and buf = buf and st = st and att = att]) simp
  have "asked M (ranges tp = []) (\<lambda>st ctx. True) = None" using assms(5) by (simp add: asked_def)
  then show ?thesis
    using s c or_pattern_ids [OF c assms(3,4,6), of "\<lambda>st ctx. True" "freetext me"] unfolding store_holds_def by auto
qed

definition subject_pattern :: "nat \<Rightarrow> RDF_Node list \<Rightarrow> RDF_Triple_Pattern" where
  "subject_pattern op ns = rdfstore_triple_pattern_new
     \<lparr>subjects := map (\<lambda>n. Resource_part (0, n)) ns, subjects_operator := op\<rparr>"

lemma subject_pattern_simps [simp]:
  "subjects (subject_pattern op ns) = map (\<lambda>n. Resource_part (0, n)) ns"
  "predicates (subject_pattern op ns) = []" "objects (subject_pattern op ns) = []"
  "contexts (subject_pattern op ns) = []" "langs (subject_pattern op ns) = []" "dts (subject_pattern op ns) = []"
  "words (subject_pattern op ns) = []" "ranges (subject_pattern op ns) = []"
  "subjects_operator (subject_pattern op ns) = op"
  "predicates_operator (subject_pattern op ns) = 0" "objects_operator (subject_pattern op ns) = 0"
  "contexts_operator (subject_pattern op ns) = 0" "langs_operator (subject_pattern op ns) = 0"
  "dts_operator (subject_pattern op ns) = 0" "words_operator (subject_pattern op ns) = 0"
  "ranges_operator (subject_pattern op ns) = 0"
  by (simp_all add: subject_pattern_def rdfstore_triple_pattern_new_def)

lemma subject_pattern_simple: "op < 2 \<Longrightarrow> simple_pattern E (subject_pattern op ns)"
  by (simp add: simple_pattern_def pattern_ok_def)

lemma subject_pattern_matches:
  "ns \<noteq> [] \<Longrightarrow> statement_matches E (subject_pattern 0 ns) st ctx
    \<longleftrightarrow> (\<exists>n\<in>set ns. node_hash E n = node_hash E (Resource (subject st)))"
  by (auto simp: statement_matches_def some_part_def same_node_def)

theorem search_finds_witness:
  "\<forall>m buf. \<exists>me me' tp' it. rdfstore_insert mem_env new_store (Some the_sample) None = Inr (me, Some (the_sample\<lparr>hashcode := 522\<rparr>), 0)
     \<and> rdfstore_search m mem_env buf 7 (\<lambda>_. 0) me (Some (subject_pattern 0 [Resource (subject the_sample)]))
       = Inr (me', Some tp', Some it, attach 7 (\<lambda>_. 0)) \<and> fresh_over 7 {0} it"
proof (intro allI)
  fix m buf
  let ?tp = "subject_pattern 0 [Resource (subject the_sample)]"
  obtain me where i: "rdfstore_insert mem_env new_store (Some the_sample) None = Inr (me, Some (the_sample\<lparr>hashcode := 522\<rparr>), 0)"
    and h: "store_holds mem_env mem_ok mem_tbl me 1 [0 \<mapsto> (the_sample, None)]"
    by (rule sample_inserted)
  have ix: "\<forall>(st, ctx)\<in>ran [0 :: nat \<mapsto> (the_sample, None :: resource option)]. indexable mem_env (object st)"
    using sample_indexable by simp
  have tp: "or_pattern mem_env ?tp" "ranges ?tp = []" "\<not> pattern_empty ?tp"
    by (simp_all add: or_pattern_def pattern_ok_def pattern_empty_def part_fresh_def)
  have ids: "{i. \<exists>s ctx. [0 :: nat \<mapsto> (the_sample, None :: resource option)] i = Some (s, ctx) \<and> statement_matches mem_env ?tp s ctx} = {0}"
    by (auto simp: subject_pattern_matches split: if_splits)
  show "\<exists>me me' tp' it. rdfstore_insert mem_env new_store (Some the_sample) None = Inr (me, Some (the_sample\<lparr>hashcode := 522\<rparr>), 0)
     \<and> rdfstore_search m mem_env buf 7 (\<lambda>_. 0) me (Some (subject_pattern 0 [Resource (subject the_sample)]))
       = Inr (me', Some tp', Some it, attach 7 (\<lambda>_. 0)) \<and> fresh_over 7 {0} it"
    using search_finds [OF mem_env_kernel h ix tp, where m = m and buf = buf and st = 7 and att = "\<lambda>_. 0"] i
    unfolding ids by blast
qed

lemma subject_ids:
  assumes c: "contents E A n M" and ix: "\<forall>(st, ctx)\<in>ran M. indexable E (object st)"
  shows "kv_idx A T_subjects (packInt (node_hash E x))
    = {i. \<exists>st ctx. M i = Some (st, ctx) \<and> node_hash E (Resource (subject st)) = node_hash E x}"
proof (rule set_eqI)
  fix i
  have idx: "indexable E (object st)" if "M i = Some (st, ctx)" for st ctx
    using ix that by (fastforce simp: ran_def)
  show "i \<in> kv_idx A T_subjects (packInt (node_hash E x))
    \<longleftrightarrow> i \<in> {i. \<exists>st ctx. M i = Some (st, ctx) \<and> node_hash E (Resource (subject st)) = node_hash E x}"
    using kv_idx_found [OF c, of T_subjects i "packInt (node_hash E x)"]
    by (auto simp: map_tables_def index_keys_node idx)
qed

text \<open>The identifiers of the statements with a subject\<close>

definition of_subject :: "'s kernel_env \<Rightarrow> statements \<Rightarrow> RDF_Node \<Rightarrow> nat set" where
  "of_subject E M x = {i. \<exists>st ctx. M i = Some (st, ctx) \<and> node_hash E (Resource (subject st)) = node_hash E x}"

lemma search_subjects_spec:
  assumes k: "kernel E ok tbl" and h: "store_holds E ok tbl me n M" and ix: "\<forall>(st, ctx)\<in>ran M. indexable E (object st)"
    and "op < 2" and ns: "ns \<noteq> []"
  shows "\<exists>me' tp' it. rdfstore_search m E buf st att me (Some (subject_pattern op ns)) = Inr (me', Some tp', Some it, attach st att)
    \<and> store_holds E ok tbl me' n M \<and> fresh_over st (foldl (take_in op) {} (map (of_subject E M) ns)) it"
proof -
  let ?tp = "subject_pattern op ns"
  obtain A where r: "rep E ok tbl me A" and c: "contents E A n M" using h by (auto simp: store_holds_def)
  obtain me' tp' it where s: "rdfstore_search m E buf st att me (Some ?tp) = Inr (me', Some tp', Some it, attach st att)"
    "rep E ok tbl me' A" "fresh_over st (set_of (pattern_ids E A (freetext me) None ?tp)) it"
    by (rule kernel.search_spec [OF k r subject_pattern_simple [OF assms(4), where ns = ns] _ _ fetch_keeps_True _ no_ranges_restrict,
        where m = m and buf = buf and st = st and att = att])
      (use ns in \<open>simp_all add: pattern_empty_def\<close>)
  have ids: "(\<lambda>k. kv_idx A T_subjects (the k)) \<circ> (snd \<circ> hashed_key E \<circ> (\<lambda>n. Resource_part (0, n))) = of_subject E M"
    by (rule ext) (use subject_ids [OF c ix] in \<open>simp add: of_subject_def hashed_key_def Let_def node_hash_def\<close>)
  have "set_of (pattern_ids E A (freetext me) None ?tp) = foldl (take_in op) {} (map (of_subject E M) ns)"
    using ns by (simp add: ids pattern_ids_def ids_words_def ids_subjects_def ids_predicates_def ids_objects_def ids_langs_def
        ids_dts_def ids_contexts_def component_ids_def set_of_def)
  then show ?thesis using s c unfolding store_holds_def by metis
qed

theorem search_and_restarts:
  assumes "kernel E ok tbl" and "store_holds E ok tbl me n M" and "\<forall>(st, ctx)\<in>ran M. indexable E (object st)"
    and "node_hash E x \<noteq> node_hash E y" and "of_subject E M x \<noteq> {}" and "of_subject E M y \<noteq> {}"
  shows "\<exists>me' tp' it. rdfstore_search m E buf st att me (Some (subject_pattern 1 [x, y, z]))
      = Inr (me', Some tp', Some it, attach st att)
    \<and> fresh_over st (of_subject E M z) it"
proof -
  have "of_subject E M x \<inter> of_subject E M y = {}" using assms(4) by (auto simp: of_subject_def)
  then have "foldl (take_in 1) {} (map (of_subject E M) [x, y, z]) = of_subject E M z"
    using assms(5,6) by (simp add: take_in_def)
  then show ?thesis
    using search_subjects_spec [OF assms(1-3), of 1 "[x, y, z]" m buf st att] by auto
qed

definition second_sample :: RDF_Statement where
  "second_sample = the_sample\<lparr>subject := sample_context\<rparr>"

lemma two_subjects:
  obtains me n M where "store_holds mem_env mem_ok mem_tbl me n M" and "ran M = {(the_sample, None), (second_sample, None)}"
proof -
  let ?cs = "[Call_insert the_sample None, Call_insert second_sample None]"
  let ?X = "{(the_sample, None), (second_sample, None)}"
  have second: "object second_sample = object sample_statement" "hashcode second_sample = 0" "st_context second_sample = None"
    "plain second_sample = second_sample"
    by (simp_all add: second_sample_def) (simp add: plain_def the_sample_def)
  have hash: "statement_hash mem_env (second_sample, None) \<noteq> statement_hash mem_env (sample_statement, None)"
    by (simp add: second_sample_def the_sample_def plain_def toy_hash_simps)
  have ctx: "effective_context new_store the_sample given = given" "effective_context new_store second_sample given = given" for given
    by (simp_all add: effective_context_def new_store_def second split: option.split)
  have inj: "inj_on (statement_hash mem_env) ?X" using hash by (auto simp: inj_on_def)
  have calls: "\<forall>c\<in>set ?cs. call_ok mem_env ?X new_store c" using sample_indexable by (simp add: ctx second Let_def)
  obtain me' n' M' rs where "store_holds mem_env mem_ok mem_tbl me' n' M'"
      "quad_calls new_store ?cs (0, ran Map.empty) = ((n', ran M'), rs)"
    using mem_kernel.run_calls_spec [OF new_store_holds _ inj _ calls] by (auto simp: new_store_def)
  moreover have "quad_calls new_store ?cs (0, ran Map.empty) = ((2, ?X), [0, 0])"
    using hash by (auto simp: ctx second Let_def RDFSTORE_MAXRECORDS_def)
  ultimately show thesis using that [of me' n' M'] by simp
qed

theorem search_and_restarts_witness:
  "\<forall>m buf. \<exists>me n M me' tp' it. store_holds mem_env mem_ok mem_tbl me n M \<and> ran M = {(the_sample, None), (second_sample, None)}
     \<and> rdfstore_search m mem_env buf 7 (\<lambda>_. 0) me (Some (subject_pattern 1
           [Resource (subject the_sample), Resource (subject second_sample), Resource (subject the_sample)]))
       = Inr (me', Some tp', Some it, attach 7 (\<lambda>_. 0)) \<and> ids_of it \<noteq> {}"
proof (intro allI)
  fix m buf
  obtain me n M where h: "store_holds mem_env mem_ok mem_tbl me n M"
    and M: "ran M = {(the_sample, None), (second_sample, None)}" by (rule two_subjects)
  have ix: "\<forall>(st, ctx)\<in>ran M. indexable mem_env (object st)"
    unfolding M using sample_indexable by (simp add: second_sample_def)
  have hash: "node_hash mem_env (Resource (subject the_sample)) \<noteq> node_hash mem_env (Resource (subject second_sample))"
    by (simp add: node_hash_def rdfstore_digest_get_node_hashCode_def rdfstore_digest_get_node_digest_def mem_env_def
        toy_crc the_sample_def second_sample_def plain_def toy_hash_simps)
  have some: "of_subject mem_env M (Resource (subject st)) \<noteq> {}" if "(st, None) \<in> ran M" for st
    using that by (auto simp: of_subject_def ran_def)
  have "(the_sample, None) \<in> ran M" "(second_sample, None) \<in> ran M" by (simp_all add: M)
  note s = search_and_restarts [OF mem_env_kernel h ix hash some [OF this(1)] some [OF this(2)],
      where z = "Resource (subject the_sample)" and m = m and buf = buf and st = 7 and att = "\<lambda>_. 0"]
  obtain me' tp' it where "rdfstore_search m mem_env buf 7 (\<lambda>_. 0) me (Some (subject_pattern 1
           [Resource (subject the_sample), Resource (subject second_sample), Resource (subject the_sample)]))
       = Inr (me', Some tp', Some it, attach 7 (\<lambda>_. 0))"
     "fresh_over 7 (of_subject mem_env M (Resource (subject the_sample))) it"
    using s by blast
  moreover from this(2) have "ids_of it \<noteq> {}" using some [of the_sample] M by (simp add: fresh_over_def)
  ultimately show "\<exists>me n M me' tp' it. store_holds mem_env mem_ok mem_tbl me n M \<and> ran M = {(the_sample, None), (second_sample, None)}
     \<and> rdfstore_search m mem_env buf 7 (\<lambda>_. 0) me (Some (subject_pattern 1
           [Resource (subject the_sample), Resource (subject second_sample), Resource (subject the_sample)]))
       = Inr (me', Some tp', Some it, attach 7 (\<lambda>_. 0)) \<and> ids_of it \<noteq> {}" using h M by blast
qed

theorem search_and_skips_absent:
  assumes "kernel E ok tbl" and "store_holds E ok tbl me n M" and "\<forall>(st, ctx)\<in>ran M. indexable E (object st)"
    and "of_subject E M y = {}"
  shows "\<exists>me' tp' it. rdfstore_search m E buf st att me (Some (subject_pattern 1 [x, y]))
      = Inr (me', Some tp', Some it, attach st att)
    \<and> fresh_over st (of_subject E M x) it"
proof -
  have "foldl (take_in 1) {} (map (of_subject E M) [x, y]) = of_subject E M x"
    using assms(4) by (simp add: take_in_def)
  then show ?thesis
    using search_subjects_spec [OF assms(1-3), of 1 "[x, y]" m buf st att] by auto
qed

theorem search_and_skips_absent_witness:
  "\<forall>m buf. \<exists>me me' tp' it. store_holds mem_env mem_ok mem_tbl me 1 [0 \<mapsto> (the_sample, None)]
     \<and> rdfstore_search m mem_env buf 7 (\<lambda>_. 0) me (Some (subject_pattern 1 [Resource (subject the_sample), Resource sample_context]))
       = Inr (me', Some tp', Some it, attach 7 (\<lambda>_. 0)) \<and> fresh_over 7 {0} it"
proof (intro allI)
  fix m buf
  let ?M = "[0 :: nat \<mapsto> (the_sample, None :: resource option)]"
  obtain me where h: "store_holds mem_env mem_ok mem_tbl me 1 ?M"
    by (rule sample_inserted)
  have ix: "\<forall>(st, ctx)\<in>ran ?M. indexable mem_env (object st)" using sample_indexable by simp
  have ne: "node_hash mem_env (Resource (subject the_sample)) \<noteq> node_hash mem_env (Resource sample_context)"
    by (simp add: node_hash_def rdfstore_digest_get_node_hashCode_def rdfstore_digest_get_node_digest_def mem_env_def
        toy_crc the_sample_def plain_def toy_hash_simps)
  then have "of_subject mem_env ?M (Resource sample_context) = {}" by (simp add: of_subject_def)
  moreover have "of_subject mem_env ?M (Resource (subject the_sample)) = {0}"
    by (auto simp: of_subject_def split: if_splits)
  ultimately show "\<exists>me me' tp' it. store_holds mem_env mem_ok mem_tbl me 1 [0 \<mapsto> (the_sample, None)]
     \<and> rdfstore_search m mem_env buf 7 (\<lambda>_. 0) me (Some (subject_pattern 1 [Resource (subject the_sample), Resource sample_context]))
       = Inr (me', Some tp', Some it, attach 7 (\<lambda>_. 0)) \<and> fresh_over 7 {0} it"
    using search_and_skips_absent [OF mem_env_kernel h ix, where m = m and buf = buf and st = 7 and att = "\<lambda>_. 0"] h by metis
qed

end
