(* ===== verification/Ranges.thy ===== *)
theory Ranges
  imports Results
begin

text \<open>
  Searches over ranges of numbers and dates. The locale \<open>ordered_cursor\<close> adds to a cursor the
  order in which it walks the keys; in \<open>range_kernel\<close> each loop of \<open>search_ranges\<close> is shown to
  gather the identifiers under the keys its operator asks for, when the tree is ordered as the
  values are. Berkeley DB trees give that contract.
\<close>

section \<open>Ordered cursors\<close>

text \<open>
  \<open>le s\<close> is the order of the B-tree of \<open>s\<close>: the cursor goes from a key upwards.
\<close>

locale ordered_cursor = flat_cursor +
  fixes le :: "'a \<Rightarrow> flat_key \<Rightarrow> flat_key \<Rightarrow> bool"
  assumes fetch_le: "ok s \<Longrightarrow> le (fst (be_fetch B s k)) = le s"
    and next_le: "ok s \<Longrightarrow> walk s ks \<Longrightarrow> le (fst (be_next B s k)) = le s"
    and first_ordered: "ok s \<Longrightarrow> be_first B s = (s', r) \<Longrightarrow>
      le s' = le s
      \<and> (\<exists>ks. distinct ks \<and> set ks = dom (tbl s) \<and> sorted_wrt (le s) ks
           \<and> (case ks of [] \<Rightarrow> \<exists>e. r = Inl e | k # ks' \<Rightarrow> r = Inr k \<and> walk s' ks'))"
    and from_ordered: "ok s \<Longrightarrow> be_from B s b = (s', r) \<Longrightarrow>
      ok s' \<and> tbl s' = tbl s \<and> le s' = le s
      \<and> (\<exists>ks. distinct ks \<and> set ks = {k \<in> dom (tbl s). le s b k} \<and> sorted_wrt (le s) ks
           \<and> (case ks of [] \<Rightarrow> \<exists>e. r = Inl e | k # ks' \<Rightarrow> r = Inr k \<and> walk s' ks'))"

locale range_kernel = kernel E ok tbl + ordered_cursor "table_ops E" ok tbl walk le
  for E :: "'s kernel_env" and ok :: "'s \<Rightarrow> bool" and tbl :: "'s \<Rightarrow> flat_key \<Rightarrow> flat_data option"
    and walk :: "'s \<Rightarrow> flat_key list \<Rightarrow> bool" and le :: "'s \<Rightarrow> flat_key \<Rightarrow> flat_key \<Rightarrow> bool"

text \<open>The keys a loop reads on its way\<close>

fun visited :: "(flat_key \<Rightarrow> range_choice) \<Rightarrow> flat_key list \<Rightarrow> flat_key list" where
  "visited choice [] = []"
| "visited choice (k # ks) = (case choice k of
     Range_stop \<Rightarrow> [] | Range_skip \<Rightarrow> visited choice ks | Range_visit \<Rightarrow> k # visited choice ks | Range_last \<Rightarrow> [k])"

context range_kernel
begin

text \<open>What a read of a key under the cursor keeps\<close>

definition reads :: "kview \<Rightarrow> table \<Rightarrow> 's rdfstore \<Rightarrow> gathering \<Rightarrow> flat_key list \<Rightarrow> 's rdfstore \<Rightarrow> gathering \<Rightarrow> bool" where
  "reads A t me g ks me' g' \<longleftrightarrow> rep E ok tbl me' A \<and> flags_of me' = flags_of me \<and> gathering_ok g'
     \<and> le (tables me' t) = le (tables me t) \<and> (\<forall>u. u \<noteq> t \<longrightarrow> tables me' u = tables me u)
     \<and> gathered g' = gathered g \<union> \<Union> (kv_idx A t ` set ks)"

lemma reads_refl: "rep E ok tbl me A \<Longrightarrow> gathering_ok g \<Longrightarrow> reads A t me g [] me g"
  by (simp add: reads_def)

lemma reads_trans: "reads A t me g ks me1 g1 \<Longrightarrow> reads A t me1 g1 ks' me2 g2 \<Longrightarrow> reads A t me g (ks @ ks') me2 g2"
  unfolding reads_def by auto

lemma fetch_reads:
  assumes r: "rep E ok tbl me A" and t: "t \<notin> map_tables" and g: "gathering_ok g" and V: "kv_idx A t k \<noteq> {}"
    and w: "walk (tables me t) ks"
  obtains me' g' where "fetch_into E t 0 k me g = Inr (me', Inr g')" and "reads A t me g [k] me' g'"
    and "walk (tables me' t) ks"
proof -
  obtain me' q where f: "fetch_into E t 0 k me g = Inr (me', q)" "rep E ok tbl me' A" "flags_of me' = flags_of me"
    "\<exists>g'. q = Inr g' \<and> gathering_ok g' \<and> gathered g' = take_in 0 (gathered g) (kv_idx A t k)"
    by (rule fetch_into_spec [OF r t g, of 0 k]) (use V in auto)
  then obtain g' where q: "q = Inr g'" "gathering_ok g'" "gathered g' = take_in 0 (gathered g) (kv_idx A t k)" by blast
  note T = fetch_into_tables [OF f(1)]
  have ok: "ok (tables me t)" using r by (simp add: rep_def)
  have "le (tables me' t) = le (tables me t)" using T fetch_le [OF ok] by simp
  then have "reads A t me g [k] me' g'"
    using f(2,3) q T V by (simp add: reads_def take_in_def)
  moreover have "walk (tables me' t) ks"
    using T walk_fetch [OF ok w, of k] by (metis fun_upd_same prod.collapse)
  ultimately show thesis using that f(1) q(1) by blast
qed

lemma next_reads:
  assumes r: "rep E ok tbl me A" and g: "gathering_ok g" and w: "walk (tables me t) ks"
    and n: "be_next (table_ops E) (tables me t) k = (s, q)"
  shows "reads A t me g [] (set_table t s me) g"
    and "case ks of [] \<Rightarrow> \<exists>e. q = Inl e | k' # ks' \<Rightarrow> q = Inr k' \<and> walk (tables (set_table t s me) t) ks'"
proof -
  have ok: "ok (tables me t)" using r by (simp add: rep_def)
  note N = step [OF ok w n]
  have "rep E ok tbl (set_table t s me) A" by (rule rep_set_table_same [OF r]) (use N in auto)
  moreover have "le s = le (tables me t)" using next_le [OF ok w, of k] n by simp
  ultimately show "reads A t me g [] (set_table t s me) g"
    using g by (simp add: reads_def) (simp add: set_table_def)
  show "case ks of [] \<Rightarrow> \<exists>e. q = Inl e | k' # ks' \<Rightarrow> q = Inr k' \<and> walk (tables (set_table t s me) t) ks'"
    using N by (cases ks) (simp_all add: set_table_def)
qed

lemma range_loop_spec:
  assumes "rep E ok tbl me A" and t: "t \<notin> map_tables" and "gathering_ok g" and "walk (tables me t) ks"
    and "set (k # ks) \<subseteq> {k. kv_idx A t k \<noteq> {}}"
  shows "\<exists>me' g'. range_loop E t choice k me g = Some (Inr (me', Some g')) \<and> reads A t me g (visited choice (k # ks)) me' g'"
  using assms(1,3-5)
proof (induction ks arbitrary: k me g)
  case (Nil k me g)
  have V: "kv_idx A t k \<noteq> {}" using Nil.prems(4) by simp
  obtain me1 g1 where f: "fetch_into E t 0 k me g = Inr (me1, Inr g1)" "reads A t me g [k] me1 g1" "walk (tables me1 t) []"
    by (rule fetch_reads [OF Nil.prems(1) t Nil.prems(2) V Nil.prems(3)])
  have r1: "rep E ok tbl me1 A" "gathering_ok g1" using f(2) by (simp_all add: reads_def)
  have stop: "\<exists>e s. be_next (table_ops E) (tables me' t) k = (s, Inl e) \<and> reads A t me' g' [] (set_table t s me') g'"
    if "rep E ok tbl me' A" "gathering_ok g'" "walk (tables me' t) []" for me' g'
    using next_reads [OF that, of k] by (cases "be_next (table_ops E) (tables me' t) k") auto
  show ?case
  proof (cases "choice k")
    case Range_stop
    then show ?thesis using reads_refl [OF Nil.prems(1,2)] by (simp add: range_loop.simps [of E t choice k] range_visit_def)
  next
    case Range_skip
    obtain e s where "be_next (table_ops E) (tables me t) k = (s, Inl e)" "reads A t me g [] (set_table t s me) g"
      using stop [OF Nil.prems(1-3)] by blast
    then show ?thesis using Range_skip by (simp add: range_loop.simps [of E t choice k] range_visit_def)
  next
    case Range_visit
    obtain e s where n: "be_next (table_ops E) (tables me1 t) k = (s, Inl e)" "reads A t me1 g1 [] (set_table t s me1) g1"
      using stop [OF r1 f(3)] by blast
    have "range_loop E t choice k me g = Some (Inr (set_table t s me1, Some g1))"
      using Range_visit f(1) n(1) by (simp add: range_loop.simps [of E t choice k] range_visit_def)
    then show ?thesis using Range_visit reads_trans [OF f(2) n(2)] by auto
  next
    case Range_last
    then show ?thesis using f by (simp add: range_loop.simps [of E t choice k] range_visit_def)
  qed
next
  case (Cons k2 ks k me g)
  have V: "kv_idx A t k \<noteq> {}" and rest: "set (k2 # ks) \<subseteq> {k. kv_idx A t k \<noteq> {}}" using Cons.prems(4) by simp_all
  obtain me1 g1 where f: "fetch_into E t 0 k me g = Inr (me1, Inr g1)" "reads A t me g [k] me1 g1" "walk (tables me1 t) (k2 # ks)"
    by (rule fetch_reads [OF Cons.prems(1) t Cons.prems(2) V Cons.prems(3)])
  have r1: "rep E ok tbl me1 A" "gathering_ok g1" using f(2) by (simp_all add: reads_def)
  have go: "\<exists>s me2 g2. be_next (table_ops E) (tables me' t) k = (s, Inr k2)
      \<and> range_loop E t choice k2 (set_table t s me') g' = Some (Inr (me2, Some g2))
      \<and> reads A t me' g' (visited choice (k2 # ks)) me2 g2"
    if "rep E ok tbl me' A" "gathering_ok g'" "walk (tables me' t) (k2 # ks)" for me' g'
  proof -
    obtain s q where n: "be_next (table_ops E) (tables me' t) k = (s, q)" by (metis prod.collapse)
    note N = next_reads [OF that n]
    have "rep E ok tbl (set_table t s me') A" using N(1) by (simp add: reads_def)
    with Cons.IH [OF this that(2) _ rest] N(2) obtain me2 g2 where
      "range_loop E t choice k2 (set_table t s me') g' = Some (Inr (me2, Some g2))"
      "reads A t (set_table t s me') g' (visited choice (k2 # ks)) me2 g2" by auto
    then show ?thesis using n N reads_trans [OF N(1)] by fastforce
  qed
  show ?case
  proof (cases "choice k")
    case Range_stop
    then show ?thesis using reads_refl [OF Cons.prems(1,2)] by (simp add: range_loop.simps [of E t choice k] range_visit_def)
  next
    case Range_skip
    obtain s me2 g2 where "be_next (table_ops E) (tables me t) k = (s, Inr k2)"
      "range_loop E t choice k2 (set_table t s me) g = Some (Inr (me2, Some g2))"
      "reads A t me g (visited choice (k2 # ks)) me2 g2"
      using go [OF Cons.prems(1-3)] by blast
    then show ?thesis using Range_skip by (simp add: range_loop.simps [of E t choice k] range_visit_def)
  next
    case Range_visit
    obtain s me2 g2 where n: "be_next (table_ops E) (tables me1 t) k = (s, Inr k2)"
      "range_loop E t choice k2 (set_table t s me1) g1 = Some (Inr (me2, Some g2))"
      "reads A t me1 g1 (visited choice (k2 # ks)) me2 g2"
      using go [OF r1 f(3)] by blast
    have "range_loop E t choice k me g = Some (Inr (me2, Some g2))"
      using Range_visit f(1) n(1,2) by (simp add: range_loop.simps [of E t choice k] range_visit_def)
    then show ?thesis using Range_visit reads_trans [OF f(2) n(3)] by auto
  next
    case Range_last
    then show ?thesis using f by (simp add: range_loop.simps [of E t choice k] range_visit_def)
  qed
qed

end

section \<open>The keys a loop reads\<close>

text \<open>
  On the keys in \<open>K\<close> the order \<open>L\<close> is linear, and the machine compares the values they hold as
  \<open>L\<close> does.
\<close>

definition values_ordered :: "machine \<Rightarrow> table \<Rightarrow> (flat_key \<Rightarrow> flat_key \<Rightarrow> bool) \<Rightarrow> flat_key set \<Rightarrow> bool" where
  "values_ordered m t L K \<longleftrightarrow>
     (\<forall>x\<in>K. \<forall>y\<in>K. L x y \<or> L y x) \<and> (\<forall>x\<in>K. \<forall>y\<in>K. L x y \<longrightarrow> L y x \<longrightarrow> x = y)
   \<and> (\<forall>x\<in>K. \<forall>y\<in>K. \<forall>z\<in>K. L x y \<longrightarrow> L y z \<longrightarrow> L x z)
   \<and> (\<forall>x\<in>K. \<forall>y\<in>K. (value_eq m t x y \<longleftrightarrow> x = y) \<and> (value_gt m t x y \<longleftrightarrow> \<not> L x y))"

lemma values_orderedD:
  assumes "values_ordered m t L K" and "x \<in> K" and "y \<in> K"
  shows "value_eq m t x y \<longleftrightarrow> x = y" and "value_gt m t x y \<longleftrightarrow> \<not> L x y" and "L x y \<or> L y x"
    and "L x y \<Longrightarrow> L y x \<Longrightarrow> x = y" and "z \<in> K \<Longrightarrow> L x y \<Longrightarrow> L y z \<Longrightarrow> L x z"
  using assms unfolding values_ordered_def by blast+

lemma visited_subset: "set (visited choice ks) \<subseteq> set ks"
  by (induction ks) (auto split: range_choice.split)

lemma visited_below:
  assumes "values_ordered m t L K" and "b \<in> K"
  shows "set ks \<subseteq> K \<Longrightarrow> distinct ks \<Longrightarrow> sorted_wrt L ks \<Longrightarrow>
    set (visited (below_choice m t b inclusive) ks)
      = {k \<in> set ks. \<not> value_gt m t k b \<and> (inclusive \<or> \<not> value_eq m t k b)}"
proof (induction ks)
  case (Cons k ks)
  note O = values_orderedD [OF assms(1)]
  have k: "k \<in> K" and ks: "set ks \<subseteq> K" "\<forall>k'\<in>set ks. L k k'" "k \<notin> set ks" using Cons.prems by auto
  note IH = Cons.IH [OF ks(1)]
  have later: "value_gt m t k' b" if "\<not> L k b \<or> k = b" "k' \<in> set ks" for k'
  proof -
    have k': "k' \<in> K" "L k k'" "k' \<noteq> k" using that ks by auto
    have "\<not> L k' b"
    proof
      assume "L k' b"
      then have "L k b" using O(5) [OF k k'(1) assms(2) k'(2)] by simp
      with that(1) have "k = b" by simp
      with \<open>L k' b\<close> k'(2,3) show False using O(4) [OF k k'(1)] by blast
    qed
    then show ?thesis using O(2) [OF k'(1) assms(2)] by simp
  qed
  consider "k = b" | "k \<noteq> b" "L k b" | "k \<noteq> b" "\<not> L k b" by blast
  then show ?case
  proof cases
    case 1
    then have "value_eq m t k b" "\<not> value_gt m t k b" using O(1,2,3) [OF k assms(2)] by auto
    moreover have "\<forall>k'\<in>set ks. value_gt m t k' b" using later 1 by blast
    ultimately show ?thesis by (auto simp: below_choice_def [of m t b inclusive k])
  next
    case 2
    then have "\<not> value_eq m t k b" "\<not> value_gt m t k b" using O(1,2) [OF k assms(2)] by auto
    moreover have "set (visited (below_choice m t b inclusive) ks)
        = {k \<in> set ks. \<not> value_gt m t k b \<and> (inclusive \<or> \<not> value_eq m t k b)}"
      using IH Cons.prems by simp
    moreover have "below_choice m t b inclusive k = Range_visit" using calculation(1,2) by (simp add: below_choice_def [of m t b inclusive k])
    ultimately show ?thesis by auto
  next
    case 3
    then have "\<not> value_eq m t k b" "value_gt m t k b" using O(1,2) [OF k assms(2)] by auto
    moreover have "\<forall>k'\<in>set ks. value_gt m t k' b" using later 3 by blast
    ultimately show ?thesis by (auto simp: below_choice_def [of m t b inclusive k])
  qed
qed simp

lemma visited_differs: "visited (differs_choice m t b) ks = filter (\<lambda>k. \<not> value_eq m t k b) ks"
proof (induction ks)
  case (Cons k ks)
  then show ?case by (cases "value_eq m t k b") (simp_all add: differs_choice_def [of m t b k])
qed simp

lemma visited_above: "visited (above_choice m t b strict) ks = filter (\<lambda>k. \<not> (value_eq m t k b \<and> strict)) ks"
proof (induction ks)
  case (Cons k ks)
  then show ?case by (cases strict; cases "value_eq m t k b") (simp_all add: above_choice_def [of _ _ _ _ k])
qed simp

text \<open>What the operators of the ranges mean, as \<open>include/rdfstore.h\<close> has it\<close>

definition above_bound :: "machine \<Rightarrow> table \<Rightarrow> nat \<Rightarrow> flat_key \<Rightarrow> flat_key \<Rightarrow> bool" where
  "above_bound m t op a k \<longleftrightarrow> value_gt m t k a \<or> op \<in> {5, 8, 9} \<and> value_eq m t k a"

definition below_bound :: "machine \<Rightarrow> table \<Rightarrow> nat \<Rightarrow> flat_key \<Rightarrow> flat_key \<Rightarrow> bool" where
  "below_bound m t op b k \<longleftrightarrow> \<not> value_gt m t k b \<and> (op \<in> {2, 9, 10} \<or> \<not> value_eq m t k b)"

definition in_range :: "machine \<Rightarrow> table \<Rightarrow> nat \<Rightarrow> flat_key \<Rightarrow> flat_key \<Rightarrow> flat_key \<Rightarrow> bool" where
  "in_range m t op a b k \<longleftrightarrow>
     (if op \<in> {1, 2} then below_bound m t op a k
      else if op = 3 then value_eq m t k a
      else if op = 4 then \<not> value_eq m t k a
      else if op \<in> {5, 6} then above_bound m t op a k
      else op > 6 \<and> above_bound m t op a k \<and> below_bound m t op b k)"

lemma dom_index: "index_rep E T V \<Longrightarrow> dom T = {k. V k \<noteq> {}}"
  using index_rep_None [of E T V] index_rep_Some [of E T V] by (auto simp: dom_def)

context range_kernel
begin

text \<open>A gathering from the keys of \<open>t\<close> that satisfy \<open>Q\<close>\<close>

definition gathers ::
  "kview \<Rightarrow> table \<Rightarrow> (flat_key \<Rightarrow> flat_key \<Rightarrow> bool) \<Rightarrow> ('s rdfstore \<Rightarrow> gathering \<Rightarrow> halt + ('s rdfstore \<times> gathering option)) \<Rightarrow> (flat_key \<Rightarrow> bool) \<Rightarrow> bool"
where
  "gathers A t L G Q \<longleftrightarrow> (\<forall>me g. rep E ok tbl me A \<longrightarrow> gathering_ok g \<longrightarrow> gathered g = {} \<longrightarrow> le (tables me t) = L \<longrightarrow>
     (\<exists>me' g' ks. G me g = Inr (me', Some g') \<and> reads A t me g ks me' g'
        \<and> \<Union> (kv_idx A t ` set ks) = {i. \<exists>k. i \<in> kv_idx A t k \<and> Q k}))"

lemma scan_gathers:
  assumes t: "t \<notin> map_tables"
    and start: "\<And>s s' q. ok s \<Longrightarrow> le s = L \<Longrightarrow> start s = (s', q) \<Longrightarrow> ok s' \<and> tbl s' = tbl s \<and> le s' = L
      \<and> (\<exists>ks. distinct ks \<and> set ks = {k \<in> dom (tbl s). P k} \<and> sorted_wrt L ks
           \<and> (case ks of [] \<Rightarrow> \<exists>e. q = Inl e | k # ks' \<Rightarrow> q = Inr k \<and> walk s' ks'))"
    and Q: "\<And>ks. distinct ks \<Longrightarrow> set ks = {k. kv_idx A t k \<noteq> {} \<and> P k} \<Longrightarrow> sorted_wrt L ks \<Longrightarrow>
      set (visited choice ks) = {k. kv_idx A t k \<noteq> {} \<and> Q k}"
  shows "gathers A t L (range_scan E t start choice) Q"
  unfolding gathers_def
proof (intro allI impI)
  fix me g assume r: "rep E ok tbl me A" and g: "gathering_ok g" and le: "le (tables me t) = L"
  obtain s q where f: "start (tables me t) = (s, q)" by (metis prod.collapse)
  have ok: "ok (tables me t)" and ir: "index_rep E (tbl (tables me t)) (kv_idx A t)" using r t by (simp_all add: rep_def)
  have F: "ok s" "tbl s = tbl (tables me t)" and les: "le s = L" using start [OF ok le f] by simp_all
  have dom: "{k \<in> dom (tbl (tables me t)). P k} = {k. kv_idx A t k \<noteq> {} \<and> P k}"
    unfolding dom_index [OF ir] by simp
  obtain ks where ks: "distinct ks" "set ks = {k. kv_idx A t k \<noteq> {} \<and> P k}" "sorted_wrt L ks"
    and q: "case ks of [] \<Rightarrow> \<exists>e. q = Inl e | k # ks' \<Rightarrow> q = Inr k \<and> walk s ks'"
    using start [OF ok le f] unfolding dom by blast
  let ?me = "set_table t s me"
  have r1: "rep E ok tbl ?me A" by (rule rep_set_table_same [OF r F])
  have start: "reads A t me g [] ?me g" using r1 g les le by (simp add: reads_def) (simp add: set_table_def)
  have V: "\<Union> (kv_idx A t ` set (visited choice ks)) = {i. \<exists>k. i \<in> kv_idx A t k \<and> Q k}"
    unfolding Q [OF ks] by auto
  show "\<exists>me' g' ks. range_scan E t start choice me g = Inr (me', Some g') \<and> reads A t me g ks me' g'
      \<and> \<Union> (kv_idx A t ` set ks) = {i. \<exists>k. i \<in> kv_idx A t k \<and> Q k}"
  proof (cases ks)
    case Nil
    then obtain e where "q = Inl e" using q by auto
    then have "range_scan E t start choice me g = Inr (?me, Some g)" using f by (simp add: range_scan_def)
    then show ?thesis using start V Nil by (intro exI [of _ ?me] exI [of _ g] exI [of _ "[]"]) simp
  next
    case (Cons k ks')
    then have q: "q = Inr k" "walk (tables ?me t) ks'" using q by (simp_all add: set_table_def)
    have sub: "set (k # ks') \<subseteq> {k. kv_idx A t k \<noteq> {}}" unfolding Cons [symmetric] ks(2) by blast
    obtain me' g' where go: "range_loop E t choice k ?me g = Some (Inr (me', Some g'))"
      "reads A t ?me g (visited choice (k # ks')) me' g'"
      using range_loop_spec [OF r1 t g q(2) sub] by blast
    have "range_scan E t start choice me g = Inr (me', Some g')"
      using f q(1) go(1) by (simp add: range_scan_def)
    then show ?thesis
      using reads_trans [OF start go(2)] V Cons by (intro exI [of _ me'] exI [of _ g'] exI [of _ "visited choice ks"]) simp
  qed
qed

lemma first_gathers:
  assumes "t \<notin> map_tables"
    and Q: "\<And>ks. distinct ks \<Longrightarrow> set ks = {k. kv_idx A t k \<noteq> {}} \<Longrightarrow> sorted_wrt L ks \<Longrightarrow>
      set (visited choice ks) = {k. kv_idx A t k \<noteq> {} \<and> Q k}"
  shows "gathers A t L (range_scan E t (be_first (table_ops E)) choice) Q"
proof (rule scan_gathers [where P = "\<lambda>_. True", OF assms(1)])
  fix s s' q assume s: "ok s" "le s = L" "be_first (table_ops E) s = (s', q)"
  show "ok s' \<and> tbl s' = tbl s \<and> le s' = L
      \<and> (\<exists>ks. distinct ks \<and> set ks = {k \<in> dom (tbl s). True} \<and> sorted_wrt L ks
           \<and> (case ks of [] \<Rightarrow> \<exists>e. q = Inl e | k # ks' \<Rightarrow> q = Inr k \<and> walk s' ks'))"
    using first [OF s(1,3)] first_ordered [OF s(1,3)] s(2) by simp
qed (use Q in simp)

lemma from_gathers:
  assumes "t \<notin> map_tables"
    and Q: "\<And>ks. distinct ks \<Longrightarrow> set ks = {k. kv_idx A t k \<noteq> {} \<and> L b k} \<Longrightarrow> sorted_wrt L ks \<Longrightarrow>
      set (visited choice ks) = {k. kv_idx A t k \<noteq> {} \<and> Q k}"
  shows "gathers A t L (range_scan E t (\<lambda>s. be_from (table_ops E) s b) choice) Q"
proof (rule scan_gathers [where P = "L b", OF assms(1)])
  fix s s' q assume s: "ok s" "le s = L" "be_from (table_ops E) s b = (s', q)"
  show "ok s' \<and> tbl s' = tbl s \<and> le s' = L
      \<and> (\<exists>ks. distinct ks \<and> set ks = {k \<in> dom (tbl s). L b k} \<and> sorted_wrt L ks
           \<and> (case ks of [] \<Rightarrow> \<exists>e. q = Inl e | k # ks' \<Rightarrow> q = Inr k \<and> walk s' ks'))"
    using from_ordered [OF s(1,3)] s(2) by simp
qed (use Q in simp)

lemma below_gathers:
  assumes "t \<notin> map_tables" and O: "values_ordered m t L K" "b \<in> K" "{k. kv_idx A t k \<noteq> {}} \<subseteq> K"
    and inc: "inclusive \<longleftrightarrow> op \<in> {2, 9, 10}"
  shows "gathers A t L (range_scan E t (be_first (table_ops E)) (below_choice m t b inclusive)) (below_bound m t op b)"
  by (rule first_gathers [OF assms(1)])
    (use visited_below [OF O(1,2)] O(3) in \<open>auto simp: below_bound_def inc\<close>)

lemma differs_gathers:
  assumes "t \<notin> map_tables"
  shows "gathers A t L (range_scan E t (be_first (table_ops E)) (differs_choice m t b)) (\<lambda>k. \<not> value_eq m t k b)"
  by (rule first_gathers [OF assms(1)]) (auto simp: visited_differs)

lemma above_gathers:
  assumes "t \<notin> map_tables" and O: "values_ordered m t L K" "b \<in> K" "{k. kv_idx A t k \<noteq> {}} \<subseteq> K"
    and strict: "strict \<longleftrightarrow> op \<notin> {5, 8, 9}"
  shows "gathers A t L (range_scan E t (\<lambda>s. be_from (table_ops E) s b) (above_choice m t b strict)) (above_bound m t op b)"
proof (rule from_gathers [OF assms(1)])
  fix ks assume "set ks = {k. kv_idx A t k \<noteq> {} \<and> L b k}"
  moreover have "L b k \<and> \<not> (value_eq m t k b \<and> strict) \<longleftrightarrow> above_bound m t op b k" if "k \<in> K" for k
    using values_orderedD [OF O(1) that O(2)] values_orderedD [OF O(1) O(2) that] strict by (auto simp: above_bound_def)
  ultimately show "set (visited (above_choice m t b strict) ks) = {k. kv_idx A t k \<noteq> {} \<and> above_bound m t op b k}"
    using O(3) by (auto simp: visited_above)
qed

lemma value_gathers:
  assumes t: "t \<notin> map_tables" and V: "kv_idx A t b \<noteq> {}"
    and O: "values_ordered m t L K" "b \<in> K" "{k. kv_idx A t k \<noteq> {}} \<subseteq> K"
  shows "gathers A t L (range_value E t b) (\<lambda>k. value_eq m t k b)"
  unfolding gathers_def
proof (intro allI impI)
  fix me g assume r: "rep E ok tbl me A" and g: "gathering_ok g"
  obtain me' q where f: "fetch_into E t 0 b me g = Inr (me', q)" "rep E ok tbl me' A" "flags_of me' = flags_of me"
    "\<exists>g'. q = Inr g' \<and> gathering_ok g' \<and> gathered g' = take_in 0 (gathered g) (kv_idx A t b)"
    by (rule fetch_into_spec [OF r t g, of 0 b]) (use V in auto)
  then obtain g' where q: "q = Inr g'" "gathering_ok g'" "gathered g' = take_in 0 (gathered g) (kv_idx A t b)" by blast
  note T = fetch_into_tables [OF f(1)]
  have ok: "ok (tables me t)" using r by (simp add: rep_def)
  have "reads A t me g [b] me' g'"
    using f(2,3) q T V fetch_le [OF ok] by (simp add: reads_def take_in_def)
  moreover have "\<Union> (kv_idx A t ` set [b]) = {i. \<exists>k. i \<in> kv_idx A t k \<and> value_eq m t k b}"
    using values_orderedD(1) [OF O(1) _ O(2)] O(3) by auto
  moreover have "range_value E t b me g = Inr (me', Some g')" using f(1) q(1) by (simp add: range_value_def)
  ultimately show "\<exists>me' g' ks. range_value E t b me g = Inr (me', Some g') \<and> reads A t me g ks me' g'
      \<and> \<Union> (kv_idx A t ` set ks) = {i. \<exists>k. i \<in> kv_idx A t k \<and> value_eq m t k b}" by blast
qed

end

section \<open>The search over ranges\<close>

lemma meet_assoc_some: "meet (meet X (Some A)) (Some B) = meet X (Some (A \<inter> B))"
  by (cases X) auto

text \<open>The identifiers with a key that satisfies \<open>Q\<close>\<close>

definition keyed :: "kview \<Rightarrow> table \<Rightarrow> (flat_key \<Rightarrow> bool) \<Rightarrow> nat set" where
  "keyed A t Q = {i. \<exists>k. i \<in> kv_idx A t k \<and> Q k}"

definition range_given :: "'s kernel_env \<Rightarrow> RDF_Triple_Pattern \<Rightarrow> table \<Rightarrow> flat_key \<Rightarrow> flat_key \<Rightarrow> bool" where
  "range_given E tp t a b \<longleftrightarrow> (\<exists>p ps. ranges tp = p # ps \<and> range_first E (part_string p) = Some (t, a)
     \<and> (ranges_operator tp > 6 \<longrightarrow> (\<exists>p2 qs. ps = p2 # qs \<and> range_second E t (part_string p2) = Some b)))"

lemma range_given_table: "range_given E tp t a b \<Longrightarrow> t \<in> {T_xsd_integer, T_xsd_double, T_xsd_date}"
  by (auto simp: range_given_def range_first_def split: option.splits)

lemma range_given_view:
  assumes "range_given E tp t a b" and "map (snd \<circ> string_key) (ranges tp') = map (snd \<circ> string_key) (ranges tp)"
    and "ranges_operator tp' = ranges_operator tp"
  shows "range_given E tp' t a b"
proof -
  have "map part_string (ranges tp') = map part_string (ranges tp)"
  proof -
    have "map (Some \<circ> part_string) (ranges tp') = map (Some \<circ> part_string) (ranges tp)"
      using assms(2) by (simp add: string_key_def comp_def)
    then have "map the (map (Some \<circ> part_string) (ranges tp')) = map the (map (Some \<circ> part_string) (ranges tp))" by simp
    then show ?thesis by (simp add: comp_def)
  qed
  then show ?thesis
    using assms(1,3) unfolding range_given_def by (auto simp: Cons_eq_map_conv map_eq_Cons_conv)
qed

context range_kernel
begin

definition tree_of :: "table \<Rightarrow> (flat_key \<Rightarrow> flat_key \<Rightarrow> bool) \<Rightarrow> table \<Rightarrow> 's \<Rightarrow> bool" where
  "tree_of t L u s \<longleftrightarrow> ok s \<and> (u = t \<longrightarrow> le s = L)"

lemma tree_kept: "fetch_keeps E (tree_of t L)"
proof -
  have "ok (fst (be_fetch (table_ops E) s k))" if "ok s" for s k
    using fetch [OF that, of k] by (metis prod.collapse)
  then show ?thesis using fetch_le by (simp add: fetch_keeps_def tree_of_def)
qed

lemma range_join_restricts:
  assumes G: "gathers A t L G Q"
  shows "restricts (searching E ok tbl (tree_of t L) A fl tp) (range_join G) (Some (keyed A t Q))"
  unfolding restricts_def
proof (intro allI impI)
  fix S X assume P: "searching E ok tbl (tree_of t L) A fl tp S" and X: "joined S X"
  let ?g = "\<lparr>g_bits = bits2 S, g_size = 0, g_tmp = bits1 S\<rparr>"
  have r: "rep E ok tbl (store_of S) A" and le: "le (tables (store_of S) t) = L"
    using P by (simp_all add: searching_def tree_of_def)
  obtain me' g' ks where go: "G (store_of S) ?g = Inr (me', Some g')" and re: "reads A t (store_of S) ?g ks me' g'"
    and Y: "\<Union> (kv_idx A t ` set ks) = keyed A t Q"
    using G r gathering_start [of "bits2 S" "bits1 S"] le unfolding gathers_def keyed_def by blast
  have g': "gathering_ok g'" "gathered g' = keyed A t Q"
    using re Y gathering_start(2) [of "bits2 S" "bits1 S"] by (simp_all add: reads_def)
  let ?S = "S\<lparr>store_of := me'\<rparr>"
  have X': "joined ?S X" using X by (cases X) (simp_all add: joined_def)
  obtain S' r' where N: "join join_first g' ?S = (S', r')" "store_of S' = store_of ?S" "pattern_of S' = pattern_of ?S"
    "meet X (Some (gathered g')) = Some {} \<Longrightarrow> r' = Some Search_empty"
    "meet X (Some (gathered g')) \<noteq> Some {} \<Longrightarrow> r' = None \<and> joined S' (meet X (Some (gathered g')))"
    by (rule join_spec [OF g'(1) X', of join_first]) blast+
  have "range_join G S = Inr (S', r')" using go N(1) by (simp add: range_join_def Let_def)
  moreover have "tree_of t L u (tables me' u)" for u
    using re le P by (cases "u = t") (auto simp: reads_def searching_def tree_of_def rep_def)
  then have "searching E ok tbl (tree_of t L) A fl tp S'"
    using re P N(2,3) by (simp add: searching_def reads_def)
  ultimately show "\<exists>S' r. range_join G S = Inr (S', r) \<and> searching E ok tbl (tree_of t L) A fl tp S'
      \<and> (if meet X (Some (keyed A t Q)) = Some {} then r = Some Search_empty
         else r = None \<and> joined S' (meet X (Some (keyed A t Q))))"
    using N(4,5) g'(2) by (intro exI [of _ S'] exI [of _ r']) auto
qed

lemma search_ranges_restricts:
  assumes given: "range_given E tp t a b" and op: "ranges_operator tp = op" "op \<noteq> 0" "op \<le> 10"
    and O: "values_ordered m t L K" "a \<in> K" "b \<in> K" "{k. kv_idx A t k \<noteq> {}} \<subseteq> K"
    and three: "op = 3 \<Longrightarrow> kv_idx A t a \<noteq> {}"
  shows "restricts (searching E ok tbl (tree_of t L) A fl tp) (search_ranges m E)
    (Some (if op > 6 then keyed A t (above_bound m t op a) \<inter> keyed A t (below_bound m t op b)
           else keyed A t (in_range m t op a b)))"
proof -
  have t: "t \<notin> map_tables" using range_given_table [OF given] by (auto simp: map_tables_def)
  note R = range_join_restricts
  let ?P = "searching E ok tbl (tree_of t L) A fl tp"
  let ?above = "range_join (range_scan E t (\<lambda>s. be_from (table_ops E) s a) (above_choice m t a (op = 7 \<or> op = 10)))"
  let ?below = "range_join (range_scan E t (be_first (table_ops E)) (below_choice m t b (op = 9 \<or> op = 10)))"
  define step where "step =
    (if op > 6 then search_steps [?above, ?below]
     else if op = 1 \<or> op = 2 then range_join (range_scan E t (be_first (table_ops E)) (below_choice m t a (op = 2)))
     else if op = 3 then range_join (range_value E t a)
     else if op = 4 then range_join (range_scan E t (be_first (table_ops E)) (differs_choice m t a))
     else range_join (range_scan E t (\<lambda>s. be_from (table_ops E) s a) (above_choice m t a (op = 6))))"
  have steps: "restricts ?P step (Some (if op > 6 then keyed A t (above_bound m t op a) \<inter> keyed A t (below_bound m t op b)
      else keyed A t (in_range m t op a b)))"
  proof (cases "op > 6")
    case True
    then have "op \<in> {7, 8, 9, 10}" using op(3) by auto
    then have "gathers A t L (range_scan E t (\<lambda>s. be_from (table_ops E) s a) (above_choice m t a (op = 7 \<or> op = 10))) (above_bound m t op a)"
      and "gathers A t L (range_scan E t (be_first (table_ops E)) (below_choice m t b (op = 9 \<or> op = 10))) (below_bound m t op b)"
      by (intro above_gathers [OF t O(1,2,4)] below_gathers [OF t O(1,3,4)]; auto)+
    note two = R [OF this(1), of fl tp] R [OF this(2), of fl tp]
    have "restricts ?P (search_steps [?above, ?below]) (Some (keyed A t (above_bound m t op a) \<inter> keyed A t (below_bound m t op b)))"
      unfolding restricts_def
    proof (intro allI impI)
      fix S X assume "?P S" "joined S X"
      moreover have "list_all2 (restricts ?P) [?above, ?below] [Some (keyed A t (above_bound m t op a)), Some (keyed A t (below_bound m t op b))]"
        using two by simp
      ultimately show "\<exists>S' r. search_steps [?above, ?below] S = Inr (S', r) \<and> ?P S'
          \<and> (if meet X (Some (keyed A t (above_bound m t op a) \<inter> keyed A t (below_bound m t op b))) = Some {} then r = Some Search_empty
             else r = None \<and> joined S' (meet X (Some (keyed A t (above_bound m t op a) \<inter> keyed A t (below_bound m t op b)))))"
        using search_steps_spec [of ?P "[?above, ?below]" _ S X] by (metis meet_assoc_some meets.simps)
    qed
    then show ?thesis using True by (simp add: step_def)
  next
    case False
    then consider "op = 1 \<or> op = 2" | "op = 3" | "op = 4" | "op = 5 \<or> op = 6" using op(2) by linarith
    then show ?thesis
    proof cases
      case 1
      then have "gathers A t L (range_scan E t (be_first (table_ops E)) (below_choice m t a (op = 2))) (in_range m t op a b)"
        using below_gathers [OF t O(1,2,4), of "op = 2" op] by (auto simp: in_range_def [abs_def])
      then show ?thesis using R 1 by (auto simp: step_def)
    next
      case 2
      then have "gathers A t L (range_value E t a) (in_range m t op a b)"
        using value_gathers [OF t three O(1,2,4)] by (auto simp: in_range_def [abs_def])
      then show ?thesis using R 2 by (auto simp: step_def)
    next
      case 3
      then have "gathers A t L (range_scan E t (be_first (table_ops E)) (differs_choice m t a)) (in_range m t op a b)"
        using differs_gathers [OF t, of A L m a] by (auto simp: in_range_def [abs_def])
      then show ?thesis using R 3 by (auto simp: step_def)
    next
      case 4
      then have "gathers A t L (range_scan E t (\<lambda>s. be_from (table_ops E) s a) (above_choice m t a (op = 6))) (in_range m t op a b)"
        using above_gathers [OF t O(1,2,4), of "op = 6" op] by (auto simp: in_range_def [abs_def])
      then show ?thesis using R 4 by (auto simp: step_def)
    qed
  qed
  have "search_ranges m E S = step S" if "?P S" for S
  proof -
    note V = searching_view(8,16) [OF that]
    have "range_given E (pattern_of S) t a b" by (rule range_given_view [OF given V])
    then obtain p ps where p: "ranges (pattern_of S) = p # ps" "range_first E (part_string p) = Some (t, a)"
      "op > 6 \<Longrightarrow> \<exists>p2 qs. ps = p2 # qs \<and> range_second E t (part_string p2) = Some b"
      using op(1) V(2) unfolding range_given_def by auto
    show ?thesis
      using p op V(2) by (auto simp: search_ranges_def step_def Let_def)
  qed
  then show ?thesis using steps unfolding restricts_def by metis
qed

end

lemma index_keys_unique:
  assumes ix: "indexable E (object st)" and t: "t \<in> {T_xsd_integer, T_xsd_double, T_xsd_date}"
    and "(t, k) \<in> set (index_keys E st ctx)" and "(t, k') \<in> set (index_keys E st ctx)"
  shows "k = k'"
proof -
  let ?its = "object_items E False (object st)"
  have "t \<notin> {T_subjects, T_predicates, T_objects, T_contexts}" using t by auto
  then have "Item t k \<in> set ?its" "Item t k' \<in> set ?its"
    using assms(3,4) index_keys_item [OF ix] by blast+
  moreover have "inj_on (fst \<circ> item_key) (set ?its)"
    using object_parts [OF ix] unfolding parts_in_def by (metis distinct_map)
  ultimately have "Item t k = Item t k'" by (elim inj_onD) simp_all
  then show ?thesis by simp
qed

definition has_value :: "'s kernel_env \<Rightarrow> table \<Rightarrow> (flat_key \<Rightarrow> bool) \<Rightarrow> RDF_Statement \<Rightarrow> resource option \<Rightarrow> bool" where
  "has_value E t Q st ctx \<longleftrightarrow> (\<exists>k. (t, k) \<in> set (index_keys E st ctx) \<and> Q k)"

lemma keyed_asked:
  assumes "contents E A n M" and "t \<in> {T_xsd_integer, T_xsd_double, T_xsd_date}"
  shows "Some (keyed A t Q) = asked M False (has_value E t Q)"
proof -
  have "t \<notin> map_tables" "t \<noteq> T_windex" using assms(2) by (auto simp: map_tables_def)
  from kv_idx_found [OF assms(1) this] show ?thesis
    by (auto simp: keyed_def asked_def has_value_def)
qed

lemma keyed_both:
  assumes c: "contents E A n M" and ix: "\<forall>(st, ctx)\<in>ran M. indexable E (object st)"
    and t: "t \<in> {T_xsd_integer, T_xsd_double, T_xsd_date}"
  shows "keyed A t P \<inter> keyed A t Q = keyed A t (\<lambda>k. P k \<and> Q k)"
proof -
  have tt: "t \<notin> map_tables" "t \<noteq> T_windex" using t by (auto simp: map_tables_def)
  have "k = k'" if k: "i \<in> kv_idx A t k" "i \<in> kv_idx A t k'" for i k k'
  proof -
    obtain st ctx st' ctx' where "M i = Some (st, ctx)" "(t, k) \<in> set (index_keys E st ctx)"
      "M i = Some (st', ctx')" "(t, k') \<in> set (index_keys E st' ctx')"
      using k kv_idx_found [OF c tt] by blast
    moreover have "indexable E (object st)" using ix calculation(1) by (fastforce simp: ran_def)
    ultimately show ?thesis using index_keys_unique [OF _ t] by fastforce
  qed
  then show ?thesis unfolding keyed_def by blast
qed

text \<open>The keys of \<open>t\<close> among the statements\<close>

definition values_in :: "'s kernel_env \<Rightarrow> statements \<Rightarrow> table \<Rightarrow> flat_key set" where
  "values_in E M t = {k. \<exists>(st, ctx)\<in>ran M. (t, k) \<in> set (index_keys E st ctx)}"

section \<open>Properties\<close>


section \<open>Berkeley DB trees\<close>

text \<open>
  What the documentation says of the order: \<open>DB_FIRST\<close> gives the least key, \<open>DB_SET_RANGE\<close> the
  least one not below a key, \<open>DB_NEXT\<close> the next one, in the order the tree was opened with.
\<close>

definition db_order_laws ::
  "'s db \<Rightarrow> ('s \<Rightarrow> bool) \<Rightarrow> ('s \<Rightarrow> flat_key \<Rightarrow> flat_data option) \<Rightarrow> ('s \<Rightarrow> flat_key list \<Rightarrow> bool)
    \<Rightarrow> ('s \<Rightarrow> flat_key \<Rightarrow> flat_key \<Rightarrow> bool) \<Rightarrow> bool"
where
  "db_order_laws D ok tbl walk le \<longleftrightarrow>
     (\<forall>s. ok s \<longrightarrow> le (fst (c_get_first D s)) = le s
        \<and> (\<exists>ks. distinct ks \<and> set ks = dom (tbl s) \<and> sorted_wrt (le s) ks
             \<and> (case ks of [] \<Rightarrow> \<exists>e. snd (c_get_first D s) = Inl e
                | k # ks' \<Rightarrow> snd (c_get_first D s) = Inr k \<and> walk (fst (c_get_first D s)) ks')))
   \<and> (\<forall>s ks. ok s \<longrightarrow> walk s ks \<longrightarrow> le (fst (c_get_next D s)) = le s)
   \<and> (\<forall>s b. ok s \<longrightarrow> ok (fst (c_get_range D s b)) \<and> tbl (fst (c_get_range D s b)) = tbl s \<and> le (fst (c_get_range D s b)) = le s
        \<and> (\<exists>ks. distinct ks \<and> set ks = {k \<in> dom (tbl s). le s b k} \<and> sorted_wrt (le s) ks
             \<and> (case ks of [] \<Rightarrow> \<exists>e. snd (c_get_range D s b) = Inl e
                | k # ks' \<Rightarrow> snd (c_get_range D s b) = Inr k \<and> walk (fst (c_get_range D s b)) ks')))"

lemma bdb_range_kernel:
  assumes D: "db_laws D ok tbl walk" and O: "db_order_laws D ok tbl walk le" and E: "over_bdb D E"
    and C: "codec_laws (func_decode E) (func_encode E)"
  shows "range_kernel E ok tbl walk le"
proof (intro range_kernel.intro ordered_cursor.intro ordered_cursor_axioms.intro)
  have B: "table_ops E = backend_bdb D" using E by (simp add: over_bdb_def)
  show "kernel E ok tbl" by (rule bdb_kernel [OF D E C])
  show "flat_cursor (table_ops E) ok tbl walk" unfolding B by (rule bdb_flat_cursor [OF D])
  show "le (fst (be_fetch (table_ops E) s k)) = le s" for s k
    by (simp add: B backend_bdb_def backend_bdb_fetch_def split: sum.split)
  show "le (fst (be_next (table_ops E) s k)) = le s" if "ok s" "walk s ks" for s ks k
  proof -
    have "be_next (table_ops E) s k = c_get_next D s" by (simp add: B backend_bdb_def backend_bdb_next_def)
    then show ?thesis using O that unfolding db_order_laws_def by metis
  qed
next
  fix s s' q assume s: "ok s" and f: "be_first (table_ops E) s = (s', q)"
  have eq: "s' = fst (c_get_first D s)" "q = snd (c_get_first D s)"
    using f E by (simp_all add: over_bdb_def backend_bdb_def backend_bdb_first_def)
  show "le s' = le s \<and> (\<exists>ks. distinct ks \<and> set ks = dom (tbl s) \<and> sorted_wrt (le s) ks
           \<and> (case ks of [] \<Rightarrow> \<exists>e. q = Inl e | k # ks' \<Rightarrow> q = Inr k \<and> walk s' ks'))"
    unfolding eq using O s unfolding db_order_laws_def by blast
next
  fix s s' b q assume s: "ok s" and f: "be_from (table_ops E) s b = (s', q)"
  have eq: "s' = fst (c_get_range D s b)" "q = snd (c_get_range D s b)"
    using f E by (simp_all add: over_bdb_def backend_bdb_def backend_bdb_from_def)
  show "ok s' \<and> tbl s' = tbl s \<and> le s' = le s
      \<and> (\<exists>ks. distinct ks \<and> set ks = {k \<in> dom (tbl s). le s b k} \<and> sorted_wrt (le s) ks
           \<and> (case ks of [] \<Rightarrow> \<exists>e. q = Inl e | k # ks' \<Rightarrow> q = Inr k \<and> walk s' ks'))"
    unfolding eq using O s unfolding db_order_laws_def by blast
qed

text \<open>The pairs of \<open>memdb\<close>, with a cursor in the order of the keys\<close>

definition cursor_over :: "(flat_key \<times> flat_data) list \<Rightarrow> flat_key list \<Rightarrow> ((flat_key \<times> flat_data) list \<times> flat_key list) \<times> (int + flat_key)" where
  "cursor_over ps ks = (case ks of [] \<Rightarrow> ((ps, []), Inl (- 30988)) | k # ks' \<Rightarrow> ((ps, ks'), Inr k))"

definition sorted_memdb :: "((flat_key \<times> flat_data) list \<times> flat_key list) db" where
  "sorted_memdb = memdb
     \<lparr>c_get_first := (\<lambda>s. cursor_over (fst s) (sort (map fst (fst s)))),
      c_get_range := (\<lambda>s b. cursor_over (fst s) (sort (filter (\<lambda>k. b \<le> k) (map fst (fst s)))))\<rparr>"

lemma cursor_over_simps:
  "fst (fst (cursor_over ps ks)) = ps"
  "case ks of [] \<Rightarrow> \<exists>e. snd (cursor_over ps ks) = Inl e
     | k # ks' \<Rightarrow> snd (cursor_over ps ks) = Inr k \<and> snd (fst (cursor_over ps ks)) = ks'"
  by (cases ks; simp add: cursor_over_def)+

lemma sorted_memdb_cursor:
  "c_get_first sorted_memdb s = cursor_over (fst s) (sort (map fst (fst s)))"
  "c_get_range sorted_memdb s b = cursor_over (fst s) (sort (filter (\<lambda>k. b \<le> k) (map fst (fst s))))"
  by (simp_all add: sorted_memdb_def)

lemma sorted_memdb_laws: "db_laws sorted_memdb mem_ok mem_tbl (\<lambda>s ks. snd s = ks)"
  unfolding db_laws_def
proof (intro conjI allI impI)
  fix s :: "(flat_key \<times> flat_data) list \<times> flat_key list"
  assume d: "mem_ok s"
  show "\<exists>ks. distinct ks \<and> set ks = dom (mem_tbl s)
      \<and> (case ks of [] \<Rightarrow> \<exists>e. snd (c_get_first sorted_memdb s) = Inl e
         | k # ks' \<Rightarrow> snd (c_get_first sorted_memdb s) = Inr k \<and> snd (fst (c_get_first sorted_memdb s)) = ks')"
    unfolding sorted_memdb_cursor
    by (rule exI [of _ "sort (map fst (fst s))"])
      (use d cursor_over_simps(2) in \<open>simp add: dom_map_of_conv_image_fst\<close>)
qed (auto simp: sorted_memdb_def memdb_def cursor_over_simps distinct_update distinct_delete update_conv' delete_conv' split: list.splits option.splits)

lemma sorted_memdb_order: "db_order_laws sorted_memdb mem_ok mem_tbl (\<lambda>s ks. snd s = ks) (\<lambda>s. (\<le>))"
proof -
  have "set (sort (filter (\<lambda>k. b \<le> k) (map fst (fst s)))) = {k \<in> dom (mem_tbl s). b \<le> k}"
    "set (sort (map fst (fst s))) = dom (mem_tbl s)"
    for s :: "(flat_key \<times> flat_data) list \<times> flat_key list" and b
    by (auto simp: dom_map_of_conv_image_fst)
  note sets = this
  show ?thesis
    unfolding db_order_laws_def
  proof (intro conjI allI impI)
    fix s b assume ok: "mem_ok s"
    show "\<exists>ks. distinct ks \<and> set ks = dom (mem_tbl s) \<and> sorted_wrt (\<le>) ks
        \<and> (case ks of [] \<Rightarrow> \<exists>e. snd (c_get_first sorted_memdb s) = Inl e
           | k # ks' \<Rightarrow> snd (c_get_first sorted_memdb s) = Inr k \<and> snd (fst (c_get_first sorted_memdb s)) = ks')"
      unfolding sorted_memdb_cursor
      by (rule exI [of _ "sort (map fst (fst s))"]) (use ok sets cursor_over_simps(2) in simp)
    show "\<exists>ks. distinct ks \<and> set ks = {k \<in> dom (mem_tbl s). b \<le> k} \<and> sorted_wrt (\<le>) ks
        \<and> (case ks of [] \<Rightarrow> \<exists>e. snd (c_get_range sorted_memdb s b) = Inl e
           | k # ks' \<Rightarrow> snd (c_get_range sorted_memdb s b) = Inr k \<and> snd (fst (c_get_range sorted_memdb s b)) = ks')"
      unfolding sorted_memdb_cursor
      by (rule exI [of _ "sort (filter (\<lambda>k. b \<le> k) (map fst (fst s)))"])
        (use ok sets cursor_over_simps(2) in \<open>simp add: distinct_filter\<close>)
    show "mem_ok (fst (c_get_range sorted_memdb s b))" "mem_tbl (fst (c_get_range sorted_memdb s b)) = mem_tbl s"
      using ok by (simp_all add: sorted_memdb_def cursor_over_simps)
  qed simp_all
qed

text \<open>The store over it, whose numbers are the strings of digits\<close>

definition number_env :: "((flat_key \<times> flat_data) list \<times> flat_key list) kernel_env" where
  "number_env = mem_env
     \<lparr>table_ops := backend_bdb sorted_memdb, fetch_compressed := backend_bdb_fetch_compressed sorted_memdb,
      store_compressed := backend_bdb_store_compressed sorted_memdb,
      deserialize_integer := (\<lambda>s. if s \<noteq> [] \<and> (\<forall>c\<in>set s. 48 \<le> c \<and> c \<le> 57) then Some s else None)\<rparr>"

definition number_machine :: "machine \<Rightarrow> machine" where
  "number_machine m = m\<lparr>long_at := (\<lambda>k. foldl (\<lambda>n c. 10 * n + (uint c - 48)) 0 k)\<rparr>"

interpretation number_kernel: range_kernel number_env mem_ok mem_tbl "\<lambda>s ks. snd s = ks" "\<lambda>s. (\<le>)"
  by (rule bdb_range_kernel [OF sorted_memdb_laws sorted_memdb_order])
    (simp_all add: over_bdb_def number_env_def mem_env_def codec_bcopy)

lemma number_env_simps [simp]:
  "func_decode number_env = func_decode mem_env" "sha1 number_env = sha1 mem_env"
  by (simp_all add: number_env_def)

lemma new_store_number: "store_holds number_env mem_ok mem_tbl new_store 0 Map.empty"
proof -
  obtain A where r: "rep mem_env mem_ok mem_tbl new_store A" and c: "contents mem_env A 0 Map.empty"
    using new_store_holds by (auto simp: store_holds_def)
  have "coded number_env = coded mem_env" by (simp add: coded_def fun_eq_iff)
  then have "rep number_env mem_ok mem_tbl new_store A" using r unfolding rep_def index_rep_def by metis
  moreover have "contents number_env A 0 Map.empty" using c by (simp add: contents_def found_under_def)
  ultimately show ?thesis unfolding store_holds_def by blast
qed

lemma number_indexable: "indexable number_env (object sample_statement)" "parse_type_ok (object sample_statement)"
  by (simp_all add: indexable_def object_items_plain sample_statement_def lang_items_def type_items_def number_items_def
      number_env_def mem_env_def bytes_of_def opt_bytes_def Let_def RDFSTORE_MS_XSD_DATE_def RDFSTORE_MS_XSD_DATETIME_def
      is_item_def parse_type_ok_def RDFSTORE_RDF_PARSETYPE_LITERAL_def)

lemma number_inserted:
  obtains me where "store_holds number_env mem_ok mem_tbl me 1 [0 \<mapsto> (the_sample, None)]"
proof -
  obtain A where r: "rep number_env mem_ok mem_tbl new_store A" and c: "contents number_env A 0 Map.empty"
    using new_store_number by (auto simp: store_holds_def)
  have ctx: "None = effective_context new_store the_sample None" by (simp add: effective_context_def new_store_def)
  obtain me st' where "rep number_env mem_ok mem_tbl me (new_view number_env the_sample None 0 A)"
    by (rule number_kernel.insert_stored [OF r c _ _ _ _ ctx])
      (use number_indexable in \<open>simp_all add: new_store_def RDFSTORE_MAXRECORDS_def\<close>)
  moreover have "contents number_env (new_view number_env the_sample None 0 A) (Suc 0) (Map.empty(0 \<mapsto> (plain the_sample, None)))"
    by (rule contents_insert [OF c]) (simp_all add: RDFSTORE_MAXRECORDS_def)
  ultimately show thesis using that unfolding store_holds_def by auto
qed

definition range_pattern :: "nat \<Rightarrow> byte list list \<Rightarrow> RDF_Triple_Pattern" where
  "range_pattern op bs = rdfstore_triple_pattern_new\<lparr>ranges := map String_part bs, ranges_operator := op\<rparr>"

lemma range_pattern_simps [simp]:
  "subjects (range_pattern op bs) = []" "predicates (range_pattern op bs) = []" "objects (range_pattern op bs) = []"
  "contexts (range_pattern op bs) = []" "langs (range_pattern op bs) = []" "dts (range_pattern op bs) = []"
  "words (range_pattern op bs) = []" "ranges (range_pattern op bs) = map String_part bs"
  "subjects_operator (range_pattern op bs) = 0"
  "predicates_operator (range_pattern op bs) = 0" "objects_operator (range_pattern op bs) = 0"
  "contexts_operator (range_pattern op bs) = 0" "langs_operator (range_pattern op bs) = 0"
  "dts_operator (range_pattern op bs) = 0" "words_operator (range_pattern op bs) = 0"
  "ranges_operator (range_pattern op bs) = op"
  by (simp_all add: range_pattern_def rdfstore_triple_pattern_new_def)

lemma number_keys: "(T_xsd_integer, k) \<in> set (index_keys number_env the_sample None) \<longleftrightarrow> k = bytes_of ''42''"
proof -
  have "set (index_keys number_env the_sample None) \<inter> {T_xsd_integer} \<times> UNIV = {(T_xsd_integer, bytes_of ''42'')}"
    by (auto simp: index_keys_def node_keys_def context_keys_def the_sample_def plain_def object_items_plain sample_statement_def lang_items_def type_items_def
        number_items_def number_env_def mem_env_def bytes_of_def opt_bytes_def Let_def RDFSTORE_MS_XSD_DATE_def
        RDFSTORE_MS_XSD_DATETIME_def is_item_def)
  then show ?thesis by blast
qed

lemma number_values: "values_in number_env [0 \<mapsto> (the_sample, None)] T_xsd_integer = {bytes_of ''42''}"
  by (simp add: values_in_def number_keys)

lemma number_order:
  "values_ordered (number_machine m) T_xsd_integer (\<le>) {bytes_of ''42'', bytes_of ''10'', bytes_of ''50''}"
  unfolding values_ordered_def
  by (simp add: number_machine_def value_eq_def value_gt_def bytes_of_def)


end
