(* ===== verification/Utf8.thy ===== *)
theory Utf8
  imports Foldtable
begin

text \<open>
  \<open>rdfstore_utf8.c\<close>: the encoding of code points, the test of a character, and the conversion
  and case folding of strings. A string is the memory it lies in, with its terminating zero and
  whatever comes after; a read behind that memory, and behind the table of masks, is a fault.
  Code points are \<open>unsigned long\<close>, of 64 bits.
\<close>

section \<open>Characters\<close>

datatype utf8_fault = Utf8_read | Utf8_mask

definition utf8_at :: "byte list \<Rightarrow> nat \<Rightarrow> utf8_fault + byte" where
  "utf8_at m i = (if i < length m then Inr (m ! i) else Inl Utf8_read)"

definition rdfstore_utf8_toskip :: "nat list" where
  "rdfstore_utf8_toskip =
     replicate 64 1 @ replicate 64 1 @ replicate 64 1 @ replicate 32 2 @ replicate 16 3
     @ [4, 4, 4, 4, 4, 4, 4, 4, 5, 5, 5, 5, 6, 6]"

definition rdfstore_utf8_mask :: "byte list" where
  "rdfstore_utf8_mask = [0, 0x7f, 0x1f, 0x0f, 0x07, 0x03, 0x01]"

text \<open>
  The bytes written to \<open>outbuff\<close> and counted in \<open>len\<close>; \<open>given\<close> tells whether neither pointer
  is null.
\<close>

definition rdfstore_utf8_cp_to_utf8 :: "bool \<Rightarrow> code_point \<Rightarrow> int + byte list" where
  "rdfstore_utf8_cp_to_utf8 given c =
     (if \<not> given then Inl (- 1)
      else Inr (map ucast
        (if c < 0x80 then [c]
         else if c < 0x800 then [0xc0 OR drop_bit 6 c, 0x80 OR (c AND 0x3f)]
         else if c < 0x10000 then
           [0xe0 OR drop_bit 12 c, 0x80 OR (drop_bit 6 c AND 0x3f), 0x80 OR (c AND 0x3f)]
         else if c < 0x200000 then
           [0xf0 OR drop_bit 18 c, 0x80 OR (drop_bit 12 c AND 0x3f), 0x80 OR (drop_bit 6 c AND 0x3f),
            0x80 OR (c AND 0x3f)]
         else if c < 0x4000000 then
           [0xf8 OR drop_bit 24 c, 0x80 OR (drop_bit 18 c AND 0x3f), 0x80 OR (drop_bit 12 c AND 0x3f),
            0x80 OR (drop_bit 6 c AND 0x3f), 0x80 OR (c AND 0x3f)]
         else if c < 0x80000000 then
           [0xfc OR drop_bit 30 c, 0x80 OR (drop_bit 24 c AND 0x3f), 0x80 OR (drop_bit 18 c AND 0x3f),
            0x80 OR (drop_bit 12 c AND 0x3f), 0x80 OR (drop_bit 6 c AND 0x3f), 0x80 OR (c AND 0x3f)]
         else
           [0xfe, (drop_bit 30 c AND 0x3f) OR 0x80, (drop_bit 24 c AND 0x3f) OR 0x80,
            (drop_bit 18 c AND 0x3f) OR 0x80, (drop_bit 12 c AND 0x3f) OR 0x80,
            (drop_bit 6 c AND 0x3f) OR 0x80, (c AND 0x3f) OR 0x80])))"

text \<open>The encoding of a code point\<close>

definition utf8_bytes :: "code_point \<Rightarrow> byte list" where
  "utf8_bytes c = (case rdfstore_utf8_cp_to_utf8 True c of Inl e \<Rightarrow> [] | Inr bs \<Rightarrow> bs)"

lemma cp_to_utf8_given [simp]: "rdfstore_utf8_cp_to_utf8 True c = Inr (utf8_bytes c)"
  by (simp add: utf8_bytes_def rdfstore_utf8_cp_to_utf8_def)

text \<open>The return code, and what is in \<open>cp\<close> then\<close>

fun cp_loop :: "byte list \<Rightarrow> code_point \<Rightarrow> int \<times> code_point" where
  "cp_loop [] cp = (0, cp)"
| "cp_loop (x # xs) cp =
     (if x AND 0xc0 \<noteq> 0x80 then (- 1, cp)
      else cp_loop xs (push_bit 6 cp OR ucast (x AND 0x3f)))"

definition rdfstore_utf8_utf8_to_cp :: "nat \<Rightarrow> byte list \<Rightarrow> code_point \<Rightarrow> utf8_fault + int \<times> code_point" where
  "rdfstore_utf8_utf8_to_cp inlen buf cp =
     (if inlen = 0 then Inr (- 1, cp)
      else if \<not> inlen < length rdfstore_utf8_mask then Inl Utf8_mask
      else bindE (utf8_at buf 0) (\<lambda>x.
        if length buf < inlen then Inl Utf8_read
        else Inr (cp_loop (drop 1 (take inlen buf)) (ucast (x AND rdfstore_utf8_mask ! inlen)))))"

text \<open>The loop over the bytes that follow the first; \<open>None\<close> is a return of zero.\<close>

fun is_utf8_loop :: "byte list \<Rightarrow> nat \<Rightarrow> nat \<Rightarrow> code_point \<Rightarrow> utf8_fault + code_point option" where
  "is_utf8_loop m p 0 b = Inr (Some b)"
| "is_utf8_loop m p (Suc ll) b =
     bindE (utf8_at m p) (\<lambda>x.
       if \<not> (x \<ge> 0x80 \<and> x \<le> 0xbf) then Inr None
       else let b' = push_bit 6 b OR ucast (x AND 0x3f)
            in if b' < b then Inr None else is_utf8_loop m (p + 1) ll b')"

text \<open>The answer for the bytes from \<open>p\<close> on, and \<open>len\<close>\<close>

definition rdfstore_utf8_is_utf8 :: "byte list \<Rightarrow> nat \<Rightarrow> utf8_fault + bool \<times> nat" where
  "rdfstore_utf8_is_utf8 m p =
     bindE (utf8_at m p) (\<lambda>a.
       if a < 0x80 then Inr (True, 1)
       else if \<not> (a \<ge> 0xc0 \<and> a \<le> 0xfd) then Inr (False, 0)
       else
         let len = rdfstore_utf8_toskip ! unat a
         in if len < 2 then Inr (False, len)
            else bindE (utf8_at m (p + 1)) (\<lambda>a1.
              if \<not> (a1 \<ge> 0x80 \<and> a1 \<le> 0xbf) then Inr (False, len)
              else bindE (is_utf8_loop m (p + 1) (len - 1)
                  (ucast (a AND (if len \<ge> 7 then 0 else drop_bit (len - 2) 0x1f)))) (\<lambda>r.
                case r of None \<Rightarrow> Inr (False, len)
                | Some b \<Rightarrow>
                    let c = (if b < 0x80 then 1 else if b < 0x800 then 2 else if b < 0x10000 then 3
                             else if b < 0x200000 then 4 else if b < 0x4000000 then 5
                             else if b < 0x80000000 then 6 else 7 :: nat)
                    in Inr (\<not> c < len, len))))"

section \<open>Strings\<close>

text \<open>
  What both conversions do at a position: the step, and the bytes of the character in
  \<open>utf8_buff\<close>, \<open>Inl\<close> the code returned when it cannot be converted.
\<close>

definition utf8_char :: "byte list \<Rightarrow> nat \<Rightarrow> utf8_fault + int + nat \<times> byte list" where
  "utf8_char m i =
     bindE (rdfstore_utf8_is_utf8 m i) (\<lambda>(valid, utf8_size).
       if \<not> valid then
         bindE (utf8_at m i) (\<lambda>x.
           case rdfstore_utf8_cp_to_utf8 True (ucast x) of
             Inl e \<Rightarrow> Inr (Inl (- 1)) | Inr buf \<Rightarrow> Inr (Inr (1, buf)))
       else if length m < i + utf8_size then Inl Utf8_read
       else Inr (Inr (utf8_size, take utf8_size (drop i m))))"

text \<open>The chain of comparisons: every call of a branch writes from the start of the buffer.\<close>

definition fold_char :: "code_point \<Rightarrow> byte list \<Rightarrow> byte list" where
  "fold_char cp buf = (case map_of fold_table (uint cp) of
     None \<Rightarrow> buf
   | Some cs \<Rightarrow> foldl (\<lambda>buf c. case rdfstore_utf8_cp_to_utf8 True (of_int c) of Inl e \<Rightarrow> buf | Inr buf' \<Rightarrow> buf') buf cs)"

definition fold_step :: "byte list \<Rightarrow> nat \<Rightarrow> utf8_fault + int + nat \<times> byte list" where
  "fold_step m i =
     bindE (utf8_char m i) (\<lambda>r. case r of
       Inl e \<Rightarrow> Inr (Inl e)
     | Inr (step, buf) \<Rightarrow>
         bindE (rdfstore_utf8_utf8_to_cp (length buf) buf 0) (\<lambda>(e, cp).
           Inr (Inr (step, fold_char cp buf))))"

text \<open>A step is at least one byte, so the loops end.\<close>

lemma is_utf8_positive: "rdfstore_utf8_is_utf8 m i = Inr (True, n) \<Longrightarrow> 0 < n"
  by (rule ccontr) (auto simp: rdfstore_utf8_is_utf8_def bindE_Inr_iff Let_def split: if_splits option.splits)

lemma utf8_char_positive: "utf8_char m i = Inr (Inr (step, buf)) \<Longrightarrow> 0 < step"
  by (auto simp: utf8_char_def bindE_Inr_iff is_utf8_positive split: if_splits sum.splits)

lemma fold_step_positive: "fold_step m i = Inr (Inr (step, buf)) \<Longrightarrow> 0 < step"
  unfolding fold_step_def bindE_Inr_iff
proof (elim exE conjE)
  fix r assume "utf8_char m i = Inr r"
    and "(case r of Inl e \<Rightarrow> Inr (Inl e)
      | Inr (step, buf) \<Rightarrow> bindE (rdfstore_utf8_utf8_to_cp (length buf) buf 0) (\<lambda>(e, cp). Inr (Inr (step, fold_char cp buf))))
     = Inr (Inr (step, buf))"
  then show "0 < step" by (cases r) (auto simp: bindE_Inr_iff utf8_char_positive)
qed

text \<open>The loop of \<open>rdfstore_utf8_string_to_utf8_foldedcase\<close>, and without \<open>foldit\<close> that of the other\<close>

function (sequential) utf8_loop ::
  "bool \<Rightarrow> nat \<Rightarrow> byte list \<Rightarrow> nat \<Rightarrow> byte list \<Rightarrow> utf8_fault + int + byte list"
where
  "utf8_loop foldit insize m i out =
     (if \<not> i < insize then Inr (Inr out)
      else case (if foldit then fold_step m i else utf8_char m i) of
        Inl e \<Rightarrow> Inl e
      | Inr (Inl e) \<Rightarrow> Inr (Inl e)
      | Inr (Inr (step, buf)) \<Rightarrow> utf8_loop foldit insize m (i + step) (out @ buf))"
  by pat_completeness auto
termination
  by (relation "measure (\<lambda>(foldit, insize, m, i, out). insize - i)")
    (auto dest!: sym [where t = "Inr (Inr (_, _))"] fold_step_positive utf8_char_positive intro: diff_less_mono2 split: if_splits)

declare utf8_loop.simps [simp del]

definition rdfstore_utf8_string_to_utf8 :: "nat \<Rightarrow> byte list \<Rightarrow> utf8_fault + int + byte list" where
  "rdfstore_utf8_string_to_utf8 insize m = utf8_loop False insize m 0 []"

definition rdfstore_utf8_string_to_utf8_foldedcase :: "nat \<Rightarrow> byte list \<Rightarrow> utf8_fault + int + byte list" where
  "rdfstore_utf8_string_to_utf8_foldedcase insize m = utf8_loop True insize m 0 []"

section \<open>Bits of a character\<close>

lemma byte_all:
  fixes x :: byte
  assumes "list_all (\<lambda>n. P (word_of_int n)) [0..255]"
  shows "P x"
proof -
  have "uint x \<in> {0..255}" using uint_bounded [of x] by simp
  with assms have "P (word_of_int (uint x))" unfolding list_all_iff set_upto by blast
  then show ?thesis by simp
qed

lemma small_all:
  fixes v :: code_point
  assumes "list_all (\<lambda>n. P (word_of_int n)) [0..63]" and "v < 64"
  shows "P v"
proof -
  have "uint v \<in> {0..63}" using assms(2) by (simp add: word_less_def)
  with assms(1) have "P (word_of_int (uint v))" unfolding list_all_iff set_upto by blast
  then show ?thesis by simp
qed

definition continued :: "code_point \<Rightarrow> byte" where
  "continued v = ucast (0x80 OR (v AND 0x3f))"

lemma low_less: "v AND 0x3f < (64 :: code_point)"
  using word_and_le1 [of v "0x3f"] by (simp add: word_le_def word_less_def)

lemma low_idem: "(v AND 0x3f) AND 0x3f = v AND (0x3f :: code_point)"
  by (simp add: and.assoc)

lemma continued_small: "list_all (\<lambda>n. continued (word_of_int n) \<ge> 0x80 \<and> continued (word_of_int n) \<le> 0xbf
    \<and> continued (word_of_int n) AND 0xc0 = 0x80 \<and> ucast (continued (word_of_int n) AND 0x3f) = (word_of_int n :: code_point)) [0..63]"
  by (simp add: continued_def upto.simps [of 0] upto.simps [of 1])

lemma continued:
  "continued v \<ge> 0x80" "continued v \<le> 0xbf" "continued v AND 0xc0 = 0x80"
  "ucast (continued v AND 0x3f) = v AND (0x3f :: code_point)"
proof -
  have "continued v = continued (v AND 0x3f)" by (simp add: continued_def low_idem)
  moreover note small_all [OF continued_small low_less, of v]
  ultimately show "continued v \<ge> 0x80" "continued v \<le> 0xbf" "continued v AND 0xc0 = 0x80"
    "ucast (continued v AND 0x3f) = v AND (0x3f :: code_point)" by simp_all
qed

lemma byte_le_1 [simp]: "\<not> (128 :: byte) \<le> 1" "\<not> (192 :: byte) \<le> 1"
  by (simp_all add: word_le_def)

lemma continued_byte: "x \<ge> 0x80 \<Longrightarrow> x \<le> 0xbf \<Longrightarrow> continued (ucast (x AND 0x3f)) = x"
  by (rule byte_all [where P = "\<lambda>x. x \<ge> 0x80 \<longrightarrow> x \<le> 0xbf \<longrightarrow> continued (ucast (x AND 0x3f)) = x", rule_format])
    (simp_all add: continued_def upto.simps [of 0] upto.simps [of 1])

text \<open>The first byte of a sequence of \<open>n\<close>, and its payload\<close>

definition leading :: "nat \<Rightarrow> code_point \<Rightarrow> byte" where
  "leading n v = ucast ([0, 0, 0xc0, 0xe0, 0xf0, 0xf8, 0xfc] ! n OR v)"

definition leading_ok :: "nat \<Rightarrow> code_point \<Rightarrow> bool" where
  "leading_ok n v \<longleftrightarrow> leading n v \<ge> 0xc0 \<and> leading n v \<le> 0xfd \<and> rdfstore_utf8_toskip ! unat (leading n v) = n
     \<and> ucast (leading n v AND drop_bit (n - 2) 0x1f) = v \<and> rdfstore_utf8_mask ! n = drop_bit (n - 2) 0x1f"

lemma leading_small:
  "list_all (\<lambda>v. list_all (\<lambda>n. word_of_int v < (2 ^ (7 - n) :: code_point) \<longrightarrow> leading_ok n (word_of_int v)) [2, 3, 4, 5, 6]) [0..63]"
  by (simp add: leading_ok_def leading_def rdfstore_utf8_toskip_def rdfstore_utf8_mask_def nth_append
      upto.simps [of 0] upto.simps [of 1])

lemma leading_byte:
  "list_all (\<lambda>a. word_of_int a \<ge> (0xc0 :: byte) \<longrightarrow> word_of_int a \<le> (0xfd :: byte) \<longrightarrow>
      (let n = rdfstore_utf8_toskip ! unat (word_of_int a :: byte); v = ucast (word_of_int a AND drop_bit (n - 2) 0x1f :: byte)
       in n \<in> {2, 3, 4, 5, 6} \<and> leading n v = word_of_int a \<and> v < 2 ^ (7 - n))) [0..255]"
  by (simp add: leading_def rdfstore_utf8_toskip_def nth_append upto.simps [of 0] upto.simps [of 1])

lemma leading:
  assumes "n \<in> {2, 3, 4, 5, 6}" and "v < 2 ^ (7 - n)"
  shows "leading n v \<ge> 0xc0" "leading n v \<le> 0xfd" "rdfstore_utf8_toskip ! unat (leading n v) = n"
    "ucast (leading n v AND drop_bit (n - 2) 0x1f) = v" "rdfstore_utf8_mask ! n = drop_bit (n - 2) 0x1f"
proof -
  have "v < 64" using assms by (auto simp: word_less_def)
  moreover have "n \<in> set [2, 3, 4, 5, 6]" using assms(1) by simp
  ultimately have "leading_ok n v"
    using small_all [OF leading_small, of v] assms(2) unfolding list_all_iff by blast
  then show "leading n v \<ge> 0xc0" "leading n v \<le> 0xfd" "rdfstore_utf8_toskip ! unat (leading n v) = n"
    "ucast (leading n v AND drop_bit (n - 2) 0x1f) = v" "rdfstore_utf8_mask ! n = drop_bit (n - 2) 0x1f"
    unfolding leading_ok_def by blast+
qed

lemma leading_of:
  assumes "a \<ge> 0xc0" and "a \<le> 0xfd" and "n = rdfstore_utf8_toskip ! unat a" and "v = ucast (a AND drop_bit (n - 2) 0x1f)"
  shows "n \<in> {2, 3, 4, 5, 6}" "a = leading n v" "v < 2 ^ (7 - n)"
  using byte_all [OF leading_byte, of a] assms by (simp_all add: Let_def)

section \<open>Sequences\<close>

text \<open>The low \<open>6 * k\<close> bits in \<open>k\<close> bytes\<close>

fun conts :: "nat \<Rightarrow> code_point \<Rightarrow> byte list" where
  "conts 0 c = []"
| "conts (Suc k) c = continued (drop_bit (6 * k) c) # conts k c"

lemma length_conts [simp]: "length (conts k c) = k"
  by (induction k) simp_all

lemma low_take: "c AND 0x3f = take_bit 6 (c :: code_point)"
  by (simp add: take_bit_eq_mask mask_eq_exp_minus_1)

lemma shift_in: "push_bit 6 (drop_bit 6 c) OR (c AND 0x3f) = (c :: code_point)"
  unfolding low_take by (rule bit_word_eqI) (auto simp: bit_simps)

lemma small_bits: "b < 2 ^ k \<Longrightarrow> k < 64 \<Longrightarrow> bit b n \<Longrightarrow> n < k" for b :: code_point
  by (metis bit_take_bit_iff less_mask_eq take_bit_eq_mask)

lemma shift_out:
  fixes b :: code_point
  assumes "b < 2 ^ 58" and "v < 64"
  shows "drop_bit 6 (push_bit 6 b OR v) = b" "(push_bit 6 b OR v) AND 0x3f = v"
proof -
  have low: "bit b n \<Longrightarrow> n < 58" and hi: "bit v n \<Longrightarrow> n < 6" for n
    using small_bits [of b 58 n] small_bits [of v 6 n] assms by simp_all
  show "drop_bit 6 (push_bit 6 b OR v) = b"
    by (rule bit_word_eqI) (use low hi in \<open>auto simp: bit_simps\<close>)
  show "(push_bit 6 b OR v) AND 0x3f = v"
    unfolding low_take by (rule bit_word_eqI) (use low hi in \<open>auto simp: bit_simps\<close>)
qed

lemma continued_cong: "continued (c AND 0x3f) = continued c"
  by (simp add: continued_def low_idem)

text \<open>The bytes of a code point that is not ASCII, in its length\<close>

definition utf8_length :: "code_point \<Rightarrow> nat" where
  "utf8_length c = (if c < 0x80 then 1 else if c < 0x800 then 2 else if c < 0x10000 then 3
     else if c < 0x200000 then 4 else if c < 0x4000000 then 5 else if c < 0x80000000 then 6 else 7)"

lemma utf8_bytes_long:
  assumes "c \<ge> 0x80" and "c < 0x80000000"
  shows "utf8_bytes c = leading (utf8_length c) (drop_bit (6 * (utf8_length c - 1)) c) # conts (utf8_length c - 1) c"
  using assms leD [OF assms(1)]
  by (simp add: utf8_bytes_def rdfstore_utf8_cp_to_utf8_def utf8_length_def leading_def continued_def numeral_eq_Suc)

lemma utf8_bytes_short: "c < 0x80 \<Longrightarrow> utf8_bytes c = [ucast c]"
  by (simp add: utf8_bytes_def rdfstore_utf8_cp_to_utf8_def)

lemma small_bitsI:
  fixes b :: code_point
  assumes "\<And>n. bit b n \<Longrightarrow> n < k" and "k < 64"
  shows "b < 2 ^ k"
proof -
  have "take_bit k b = b" by (rule bit_word_eqI) (use assms(1) in \<open>auto simp: bit_simps\<close>)
  then have "b = b AND mask k" by (simp add: take_bit_eq_mask)
  then show ?thesis using and_mask_less' [of k b] assms(2) by (simp add: mask_eq_exp_minus_1)
qed

lemma shift_bound:
  fixes b :: code_point
  assumes "b < 2 ^ e" and "v < 64" and "e \<le> 57"
  shows "push_bit 6 b OR v < 2 ^ (e + 6)"
proof (rule small_bitsI)
  have "v < 2 ^ 6" using assms(2) by simp
  show "n < e + 6" if "bit (push_bit 6 b OR v) n" for n
    using small_bits [OF assms(1), of "n - 6"] small_bits [OF \<open>v < 2 ^ 6\<close>, of n] that assms(3) by (auto simp: bit_simps)
qed (use assms(3) in simp)

lemma drop_bit_le: "drop_bit k c \<le> (c :: code_point)"
  unfolding word_le_nat_alt unat_drop_bit_eq by (simp add: drop_bit_eq_div)

lemma loop_complete:
  "take k (drop p m) = conts k c \<Longrightarrow> is_utf8_loop m p k (drop_bit (6 * k) c) = Inr (Some c)"
proof (induction k arbitrary: p)
  case (Suc k)
  let ?d = "drop_bit (6 * k) c"
  have p: "p < length m" using Suc.prems by (cases "p < length m") simp_all
  then have m: "m ! p = continued ?d" "take k (drop (p + 1) m) = conts k c"
    using Suc.prems by (simp_all add: Cons_nth_drop_Suc [symmetric])
  have "drop_bit (6 * Suc k) c = drop_bit 6 ?d" by (simp add: drop_bit_drop_bit add.commute)
  then have "push_bit 6 (drop_bit (6 * Suc k) c) OR (?d AND 0x3f) = ?d" using shift_in [of ?d] by (simp only:)
  moreover have "\<not> ?d < drop_bit (6 * Suc k) c"
    using drop_bit_le [of 6 ?d] \<open>drop_bit (6 * Suc k) c = drop_bit 6 ?d\<close> by (simp add: not_less)
  ultimately show ?case
    using p m continued(1,2,4) [of ?d] Suc.IH [OF m(2)] by (simp add: utf8_at_def Let_def)
qed simp

lemma loop_sound:
  "is_utf8_loop m p k b = Inr (Some c) \<Longrightarrow> b < 2 ^ e \<Longrightarrow> e + 6 * k \<le> 63 \<Longrightarrow>
    take k (drop p m) = conts k c \<and> drop_bit (6 * k) c = b \<and> c < 2 ^ (e + 6 * k)"
proof (induction k arbitrary: p b e)
  case (Suc k)
  have p: "p < length m" using Suc.prems(1) by (auto simp: utf8_at_def split: if_splits)
  let ?v = "ucast (m ! p AND 0x3f) :: code_point" and ?b = "push_bit 6 b OR ucast (m ! p AND 0x3f)"
  have x: "m ! p \<ge> 0x80" "m ! p \<le> 0xbf" and go: "is_utf8_loop m (p + 1) k ?b = Inr (Some c)"
    using Suc.prems(1) p by (auto simp: utf8_at_def Let_def split: if_splits)
  have v: "?v < 64" using continued(4) [of "?v"] low_less [of ?v] continued_byte [OF x] by simp
  have "?b < 2 ^ (e + 6)" using shift_bound [OF Suc.prems(2) v] Suc.prems(3) by simp
  with Suc.IH [OF go, of "e + 6"] Suc.prems(3)
  have IH: "take k (drop (p + 1) m) = conts k c" "drop_bit (6 * k) c = ?b" "c < 2 ^ (e + 6 + 6 * k)" by simp_all
  have "n < 58" if "bit b n" for n using small_bits [OF Suc.prems(2) _ that] Suc.prems(3) by simp
  then have b: "b < 2 ^ 58" by (rule small_bitsI) simp_all
  have "drop_bit (6 * Suc k) c = b"
    using shift_out(1) [OF b v] IH(2) by (simp add: drop_bit_drop_bit [symmetric] mult.commute)
  moreover have "continued (drop_bit (6 * k) c) = m ! p"
    using continued_cong [of "?b"] shift_out(2) [OF b v] continued_byte [OF x] IH(2) by simp
  ultimately show ?case using p IH by (simp add: Cons_nth_drop_Suc [symmetric] ac_simps)
qed simp


section \<open>The test of a character\<close>

lemma utf8_length_bounds:
  assumes "c \<ge> 0x80" and "c < 0x80000000"
  shows "utf8_length c \<in> {2, 3, 4, 5, 6}" and "drop_bit (6 * (utf8_length c - 1)) c < 2 ^ (7 - utf8_length c)"
proof -
  show "utf8_length c \<in> {2, 3, 4, 5, 6}" using assms leD [OF assms(1)] by (simp add: utf8_length_def)
  show "drop_bit (6 * (utf8_length c - 1)) c < 2 ^ (7 - utf8_length c)"
  proof (rule small_bitsI)
    have len: "c < 2 ^ (5 * utf8_length c + 1)" "utf8_length c \<le> 6" "2 \<le> utf8_length c"
      using assms leD [OF assms(1)] by (simp_all add: utf8_length_def)
    show "n < 7 - utf8_length c" if "bit (drop_bit (6 * (utf8_length c - 1)) c) n" for n
    proof -
      have "6 * (utf8_length c - 1) + n < 5 * utf8_length c + 1"
        by (rule small_bits [OF len(1)]) (use len(2) that in \<open>simp_all add: bit_simps\<close>)
      then show ?thesis using len(2,3) by linarith
    qed
  qed simp
qed

lemma is_utf8_long:
  assumes "p < length m" and a: "m ! p \<ge> 0xc0" "m ! p \<le> 0xfd"
    and len: "len = rdfstore_utf8_toskip ! unat (m ! p)" and v: "v = ucast (m ! p AND drop_bit (len - 2) 0x1f)"
  shows "rdfstore_utf8_is_utf8 m p =
    bindE (utf8_at m (p + 1)) (\<lambda>a1. if \<not> (a1 \<ge> 0x80 \<and> a1 \<le> 0xbf) then Inr (False, len)
      else bindE (is_utf8_loop m (p + 1) (len - 1) v) (\<lambda>r. case r of None \<Rightarrow> Inr (False, len)
        | Some b \<Rightarrow> Inr (\<not> utf8_length b < len, len)))"
proof -
  have "len \<in> {2, 3, 4, 5, 6}" using leading_of(1) [OF a len v] .
  then have l: "\<not> len < 2" "\<not> 7 \<le> len" by auto
  have "\<not> m ! p < 0x80" using a(1) by (simp add: word_less_def word_le_def)
  then show ?thesis
    using assms(1) a l unfolding v len rdfstore_utf8_is_utf8_def utf8_length_def [symmetric] Let_def
    by (simp add: utf8_at_def [of m p])
qed

lemma is_utf8_complete:
  assumes c: "c < 0x80000000" and t: "take (length (utf8_bytes c)) (drop p m) = utf8_bytes c"
  shows "rdfstore_utf8_is_utf8 m p = Inr (True, length (utf8_bytes c))"
proof (cases "c < 0x80")
  case True
  with t have "take 1 (drop p m) = [ucast c]" by (simp add: utf8_bytes_short)
  then have "p < length m" "m ! p = ucast c" by (cases "p < length m"; simp add: take_Suc hd_drop_conv_nth)+
  moreover have "(ucast c :: byte) < 0x80" using True by (simp add: word_less_nat_alt unsigned_ucast_eq take_bit_nat_eq_self)
  ultimately show ?thesis using True by (simp add: rdfstore_utf8_is_utf8_def utf8_at_def utf8_bytes_short)
next
  case False
  let ?n = "utf8_length c" and ?v = "drop_bit (6 * (utf8_length c - 1)) c"
  have c0: "c \<ge> 0x80" using False by simp
  note B = utf8_length_bounds [OF c0 c] and L = leading [OF utf8_length_bounds [OF c0 c]]
  have bs: "utf8_bytes c = leading ?n ?v # conts (?n - 1) c" using utf8_bytes_long [OF c0 c] .
  have n: "length (utf8_bytes c) = ?n" "2 \<le> ?n" "?n \<le> 6" using B(1) by (auto simp: bs)
  have p: "p < length m" using t n by (cases "p < length m") auto
  then have m: "m ! p = leading ?n ?v" "take (?n - 1) (drop (p + 1) m) = conts (?n - 1) c"
    using t n bs by (simp_all add: Cons_nth_drop_Suc [symmetric] take_Cons')
  obtain k where k: "?n - 1 = Suc k" using n(2) by (cases "?n - 1") simp_all
  have p1: "p + 1 < length m" using m(2) k by (cases "p + 1 < length m") simp_all
  then have m1: "m ! (p + 1) = continued (drop_bit (6 * k) c)"
    using m(2) k by (simp add: Cons_nth_drop_Suc [symmetric])
  show ?thesis
    unfolding n(1)
    by (subst is_utf8_long [OF p, of ?n ?v])
      (use p1 m(1) m1 continued(1,2) [of "drop_bit (6 * k) c"] L loop_complete [OF m(2)] in \<open>simp_all add: utf8_at_def\<close>)
qed

lemma utf8_length_less: "c < 2 ^ (5 * n + 1) \<Longrightarrow> n \<in> {2, 3, 4, 5, 6} \<Longrightarrow> utf8_length c \<le> n"
  unfolding utf8_length_def insert_iff empty_iff by (elim disjE FalseE; simp)

lemma is_utf8_sound:
  assumes "rdfstore_utf8_is_utf8 m p = Inr (True, n)"
  shows "\<exists>c<0x80000000. n = length (utf8_bytes c) \<and> take n (drop p m) = utf8_bytes c"
proof -
  have p: "p < length m" using assms by (auto simp: rdfstore_utf8_is_utf8_def utf8_at_def split: if_splits)
  let ?a = "m ! p"
  have d: "drop p m = ?a # drop (p + 1) m" using p by (simp add: Cons_nth_drop_Suc)
  show ?thesis
  proof (cases "?a < 0x80")
    case True
    then have n: "n = 1" using assms p by (simp add: rdfstore_utf8_is_utf8_def utf8_at_def)
    let ?c = "ucast ?a :: code_point"
    have "?c < 0x80"
      using True le_less_trans [OF take_bit_nat_less_eq_self] by (simp add: word_less_nat_alt unsigned_ucast_eq)
    moreover have "?c < 0x80000000" using \<open>?c < 0x80\<close> by (simp add: word_less_def)
    moreover have "ucast ?c = ?a" by (rule bit_word_eqI) (auto simp: bit_simps)
    ultimately show ?thesis using n d by (intro exI [of _ ?c]) (simp add: utf8_bytes_short)
  next
    case False
    have a: "?a \<ge> 0xc0" "?a \<le> 0xfd"
      using assms p False by (auto simp: rdfstore_utf8_is_utf8_def utf8_at_def split: if_splits)
    define len where "len = rdfstore_utf8_toskip ! unat ?a"
    define v where "v = (ucast (?a AND drop_bit (len - 2) 0x1f) :: code_point)"
    note L = leading_of [OF a len_def v_def]
    have "\<exists>b. is_utf8_loop m (p + 1) (len - 1) v = Inr (Some b) \<and> len \<le> utf8_length b \<and> n = len"
      using assms unfolding is_utf8_long [OF p a len_def v_def] bindE_Inr_iff
      by (auto simp: bindE_Inr_iff not_less split: if_split_asm option.split_asm)
    then obtain b where go: "is_utf8_loop m (p + 1) (len - 1) v = Inr (Some b)" and long: "len \<le> utf8_length b" and n: "n = len"
      by blast
    have l7: "\<not> 7 \<le> len" "\<not> len < 2" using L(1) by auto
    have e: "7 - len + 6 * (len - 1) = 5 * len + 1" "5 * len + 1 \<le> 31" using l7 L(1) by auto
    then have S: "take (len - 1) (drop (p + 1) m) = conts (len - 1) b" "drop_bit (6 * (len - 1)) b = v"
      "b < 2 ^ (5 * len + 1)"
      using loop_sound [OF go L(3)] by simp_all
    have len: "utf8_length b = len" using utf8_length_less [OF S(3) L(1)] long by simp
    have "n < 31" if "bit b n" for n using small_bits [OF S(3) _ that] e(2) by simp
    then have "b < 2 ^ 31" by (rule small_bitsI) simp_all
    moreover have "b \<ge> 0x80" using len l7(2) by (auto simp: utf8_length_def split: if_splits)
    ultimately have "utf8_bytes b = leading len v # conts (len - 1) b" and "b < 0x80000000"
      using utf8_bytes_long [of b] len S(2) by simp_all
    moreover have "take len (drop p m) = ?a # take (len - 1) (drop (p + 1) m)"
      using l7(2) d by (simp add: take_Cons')
    ultimately show ?thesis using S(1) L(2) l7(2) n by (intro exI [of _ b]) simp
  qed
qed

lemma is_utf8_iff:
  "rdfstore_utf8_is_utf8 m p = Inr (True, n)
    \<longleftrightarrow> (\<exists>c<0x80000000. n = length (utf8_bytes c) \<and> take n (drop p m) = utf8_bytes c)"
  using is_utf8_sound is_utf8_complete by blast

text \<open>A zero byte at or behind \<open>p\<close> stops the reads.\<close>

lemma loop_ends:
  "p \<le> z \<Longrightarrow> z < length m \<Longrightarrow> m ! z = 0 \<Longrightarrow> \<exists>r. is_utf8_loop m p k b = Inr r"
proof (induction k arbitrary: p b)
  case (Suc k)
  show ?case
  proof (cases "p = z")
    case False
    then have "p + 1 \<le> z" using Suc.prems(1) by simp
    from Suc.IH [OF this Suc.prems(2,3)] show ?thesis using Suc.prems by (auto simp: utf8_at_def Let_def)
  qed (use Suc.prems in \<open>simp add: utf8_at_def word_le_def\<close>)
qed simp

lemma is_utf8_ends:
  assumes "p \<le> z" and "z < length m" and "m ! z = 0"
  shows "\<exists>r. rdfstore_utf8_is_utf8 m p = Inr r"
proof (cases "p = z")
  case True
  then show ?thesis using assms by (auto simp: rdfstore_utf8_is_utf8_def utf8_at_def word_less_def)
next
  case False
  then have p: "p + 1 \<le> z" "p < length m" "p + 1 < length m" using assms by simp_all
  show ?thesis
  proof (cases "m ! p \<ge> 0xc0 \<and> m ! p \<le> 0xfd")
    case True
    let ?n = "rdfstore_utf8_toskip ! unat (m ! p)" and ?v = "ucast (m ! p AND drop_bit (rdfstore_utf8_toskip ! unat (m ! p) - 2) 0x1f)"
    obtain r where "is_utf8_loop m (p + 1) (?n - 1) ?v = Inr r" using loop_ends [OF p(1) assms(2,3)] by blast
    then show ?thesis
      unfolding is_utf8_long [OF p(2) conjunct1 [OF True] conjunct2 [OF True] refl refl]
      using p(3) by (cases r) (auto simp: utf8_at_def)
  next
    case False
    then show ?thesis using p by (simp add: rdfstore_utf8_is_utf8_def utf8_at_def) auto
  qed
qed

lemma length_utf8_mask: "length rdfstore_utf8_mask = 7"
  by (simp add: rdfstore_utf8_mask_def)

text \<open>The decoder undoes the encoder.\<close>

lemma cp_loop_conts: "cp_loop (conts k c) (drop_bit (6 * k) c) = (0, c)"
proof (induction k)
  case (Suc k)
  let ?d = "drop_bit (6 * k) c"
  have "drop_bit (6 * Suc k) c = drop_bit 6 ?d" by (simp add: drop_bit_drop_bit add.commute)
  then have "push_bit 6 (drop_bit (6 * Suc k) c) OR (?d AND 0x3f) = ?d" using shift_in [of ?d] by (simp only:)
  then show ?case using Suc.IH continued(3,4) [of ?d] by simp
qed simp

lemma utf8_to_cp_bytes:
  assumes "c < 0x80000000"
  shows "rdfstore_utf8_utf8_to_cp (length (utf8_bytes c)) (utf8_bytes c @ rest) cp = Inr (0, c)"
proof (cases "c < 0x80")
  case True
  have low: "n < 7" if "bit c n" for n using small_bits [of c 7 n] True that by simp
  have "(ucast c :: byte) AND 0x7f = take_bit 7 (ucast c)" by (simp add: take_bit_eq_mask mask_eq_exp_minus_1)
  moreover have "ucast (take_bit 7 (ucast c :: byte)) = c"
    by (rule bit_word_eqI) (auto simp: bit_simps dest: low)
  ultimately have "ucast (ucast c AND 0x7f :: byte) = c" by simp
  then show ?thesis using True
    by (simp add: utf8_bytes_short rdfstore_utf8_utf8_to_cp_def utf8_at_def rdfstore_utf8_mask_def)
next
  case False
  let ?n = "utf8_length c" and ?v = "drop_bit (6 * (utf8_length c - 1)) c"
  have c0: "c \<ge> 0x80" using False by simp
  note B = utf8_length_bounds [OF c0 assms] and L = leading [OF utf8_length_bounds [OF c0 assms]]
  have bs: "utf8_bytes c = leading ?n ?v # conts (?n - 1) c" using utf8_bytes_long [OF c0 assms] .
  have n: "?n = Suc (?n - 1)" "?n \<le> 6" "?n \<noteq> 0" using B(1) by auto
  have "drop 1 (take ?n (leading ?n ?v # conts (?n - 1) c @ rest)) = conts (?n - 1) c"
    by (subst n(1)) simp
  then show ?thesis
    using n(2,3) L(4,5) cp_loop_conts [of "?n - 1" c] B(1)
    by (simp add: bs rdfstore_utf8_utf8_to_cp_def utf8_at_def length_utf8_mask)
qed

section \<open>Properties\<close>


theorem code_point_roundtrip:
  assumes "c < 0x80000000" and "rdfstore_utf8_cp_to_utf8 True c = Inr bs"
  shows "rdfstore_utf8_utf8_to_cp (length bs) (bs @ rest) cp = Inr (0, c)"
  using utf8_to_cp_bytes [OF assms(1)] assms(2) by simp

theorem code_point_roundtrip_witness:
  "rdfstore_utf8_utf8_to_cp 3 ([0xe2, 0x82, 0xac] @ [7]) 5 = Inr (0, 0x20ac)"
  using code_point_roundtrip [of "0x20ac" "[0xe2, 0x82, 0xac]" "[7]" 5] by (simp add: rdfstore_utf8_cp_to_utf8_def numeral_3_eq_3)

end
