(* ===== verification/Casefold.thy ===== *)
theory Casefold
  imports Utf8
begin

text \<open>
  What the conversions of strings of \<open>Utf8\<close> do: the case folding table as a function on code
  points, and the two loops as functions on the code points they read.
\<close>

section \<open>The table\<close>

definition fold_entry :: "int \<Rightarrow> int \<Rightarrow> int \<times> int list \<Rightarrow> bool" where
  "fold_entry lo hi p \<longleftrightarrow> lo \<le> fst p \<and> fst p \<le> hi \<and> snd p \<noteq> [] \<and> list_all (\<lambda>c. 0 < c \<and> c < 0x110000) (snd p)"

lemma fold_entries:
  "list_all (fold_entry 0x0041 0x0194) fold_table_1" "list_all (fold_entry 0x0196 0x03F2) fold_table_2"
  "list_all (fold_entry 0x03F4 0x0547) fold_table_3" "list_all (fold_entry 0x0548 0x1EE8) fold_table_4"
  "list_all (fold_entry 0x1EEA 0x1FA3) fold_table_5" "list_all (fold_entry 0x1FA4 0x24C1) fold_table_6"
  "list_all (fold_entry 0x24C2 0x10425) fold_table_7"
  by (simp_all add: fold_table_1_def fold_table_2_def fold_table_3_def fold_table_4_def fold_table_5_def
      fold_table_6_def fold_table_7_def fold_entry_def)

lemma map_of_outside: "list_all (fold_entry lo hi) ps \<Longrightarrow> t < lo \<or> hi < t \<Longrightarrow> map_of ps t = None"
  by (induction ps) (auto simp: fold_entry_def)

lemma fold_lookup:
  "map_of fold_table t = (if t \<le> 0x0194 then map_of fold_table_1 t else if t \<le> 0x03F2 then map_of fold_table_2 t
     else if t \<le> 0x0547 then map_of fold_table_3 t else if t \<le> 0x1EE8 then map_of fold_table_4 t
     else if t \<le> 0x1FA3 then map_of fold_table_5 t else if t \<le> 0x24C1 then map_of fold_table_6 t
     else map_of fold_table_7 t)"
proof -
  note N = fold_entries [THEN map_of_outside, of t]
  consider "t \<le> 0x0194" | "0x0194 < t \<and> t \<le> 0x03F2" | "0x03F2 < t \<and> t \<le> 0x0547" | "0x0547 < t \<and> t \<le> 0x1EE8"
    | "0x1EE8 < t \<and> t \<le> 0x1FA3" | "0x1FA3 < t \<and> t \<le> 0x24C1" | "0x24C1 < t" by linarith
  then show ?thesis by cases (simp_all add: fold_table_def N map_add_def split: option.split)
qed

lemmas fold_lookups =
  fold_table_1_def [THEN arg_cong, of "\<lambda>xs. map_of xs t" for t, simplified map_of.simps fun_upd_apply fst_conv snd_conv]
  fold_table_2_def [THEN arg_cong, of "\<lambda>xs. map_of xs t" for t, simplified map_of.simps fun_upd_apply fst_conv snd_conv]
  fold_table_3_def [THEN arg_cong, of "\<lambda>xs. map_of xs t" for t, simplified map_of.simps fun_upd_apply fst_conv snd_conv]
  fold_table_4_def [THEN arg_cong, of "\<lambda>xs. map_of xs t" for t, simplified map_of.simps fun_upd_apply fst_conv snd_conv]
  fold_table_5_def [THEN arg_cong, of "\<lambda>xs. map_of xs t" for t, simplified map_of.simps fun_upd_apply fst_conv snd_conv]
  fold_table_6_def [THEN arg_cong, of "\<lambda>xs. map_of xs t" for t, simplified map_of.simps fun_upd_apply fst_conv snd_conv]
  fold_table_7_def [THEN arg_cong, of "\<lambda>xs. map_of xs t" for t, simplified map_of.simps fun_upd_apply fst_conv snd_conv]

definition fold_fixed :: "int \<times> int list \<Rightarrow> bool" where
  "fold_fixed p \<longleftrightarrow> map_of fold_table (last (snd p)) = None"

lemma fold_fixed_1: "list_all fold_fixed fold_table_1"
  unfolding fold_table_1_def by (simp add: fold_fixed_def fold_lookup fold_lookups)

lemma fold_fixed_2: "list_all fold_fixed fold_table_2"
  unfolding fold_table_2_def by (simp add: fold_fixed_def fold_lookup fold_lookups)

lemma fold_fixed_3: "list_all fold_fixed fold_table_3"
  unfolding fold_table_3_def by (simp add: fold_fixed_def fold_lookup fold_lookups)

lemma fold_fixed_4: "list_all fold_fixed fold_table_4"
  unfolding fold_table_4_def by (simp add: fold_fixed_def fold_lookup fold_lookups)

lemma fold_fixed_5: "list_all fold_fixed fold_table_5"
  unfolding fold_table_5_def by (simp add: fold_fixed_def fold_lookup fold_lookups)

lemma fold_fixed_6: "list_all fold_fixed fold_table_6"
  unfolding fold_table_6_def by (simp add: fold_fixed_def fold_lookup fold_lookups)

lemma fold_fixed_7: "list_all fold_fixed fold_table_7"
  unfolding fold_table_7_def by (simp add: fold_fixed_def fold_lookup fold_lookups)

lemmas fold_fixed_chunks = fold_fixed_1 fold_fixed_2 fold_fixed_3 fold_fixed_4
  fold_fixed_5 fold_fixed_6 fold_fixed_7

lemma fold_table_fixed:
  assumes "(k, cs) \<in> set fold_table"
  shows "map_of fold_table (last cs) = None"
proof -
  have "list_all fold_fixed ps \<Longrightarrow> (k, cs) \<in> set ps \<Longrightarrow> fold_fixed (k, cs)" for ps
    by (simp add: list_all_iff)
  with assms fold_fixed_chunks have "fold_fixed (k, cs)" unfolding fold_table_def set_append Un_iff by blast
  then show ?thesis by (simp add: fold_fixed_def)
qed

lemma entry_in: "list_all (fold_entry lo hi) ps \<Longrightarrow> (k, cs) \<in> set ps \<Longrightarrow> cs \<noteq> [] \<and> list_all (\<lambda>c. 0 < c \<and> c < 0x110000) cs"
  by (fastforce simp: list_all_iff fold_entry_def)

lemma fold_table_entry: "(k, cs) \<in> set fold_table \<Longrightarrow> cs \<noteq> [] \<and> list_all (\<lambda>c. 0 < c \<and> c < 0x110000) cs"
  unfolding fold_table_def set_append Un_iff using fold_entries [THEN entry_in, of k cs] by blast

section \<open>Folding a code point\<close>

definition folded :: "code_point \<Rightarrow> code_point" where
  "folded c = (case map_of fold_table (uint c) of None \<Rightarrow> c | Some cs \<Rightarrow> of_int (last cs))"

lemma fold_char: "fold_char c (utf8_bytes c) = utf8_bytes (folded c)"
proof (cases "map_of fold_table (uint c)")
  case (Some cs)
  then have "cs \<noteq> []" using fold_table_entry map_of_SomeD by fastforce
  then have "foldl (\<lambda>buf c. utf8_bytes (of_int c)) buf cs = utf8_bytes (of_int (last cs))" for buf
    by (induction cs rule: rev_induct) simp_all
  with Some show ?thesis by (simp add: fold_char_def folded_def)
qed (simp add: fold_char_def folded_def)

lemma folded_entry:
  assumes "map_of fold_table (uint c) = Some cs"
  shows "uint (folded c) = last cs" "folded c \<noteq> 0" "folded c < 0x80000000"
proof -
  have "cs \<noteq> []" "list_all (\<lambda>c. 0 < c \<and> c < 0x110000) cs"
    using fold_table_entry [OF map_of_SomeD [OF assms]] by auto
  then have l: "0 < last cs" "last cs < 0x110000" by (auto simp: list_all_iff)
  then show u: "uint (folded c) = last cs" using assms by (simp add: folded_def uint_word_of_int)
  show "folded c \<noteq> 0" using u l(1) by auto
  show "folded c < 0x80000000" using u l(2) by (simp add: word_less_def)
qed

lemma folded_kept: "c < 0x80000000 \<Longrightarrow> folded c < 0x80000000" "c \<noteq> 0 \<Longrightarrow> folded c \<noteq> 0"
  using folded_entry by (cases "map_of fold_table (uint c)"; simp add: folded_def; blast)+

lemma folded_folded: "folded (folded c) = folded c"
proof (cases "map_of fold_table (uint c)")
  case (Some cs)
  then have "map_of fold_table (uint (folded c)) = None"
    using fold_table_fixed [OF map_of_SomeD] folded_entry(1) by simp
  then show ?thesis by (simp add: folded_def [of "folded c"])
qed (simp add: folded_def)

section \<open>Strings\<close>

definition utf8_text :: "code_point list \<Rightarrow> byte list" where
  "utf8_text cs = concat (map utf8_bytes cs)"

lemma utf8_text_simps [simp]: "utf8_text [] = []" "utf8_text (c # cs) = utf8_bytes c @ utf8_text cs"
    "utf8_text (cs @ ds) = utf8_text cs @ utf8_text ds"
  by (simp_all add: utf8_text_def)

lemma utf8_bytes_nonempty [simp]: "utf8_bytes c \<noteq> []"
  by (simp add: utf8_bytes_def rdfstore_utf8_cp_to_utf8_def)

lemma conts_nonzero: "0 \<notin> set (conts k c)"
proof (induction k)
  case (Suc k)
  then show ?case using continued(1) [of "drop_bit (6 * k) c"] by (auto simp: word_le_def)
qed simp

lemma utf8_bytes_nonzero:
  assumes "c < 0x80000000" and "c \<noteq> 0"
  shows "0 \<notin> set (utf8_bytes c)"
proof (cases "c < 0x80")
  case True
  have "c = 0" if z: "(ucast c :: byte) = 0"
  proof (rule bit_word_eqI)
    show "bit c n = bit 0 n" for n
      using small_bits [of c 7 n] True arg_cong [OF z, of "\<lambda>x. bit x n"] by (auto simp: bit_simps)
  qed
  with assms(2) have "(ucast c :: byte) \<noteq> 0" by blast
  then show ?thesis using True by (simp add: utf8_bytes_short)
next
  case False
  then have c: "c \<ge> 0x80" by simp
  show ?thesis
    using utf8_bytes_long [OF c assms(1)] conts_nonzero leading(1) [OF utf8_length_bounds [OF c assms(1)]]
    by (auto simp: word_le_def)
qed

lemma byte_small: "(ucast (x :: byte) :: code_point) < 0x80000000"
proof -
  have "(ucast x :: code_point) < 2 ^ 31"
    by (rule small_bitsI) (auto simp: bit_simps dest: bit_imp_le_length)
  then show ?thesis by simp
qed

text \<open>A character at a position before the zero byte at \<open>z\<close>\<close>

definition char_at :: "byte list \<Rightarrow> nat \<Rightarrow> nat \<Rightarrow> code_point \<Rightarrow> bool" where
  "char_at m i n c \<longleftrightarrow> c < 0x80000000
     \<and> (n = length (utf8_bytes c) \<and> take n (drop i m) = utf8_bytes c
        \<or> n = 1 \<and> c = ucast (m ! i) \<and> \<not> (\<exists>c<0x80000000. take (length (utf8_bytes c)) (drop i m) = utf8_bytes c))"

lemma utf8_char_at:
  assumes "i < z" and "z < length m" and "m ! z = 0"
  obtains n c where "utf8_char m i = Inr (Inr (n, utf8_bytes c))" and "char_at m i n c" and "0 < n" and "i + n \<le> z"
proof -
  obtain v n where u: "rdfstore_utf8_is_utf8 m i = Inr (v, n)"
    using is_utf8_ends [of i z m] assms by (metis less_imp_le surj_pair)
  show thesis
  proof (cases v)
    case True
    with u have "rdfstore_utf8_is_utf8 m i = Inr (True, n)" by simp
    then obtain c where c: "c < 0x80000000" "n = length (utf8_bytes c)" "take n (drop i m) = utf8_bytes c"
      using is_utf8_sound by blast
    have n: "n \<le> length m - i" "0 < n" using c(2,3) by (auto simp: min_def dest!: arg_cong [where f = length] split: if_splits)
    have "i + n \<le> z"
    proof (cases "c = 0")
      case True
      then show ?thesis using c(2) assms(1) by (simp add: utf8_bytes_short)
    next
      case False
      have "z - i < n \<Longrightarrow> take n (drop i m) ! (z - i) = m ! z" using assms n by simp
      moreover have "z - i < n \<Longrightarrow> take n (drop i m) ! (z - i) \<in> set (utf8_bytes c)"
        using c by (metis nth_mem)
      ultimately show ?thesis using utf8_bytes_nonzero [OF c(1) False] assms by (metis add.commute leI less_diff_conv2 less_imp_le)
    qed
    with True u c n assms show thesis
      by (intro that [of n c]) (auto simp: utf8_char_def char_at_def)
  next
    case False
    then have no: "\<not> (\<exists>c<0x80000000. take (length (utf8_bytes c)) (drop i m) = utf8_bytes c)"
      using u is_utf8_complete by fastforce
    from False u no assms byte_small show thesis
      by (intro that [of 1 "ucast (m ! i)"]) (auto simp: utf8_char_def char_at_def utf8_at_def)
  qed
qed

text \<open>The code points read from \<open>i\<close> up to \<open>z\<close>\<close>

fun reads_as :: "byte list \<Rightarrow> nat \<Rightarrow> nat \<Rightarrow> code_point list \<Rightarrow> bool" where
  "reads_as m i z [] \<longleftrightarrow> i = z"
| "reads_as m i z (c # cs) \<longleftrightarrow> (\<exists>n>0. i + n \<le> z \<and> char_at m i n c \<and> reads_as m (i + n) z cs)"

lemma fold_step_char:
  "c < 0x80000000 \<Longrightarrow> utf8_char m i = Inr (Inr (n, utf8_bytes c)) \<Longrightarrow> fold_step m i = Inr (Inr (n, utf8_bytes (folded c)))"
  using utf8_to_cp_bytes [of c "[]" 0] by (simp add: fold_step_def fold_char)

lemma utf8_loop_text:
  assumes "z < length m" and "m ! z = 0" and "i \<le> z"
  shows "\<exists>cs. reads_as m i z cs \<and> (\<forall>f out. utf8_loop f z m i out = Inr (Inr (out @ utf8_text (if f then map folded cs else cs))))"
  using assms(3)
proof (induction "z - i" arbitrary: i rule: less_induct)
  case less
  show ?case
  proof (cases "i = z")
    case True
    then show ?thesis by (intro exI [of _ "[]"]) (simp add: utf8_loop.simps)
  next
    case False
    then have i: "i < z" using less.prems by simp
    obtain n c where u: "utf8_char m i = Inr (Inr (n, utf8_bytes c))" "char_at m i n c" "0 < n" "i + n \<le> z"
      by (rule utf8_char_at [OF i assms(1,2)])
    have "c < 0x80000000" using u(2) by (simp add: char_at_def)
    note f = fold_step_char [OF this u(1)]
    obtain cs where cs: "reads_as m (i + n) z cs"
      "\<forall>f out. utf8_loop f z m (i + n) out = Inr (Inr (out @ utf8_text (if f then map folded cs else cs)))"
    proof -
      have "z - (i + n) < z - i" using u(3,4) by simp
      from less.hyps [OF this u(4)] show thesis using that by blast
    qed
    have "utf8_loop f z m i out = Inr (Inr (out @ utf8_text (if f then map folded (c # cs) else c # cs)))" for f out
      using i u(1) f cs(2) by (subst utf8_loop.simps) simp
    moreover have "reads_as m i z (c # cs)" using u cs(1) by auto
    ultimately show ?thesis by blast
  qed
qed

lemma char_at_small: "char_at m i n c \<Longrightarrow> c < 0x80000000"
  unfolding char_at_def by (rule conjunct1)

lemma reads_as_small: "reads_as m i z cs \<Longrightarrow> c \<in> set cs \<Longrightarrow> c < 0x80000000"
proof (induction cs arbitrary: i)
  case (Cons d cs)
  from Cons.prems(1) obtain n where "char_at m i n d" "reads_as m (i + n) z cs" unfolding reads_as.simps by blast
  then show ?case using Cons.IH [of "i + n"] Cons.prems(2) char_at_small unfolding set_simps by blast
qed simp

text \<open>No code point is the beginning of another one, so valid text is read as it is.\<close>

lemma utf8_bytes_unique:
  assumes "c < 0x80000000" "d < 0x80000000"
    and "take (length (utf8_bytes c)) xs = utf8_bytes c" and "take (length (utf8_bytes d)) xs = utf8_bytes d"
  shows "c = d"
proof -
  have "length (utf8_bytes c) = length (utf8_bytes d)"
  proof -
    have "rdfstore_utf8_is_utf8 xs 0 = Inr (True, length (utf8_bytes c))"
      by (rule is_utf8_complete [OF assms(1)]) (unfold drop_0, rule assms(3))
    moreover have "rdfstore_utf8_is_utf8 xs 0 = Inr (True, length (utf8_bytes d))"
      by (rule is_utf8_complete [OF assms(2)]) (unfold drop_0, rule assms(4))
    ultimately show ?thesis by (simp only: sum.inject prod.inject)
  qed
  with assms(3) have "take (length (utf8_bytes d)) xs = utf8_bytes c" by (simp only:)
  with assms(4) have eq: "utf8_bytes d = utf8_bytes c" by (rule trans [OF sym])
  from utf8_to_cp_bytes [OF assms(1), of "[]" 0] utf8_to_cp_bytes [OF assms(2), of "[]" 0]
  show ?thesis unfolding eq by (simp only: sum.inject prod.inject simp_thms)
qed

lemma reads_text:
  assumes "reads_as m i z cs" and "drop i m = utf8_text ds @ rest" and "z = i + length (utf8_text ds)" and "\<forall>d\<in>set ds. d < 0x80000000"
  shows "cs = ds"
  using assms
proof (induction ds arbitrary: i cs)
  case Nil
  then show ?case by (cases cs) auto
next
  case (Cons d ds)
  have z: "i < z" using Cons.prems(3) utf8_bytes_nonempty [of d] by (cases "utf8_bytes d") auto
  then obtain c cs' n where cs: "cs = c # cs'" "n > 0" "char_at m i n c" "reads_as m (i + n) z cs'"
    using Cons.prems(1) by (cases cs) auto
  have d: "d < 0x80000000" "take (length (utf8_bytes d)) (drop i m) = utf8_bytes d" using Cons.prems(2,4) by simp_all
  then have "c = d" "n = length (utf8_bytes d)"
    using cs(3) utf8_bytes_unique [of c d "drop i m"] unfolding char_at_def by blast+
  moreover have "drop (i + n) m = utf8_text ds @ rest"
    using Cons.prems(2) \<open>n = length (utf8_bytes d)\<close> by (metis (no_types, lifting) add.commute append_assoc append_eq_conv_conj drop_drop utf8_text_simps(2))
  ultimately show ?case using Cons.IH [of "i + n" cs'] cs(1,4) Cons.prems(3,4) by simp
qed

lemma reads_length: "reads_as m i z cs \<Longrightarrow> z \<le> length m \<Longrightarrow> length (utf8_text cs) \<le> 2 * (z - i)"
proof (induction cs arbitrary: i)
  case (Cons c cs)
  obtain n where n: "n > 0" "i + n \<le> z" "char_at m i n c" "reads_as m (i + n) z cs" using Cons.prems(1) by auto
  have "length (utf8_bytes (ucast (x :: byte))) \<le> 2" for x
  proof -
    have "(ucast x :: code_point) < 2 ^ 8" by (rule small_bitsI) (auto simp: bit_simps dest: bit_imp_le_length)
    then have "(ucast x :: code_point) < 0x800" by (simp add: word_less_def)
    then show ?thesis by (simp add: utf8_bytes_def rdfstore_utf8_cp_to_utf8_def)
  qed
  then have "length (utf8_bytes c) \<le> 2 * n" using n(3) by (auto simp: char_at_def)
  then show ?case using Cons.IH [OF n(4) Cons.prems(2)] n(2) by simp
qed simp

section \<open>Properties\<close>

text \<open>C14. On a string with its terminating zero, whatever its bytes, the conversion and the
  case folding succeed and read nothing behind the zero; the result is UTF-8, at most
  twice as long, a string that is UTF-8 already is converted to itself, and folding is
  conversion with every code point folded.\<close>

theorem strings_to_utf8:
  assumes "z < length m" and "m ! z = 0"
  shows "\<exists>cs. rdfstore_utf8_string_to_utf8 z m = Inr (Inr (utf8_text cs))
    \<and> rdfstore_utf8_string_to_utf8_foldedcase z m = Inr (Inr (utf8_text (map folded cs)))
    \<and> (\<forall>c\<in>set cs. c < 0x80000000) \<and> length (utf8_text cs) \<le> 2 * z
    \<and> (\<forall>ds. take z m = utf8_text ds \<longrightarrow> (\<forall>d\<in>set ds. d < 0x80000000) \<longrightarrow> cs = ds)"
proof -
  obtain cs where r: "reads_as m 0 z cs"
    and l: "\<forall>f out. utf8_loop f z m 0 out = Inr (Inr (out @ utf8_text (if f then map folded cs else cs)))"
    using utf8_loop_text [OF assms, of 0] by blast
  have "cs = ds" if "take z m = utf8_text ds" "\<forall>d\<in>set ds. d < 0x80000000" for ds
  proof (rule reads_text [OF r])
    show "drop 0 m = utf8_text ds @ drop z m" using append_take_drop_id [of z m] that(1) by simp
    show "z = 0 + length (utf8_text ds)" using that(1) assms(1) by (metis add_0 length_take min.absorb2 min.commute less_imp_le)
  qed (rule that(2))
  moreover have "length (utf8_text cs) \<le> 2 * z" using reads_length [OF r] assms(1) by simp
  moreover have "\<forall>c\<in>set cs. c < 0x80000000" using reads_as_small [OF r] by blast
  ultimately show ?thesis
    using l by (intro exI [of _ cs]) (simp add: rdfstore_utf8_string_to_utf8_def rdfstore_utf8_string_to_utf8_foldedcase_def)
qed

theorem strings_to_utf8_witness:
  "\<exists>cs. rdfstore_utf8_string_to_utf8 2 [0x41, 0xe9, 0, 7] = Inr (Inr (utf8_text cs))
    \<and> rdfstore_utf8_string_to_utf8_foldedcase 2 [0x41, 0xe9, 0, 7] = Inr (Inr (utf8_text (map folded cs)))
    \<and> length (utf8_text cs) \<le> 4"
  using strings_to_utf8 [of 2 "[0x41, 0xe9, 0, 7]"] by force

text \<open>Folding of a text that is UTF-8 already\<close>

lemma fold_text:
  assumes "\<forall>c\<in>set cs. c < 0x80000000"
  shows "rdfstore_utf8_string_to_utf8_foldedcase (length (utf8_text cs)) (utf8_text cs @ 0 # rest)
    = Inr (Inr (utf8_text (map folded cs)))"
proof -
  let ?m = "utf8_text cs @ 0 # rest"
  have "length (utf8_text cs) < length ?m" "?m ! length (utf8_text cs) = 0" by simp_all
  from utf8_loop_text [OF this, of 0] obtain ds where d: "reads_as ?m 0 (length (utf8_text cs)) ds"
    "\<forall>f out. utf8_loop f (length (utf8_text cs)) ?m 0 out = Inr (Inr (out @ utf8_text (if f then map folded ds else ds)))"
    by blast
  have "ds = cs" by (rule reads_text [OF d(1), where rest = "0 # rest"]) (use assms in simp_all)
  then show ?thesis using d(2) by (simp add: rdfstore_utf8_string_to_utf8_foldedcase_def)
qed

theorem folded_string_kept:
  assumes "z < length m" and "m ! z = 0" and "rdfstore_utf8_string_to_utf8_foldedcase z m = Inr (Inr out)"
  shows "rdfstore_utf8_string_to_utf8_foldedcase (length out) (out @ 0 # rest) = Inr (Inr out)"
proof -
  obtain cs where r: "reads_as m 0 z cs"
    and l: "\<forall>f out. utf8_loop f z m 0 out = Inr (Inr (out @ utf8_text (if f then map folded cs else cs)))"
    using utf8_loop_text [OF assms(1,2), of 0] by blast
  have out: "out = utf8_text (map folded cs)"
    using l assms(3) by (simp add: rdfstore_utf8_string_to_utf8_foldedcase_def)
  have "\<forall>c\<in>set (map folded cs). c < 0x80000000" using reads_as_small [OF r] folded_kept(1) by auto
  from fold_text [OF this] show ?thesis by (simp add: out folded_folded comp_def)
qed

lemma folded_example: "rdfstore_utf8_string_to_utf8_foldedcase 2 [0x41, 0x42, 0] = Inr (Inr [0x61, 0x62])"
proof -
  have "folded 0x41 = 0x61" "folded 0x42 = 0x62" by (simp_all add: folded_def fold_lookup fold_lookups)
  then show ?thesis using fold_text [of "[0x41, 0x42]" "[]"] by (simp add: utf8_bytes_short flip: numeral_2_eq_2)
qed

theorem folded_string_kept_witness:
  "rdfstore_utf8_string_to_utf8_foldedcase 2 [0x61, 0x62, 0, 9] = Inr (Inr [0x61, 0x62])"
  using folded_string_kept [OF _ _ folded_example, of "[9]"] by (simp flip: numeral_2_eq_2)

theorem sharp_s_folded_to_s:
  assumes "\<forall>c\<in>set (cs @ ds). c < 0x80000000"
  shows "rdfstore_utf8_string_to_utf8_foldedcase (length (utf8_text (cs @ [0xDF] @ ds))) (utf8_text (cs @ [0xDF] @ ds) @ [0])
    = rdfstore_utf8_string_to_utf8_foldedcase (length (utf8_text (cs @ [0x73] @ ds))) (utf8_text (cs @ [0x73] @ ds) @ [0])"
proof -
  have "folded 0xDF = 0x73" "folded 0x73 = 0x73" by (simp_all add: folded_def fold_lookup fold_lookups)
  then show ?thesis using assms by (subst (1 2) fold_text) auto
qed

theorem sharp_s_folded_to_s_witness:
  "rdfstore_utf8_string_to_utf8_foldedcase (length (utf8_text ([0x61] @ [0xDF] @ [0x65]))) (utf8_text ([0x61] @ [0xDF] @ [0x65]) @ [0])
    = rdfstore_utf8_string_to_utf8_foldedcase (length (utf8_text ([0x61] @ [0x73] @ [0x65]))) (utf8_text ([0x61] @ [0x73] @ [0x65]) @ [0])"
  using sharp_s_folded_to_s [of "[0x61]" "[0x65]"] by simp

end
