(* ===== verification/Access.thy ===== *)
theory Access
  imports Prelude "HOL-Library.Char_ord"
begin

text \<open>
  \<open>dbms/deamon/conf.c\<close>: the configuration of the server, its access levels, the parser of the
  configuration file and the rules for an address and a database. Addresses and masks are
  32-bit words in the order of the bits of the dotted quad, so \<open>htonl\<close> is not seen; the
  resolver of host names is a parameter. Strings have no zero byte.
\<close>

section \<open>Levels\<close>

datatype tops = T_ERR | T_NONE | T_RDONLY | T_RDWR | T_CREAT | T_DROP | T_ALL

text \<open>The numbers of the enumeration, and its order\<close>

primrec tops_value :: "tops \<Rightarrow> nat" where
  "tops_value T_ERR = 0" | "tops_value T_NONE = 1" | "tops_value T_RDONLY = 2" | "tops_value T_RDWR = 3"
| "tops_value T_CREAT = 4" | "tops_value T_DROP = 5" | "tops_value T_ALL = 6"

lemma tops_value_inject: "tops_value a = tops_value b \<longleftrightarrow> a = b"
  by (cases a; cases b) simp_all

instantiation tops :: linorder
begin

definition less_eq_tops :: "tops \<Rightarrow> tops \<Rightarrow> bool" where
  "less_eq_tops a b \<longleftrightarrow> tops_value a \<le> tops_value b"

definition less_tops :: "tops \<Rightarrow> tops \<Rightarrow> bool" where
  "less_tops a b \<longleftrightarrow> tops_value a < tops_value b"

instance
  by standard (auto simp: less_eq_tops_def less_tops_def tops_value_inject)

end

definition op2string :: "tops \<Rightarrow> string" where
  "op2string p = (case p of T_NONE \<Rightarrow> ''none'' | T_RDONLY \<Rightarrow> ''rdonly'' | T_RDWR \<Rightarrow> ''rdwr'' | T_CREAT \<Rightarrow> ''creat''
     | T_DROP \<Rightarrow> ''drop'' | T_ALL \<Rightarrow> ''all'' | T_ERR \<Rightarrow> ''undefined'')"

definition decode_ops :: "string \<Rightarrow> tops" where
  "decode_ops p =
     (if p = ''none'' then T_NONE else if p = ''rdonly'' then T_RDONLY else if p = ''rdwr'' then T_RDWR
      else if p = ''creat'' then T_CREAT else if p = ''drop'' then T_DROP else if p = ''all'' then T_ALL else T_ERR)"

section \<open>Words and addresses\<close>

definition isspace :: "char \<Rightarrow> bool" where
  "isspace c \<longleftrightarrow> c = CHR '' '' \<or> CHR 0x09 \<le> c \<and> c \<le> CHR 0x0D"

definition isdigit :: "char \<Rightarrow> bool" where
  "isdigit c \<longleftrightarrow> CHR ''0'' \<le> c \<and> c \<le> CHR ''9''"

definition ends_word :: "char \<Rightarrow> bool" where
  "ends_word c \<longleftrightarrow> isspace c \<or> c = CHR '','' \<or> c = CHR ''>''"

text \<open>The word, and where \<open>p\<close> points then\<close>

definition getnextword :: "string \<Rightarrow> string \<times> string" where
  "getnextword p =
     (let q = dropWhile isspace p
      in (takeWhile (\<lambda>c. \<not> ends_word c) q, drop 1 (dropWhile (\<lambda>c. \<not> ends_word c) q)))"

text \<open>
  \<open>inet_aton\<close>, \<open>gethostbyname\<close> with the address it finds, and whether \<open>errno\<close> is set after it
  found none
\<close>

record resolver =
  inet_aton :: "string \<Rightarrow> u32 option"
  gethostbyname :: "string \<Rightarrow> u32 option"
  host_errno :: "string \<Rightarrow> bool"

definition INADDR_NONE :: u32 where
  "INADDR_NONE = 0xffffffff"

text \<open>The address, and whether \<open>errno\<close> is set\<close>

definition getip :: "resolver \<Rightarrow> string \<Rightarrow> u32 \<times> bool" where
  "getip N word = (case inet_aton N word of
     Some ip \<Rightarrow> (ip, False)
   | None \<Rightarrow> (case gethostbyname N word of
       None \<Rightarrow> (INADDR_NONE, host_errno N word)
     | Some ip \<Rightarrow> (ip, False)))"

text \<open>\<open>strtol\<close> with base 10, without the clamping of numbers that do not fit\<close>

definition strtol10 :: "string \<Rightarrow> int" where
  "strtol10 s =
     (let s = dropWhile isspace s;
          neg = (case s of c # _ \<Rightarrow> c = CHR ''-'' | [] \<Rightarrow> False);
          s = (case s of c # cs \<Rightarrow> if c = CHR ''-'' \<or> c = CHR ''+'' then cs else s | [] \<Rightarrow> []);
          n = foldl (\<lambda>n c. 10 * n + (of_char c - 48)) 0 (takeWhile isdigit s)
      in if neg then - n else n)"

text \<open>The part before the first \<open>c\<close>, and the part behind it\<close>

definition index :: "string \<Rightarrow> char \<Rightarrow> (string \<times> string) option" where
  "index p c = (if c \<in> set p then Some (takeWhile (\<lambda>x. x \<noteq> c) p, drop 1 (dropWhile (\<lambda>x. x \<noteq> c) p)) else None)"

text \<open>
  The address and the mask, \<open>None\<close> on a syntax error. The first test of the length assigns to
  \<open>errno\<close>, so it holds whenever the length is 0.
\<close>

definition decode_mask :: "resolver \<Rightarrow> string \<Rightarrow> (u32 \<times> u32) option" where
  "decode_mask N p =
     (if p = ''all'' then Some (INADDR_NONE AND 0, 0)
      else
        let m = (case index p CHR ''/'' of
            Some (ip, bits) \<Rightarrow>
              (let len = strtol10 bits
               in if len = 0 then None
                  else if len < 0 \<or> len > 32 then None
                  else Some (ip, NOT (push_bit (nat (32 - len)) 1 - 1)))
          | None \<Rightarrow>
              if CHR '' '' \<in> set p then
                let sp = length (takeWhile (\<lambda>c. c \<noteq> CHR '' '') p);
                    (q, r) = getnextword p;
                    (q, r) = (if q = ''netmask'' then getnextword r else (q, r));
                    (netmask, err) = getip N q;
                    at = length p - length r
                in if netmask = INADDR_NONE \<and> err then None
                   else Some (if at \<le> sp then take (sp - at) r else r, netmask)
              else Some (p, INADDR_NONE))
        in case m of
          None \<Rightarrow> None
        | Some (p, netmask) \<Rightarrow>
            let (ip, err) = getip N p
            in if ip = INADDR_NONE \<and> err then None else Some (ip AND netmask, netmask))"

section \<open>The configuration\<close>

record txscf =
  cf_op :: tops
  cf_ip :: u32
  cf_mask :: u32

datatype torder = T_UNSET | T_ALLOW | T_DENY

record txsctrl =
  dbase :: string
  order_first :: torder
  recdeny :: "txscf list"
  recallow :: "txscf list"

text \<open>The state of the parser: the open block, and the records, the newest one first\<close>

record parser =
  nested :: "string option"
  controls :: "txsctrl list"

datatype conf_error =
  Nesting_close_but_no_start | Nesting_mismatch | Nested_too_deeply | Expected_dbase | Not_a_valid_directive
| Deny_or_allow_expected | Expected_allow_after_deny | Expected_deny_after_allow | Trailing_info
| Ops_not_recognized | Expected_an_argument | Syntax_error_in_allow | Syntax_error_in_deny | Unknown_directive

lemma getnextword_shorter: "fst (getnextword p) \<noteq> [] \<Longrightarrow> length (snd (getnextword p)) < length p"
proof -
  let ?q = "dropWhile isspace p"
  assume "fst (getnextword p) \<noteq> []"
  then have t: "takeWhile (\<lambda>c. \<not> ends_word c) ?q \<noteq> []" by (simp add: getnextword_def Let_def)
  have "length (takeWhile (\<lambda>c. \<not> ends_word c) ?q) + length (dropWhile (\<lambda>c. \<not> ends_word c) ?q) = length ?q"
    by (metis length_append takeWhile_dropWhile_id)
  moreover have "length ?q \<le> length p" by (simp add: length_dropWhile_le)
  ultimately show ?thesis using t by (simp add: getnextword_def Let_def) (metis (no_types, lifting) add_le_cancel_right diff_le_self dual_order.trans
      leD length_greater_0_conv less_add_same_cancel2 not_le_imp_less)
qed

text \<open>The next word that is none of \<open>ws\<close>; \<open>ws\<close> has no empty word.\<close>

function nextword_but :: "string list \<Rightarrow> string \<Rightarrow> string \<times> string" where
  "nextword_but ws p =
     (let (r, p') = getnextword p in if r \<noteq> [] \<and> r \<in> set ws then nextword_but ws p' else (r, p'))"
  by pat_completeness auto
termination
  by (relation "measure (length \<circ> snd)") (use getnextword_shorter in \<open>auto simp: prod_eq_iff\<close>)

declare nextword_but.simps [simp del]

text \<open>A change of the newest record\<close>

definition on_newest :: "(txsctrl \<Rightarrow> txsctrl) \<Rightarrow> parser \<Rightarrow> parser" where
  "on_newest f S = (case controls S of [] \<Rightarrow> S | c # cs \<Rightarrow> S\<lparr>controls := f c # cs\<rparr>)"

definition order_line :: "string \<Rightarrow> string \<Rightarrow> parser \<Rightarrow> conf_error + parser" where
  "order_line r p S =
     (if r \<noteq> ''allow'' \<and> r \<noteq> ''deny'' then Inl Deny_or_allow_expected
      else
        let f = (if r = ''allow'' then T_ALLOW else T_DENY);
            (r, p) = getnextword p
        in if f = T_DENY \<and> r \<noteq> ''allow'' then Inl Expected_allow_after_deny
           else if f = T_ALLOW \<and> r \<noteq> ''deny'' then Inl Expected_deny_after_allow
           else if fst (getnextword p) \<noteq> [] then Inl Trailing_info
           else Inr (on_newest (\<lambda>c. c\<lparr>order_first := f\<rparr>) S))"

definition rule_line :: "resolver \<Rightarrow> string \<Rightarrow> string \<Rightarrow> string \<Rightarrow> parser \<Rightarrow> conf_error + parser" where
  "rule_line N q r p S =
     (let op = decode_ops r
      in if op = T_ERR then Inl Ops_not_recognized
         else
           let (r, p) = nextword_but [''from''] p
           in if r = [] then Inl Expected_an_argument
              else if q = ''allow'' then
                (case decode_mask N r of
                   None \<Rightarrow> Inl Syntax_error_in_allow
                 | Some (ip, netmask) \<Rightarrow>
                     Inr (on_newest (\<lambda>c. c\<lparr>recallow := \<lparr>cf_op = op, cf_ip = ip, cf_mask = netmask\<rparr> # recallow c\<rparr>) S))
              else if q = ''deny'' then
                (case decode_mask N r of
                   None \<Rightarrow> Inl Syntax_error_in_deny
                 | Some (ip, netmask) \<Rightarrow>
                     Inr (on_newest (\<lambda>c. c\<lparr>recdeny := \<lparr>cf_op = op, cf_ip = ip, cf_mask = netmask\<rparr> # recdeny c\<rparr>) S))
              else Inl Unknown_directive)"

text \<open>A line, as \<open>fgets\<close> returns it\<close>

definition parse_line :: "resolver \<Rightarrow> string \<Rightarrow> parser \<Rightarrow> conf_error + parser" where
  "parse_line N line S =
     (let p = dropWhile isspace line
      in if p = [] \<or> hd p = CHR ''#'' then Inr S
         else if hd p = CHR ''<'' \<and> tl p \<noteq> [] \<and> hd (tl p) = CHR ''/'' then
           (let q = fst (getnextword (drop 2 p))
            in case nested S of
                 None \<Rightarrow> Inl Nesting_close_but_no_start
               | Some n \<Rightarrow> if q \<noteq> n then Inl Nesting_mismatch else Inr (S\<lparr>nested := None\<rparr>))
         else if hd p = CHR ''<'' then
           (case nested S of
              Some n \<Rightarrow> Inl Nested_too_deeply
            | None \<Rightarrow>
                (let (n, p) = getnextword (drop 1 p)
                 in if n \<noteq> ''dbase'' then Inl Expected_dbase
                    else Inr (S\<lparr>nested := Some n,
                                controls := \<lparr>dbase = fst (getnextword p), order_first = T_UNSET,
                                             recdeny = [], recallow = []\<rparr> # controls S\<rparr>)))
         else
           (let (q, p) = getnextword p
            in if nested S = None then Inl Not_a_valid_directive
               else
                 let (r, p) = nextword_but [''operation'', ''by''] p
                 in if q = ''order'' then order_line r p S else rule_line N q r p S))"

primrec parse_lines :: "resolver \<Rightarrow> string list \<Rightarrow> parser \<Rightarrow> conf_error + parser" where
  "parse_lines N [] S = Inr S"
| "parse_lines N (l # ls) S = bindE (parse_line N l S) (parse_lines N ls)"

text \<open>
  The baselines moved to the front, the last one found before the others. The record behind one
  that was moved is not looked at.
\<close>

fun place_base :: "txsctrl list \<Rightarrow> txsctrl list \<times> txsctrl list" where
  "place_base (p # n # rest) =
     (if dbase n = ''_'' then
        let (m, k) = place_base rest in (m @ [n], p # k)
      else let (m, k) = place_base (n # rest) in (m, p # k))"
| "place_base ps = ([], ps)"

text \<open>
  The fall through moved to the end. The pointer is in the record that was moved, whose
  successor is the end of the new list, so the loop stops at the first one.
\<close>

definition place_star :: "txsctrl list \<Rightarrow> txsctrl list" where
  "place_star ps =
     takeWhile (\<lambda>c. dbase c \<noteq> ''*'') ps @ drop 1 (dropWhile (\<lambda>c. dbase c \<noteq> ''*'') ps)
     @ take 1 (dropWhile (\<lambda>c. dbase c \<noteq> ''*'') ps)"

text \<open>The new configuration, or the error, with which the old one stays\<close>

definition parse_config :: "resolver \<Rightarrow> string list \<Rightarrow> conf_error + txsctrl list" where
  "parse_config N ls =
     bindE (parse_lines N ls \<lparr>nested = None, controls = []\<rparr>) (\<lambda>S.
       let (m, k) = place_base (controls S) in Inr (place_star (m @ k)))"

section \<open>The rules\<close>

text \<open>A read in front of an empty name is a fault.\<close>

datatype conf_fault = Conf_read

definition dbcmp :: "string \<Rightarrow> string \<Rightarrow> conf_fault + bool" where
  "dbcmp name conf =
     (if conf = [] then Inl Conf_read
      else let l = length conf
           in Inr (if last conf = CHR ''*'' then take (l - 1) conf \<noteq> take (l - 1) name else conf \<noteq> name))"

fun allowed_loop :: "txscf list \<Rightarrow> u32 \<Rightarrow> tops \<Rightarrow> tops" where
  "allowed_loop [] ip l = l"
| "allowed_loop (p # ps) ip l = allowed_loop ps ip (if ip AND cf_mask p = cf_ip p then max l (cf_op p) else l)"

definition allowed :: "txscf list \<Rightarrow> u32 \<Rightarrow> tops" where
  "allowed p ip = allowed_loop p ip T_ERR"

primrec deny_level :: "tops \<Rightarrow> tops" where
  "deny_level T_ALL = T_NONE"
| "deny_level T_DROP = T_CREAT"
| "deny_level T_CREAT = T_RDWR"
| "deny_level T_RDWR = T_RDONLY"
| "deny_level T_RDONLY = T_NONE"
| "deny_level T_NONE = T_CREAT"
| "deny_level T_ERR = T_ERR"

definition allow_level :: "tops \<Rightarrow> tops" where
  "allow_level x = (if x = T_ALL then T_DROP else x)"

definition allowed_ops_cnf :: "txsctrl \<Rightarrow> u32 \<Rightarrow> tops" where
  "allowed_ops_cnf cnf ip =
     (let a = allow_level (allowed (recallow cnf) ip);
          d = deny_level (allowed (recdeny cnf) ip)
      in if a = T_ERR then d else if d = T_ERR then a
         else if order_first cnf = T_DENY then max a d else min a d)"

definition allowed_ops :: "txsctrl list \<Rightarrow> u32 \<Rightarrow> tops" where
  "allowed_ops cfg ip = foldl (\<lambda>m p. max m (allowed_ops_cnf p ip)) T_NONE cfg"

fun on_dbase_loop :: "txsctrl list \<Rightarrow> u32 \<Rightarrow> string \<Rightarrow> tops \<Rightarrow> conf_fault + tops" where
  "on_dbase_loop [] ip db least = Inr least"
| "on_dbase_loop (p # ps) ip db least =
     (let least = (if dbase p = ''_'' then allowed_ops_cnf p ip else least)
      in bindE (dbcmp db (dbase p)) (\<lambda>differs.
           if \<not> differs \<or> dbase p = ''*'' then
             let s = allowed_ops_cnf p ip
             in if s \<noteq> T_ERR then Inr s else on_dbase_loop ps ip db (max least s)
           else on_dbase_loop ps ip db least))"

definition allowed_ops_on_dbase :: "txsctrl list \<Rightarrow> u32 \<Rightarrow> string \<Rightarrow> conf_fault + tops" where
  "allowed_ops_on_dbase cfg ip db = on_dbase_loop cfg ip db T_NONE"


section \<open>What the rules mean\<close>

definition rule_matches :: "u32 \<Rightarrow> txscf \<Rightarrow> bool" where
  "rule_matches ip p \<longleftrightarrow> ip AND cf_mask p = cf_ip p"

lemma T_ERR_least: "T_ERR \<le> a"
  by (simp add: less_eq_tops_def)

lemma allowed_loop: "allowed_loop ps ip l = foldl max l (map cf_op (filter (rule_matches ip) ps))"
  by (induction ps arbitrary: l) (simp_all add: rule_matches_def)

lemma foldl_max: "foldl max l xs = (if xs = [] then l else max l (Max (set xs)))" for l :: "'a::linorder"
  by (induction xs arbitrary: l) (auto simp: max.assoc)

text \<open>The highest level of a rule for the address\<close>

lemma allowed_Max:
  "allowed ps ip = (if filter (rule_matches ip) ps = [] then T_ERR else Max (cf_op ` {p \<in> set ps. rule_matches ip p}))"
  using T_ERR_least by (auto simp: allowed_def allowed_loop foldl_max max_def set_filter [symmetric] simp del: set_filter)

definition record_for :: "string \<Rightarrow> txsctrl \<Rightarrow> bool" where
  "record_for db c \<longleftrightarrow> (if last (dbase c) = CHR ''*'' then take (length (dbase c) - 1) db = butlast (dbase c) else dbase c = db)"

definition baseline :: "txsctrl list \<Rightarrow> u32 \<Rightarrow> tops \<Rightarrow> tops" where
  "baseline cfg ip least = (case filter (\<lambda>c. dbase c = ''_'') cfg of [] \<Rightarrow> least | cs \<Rightarrow> allowed_ops_cnf (last cs) ip)"

lemma dbcmp_record_for: "dbase c \<noteq> [] \<Longrightarrow> dbcmp db (dbase c) = Inr (\<not> record_for db c)"
  by (auto simp: dbcmp_def record_for_def Let_def butlast_conv_take)

lemma star_record: "dbase c = ''*'' \<Longrightarrow> record_for db c"
  by (simp add: record_for_def)

lemma on_dbase_loop_spec:
  "\<forall>c\<in>set cfg. dbase c \<noteq> [] \<Longrightarrow> on_dbase_loop cfg ip db least
    = Inr (case find (\<lambda>c. record_for db c \<and> allowed_ops_cnf c ip \<noteq> T_ERR) cfg of
        Some c \<Rightarrow> allowed_ops_cnf c ip | None \<Rightarrow> baseline cfg ip least)"
proof (induction cfg arbitrary: least)
  case (Cons c cs)
  have base: "baseline (c # cs) ip least = baseline cs ip (if dbase c = ''_'' then allowed_ops_cnf c ip else least)" for least
    by (auto simp: baseline_def split: list.split)
  have "max l T_ERR = l" for l using T_ERR_least by (simp add: max_absorb1)
  then show ?case
    using Cons star_record [of c db] unfolding base by (cases "record_for db c") (auto simp: dbcmp_record_for Let_def)
qed (simp add: baseline_def)

section \<open>Words\<close>

text \<open>A word of a line\<close>

definition conf_word :: "string \<Rightarrow> bool" where
  "conf_word w \<longleftrightarrow> w \<noteq> [] \<and> (\<forall>c\<in>set w. \<not> ends_word c)"

lemma word_not_space: "conf_word w \<Longrightarrow> dropWhile isspace (w @ xs) = w @ xs"
  by (cases w) (auto simp: conf_word_def ends_word_def)

lemma getnextword_word:
  assumes "conf_word w" and "\<forall>c\<in>set sp. isspace c"
  shows "ends_word e \<Longrightarrow> getnextword (sp @ w @ e # xs) = (w, xs)" and "getnextword (sp @ w) = (w, [])"
proof -
  have s: "dropWhile isspace (sp @ w @ xs) = w @ xs" for xs
    using assms(2) word_not_space [OF assms(1)] by (simp add: dropWhile_append2)
  have t: "takeWhile (\<lambda>c. \<not> ends_word c) (w @ xs) = w @ takeWhile (\<lambda>c. \<not> ends_word c) xs"
    "dropWhile (\<lambda>c. \<not> ends_word c) (w @ xs) = dropWhile (\<lambda>c. \<not> ends_word c) xs" for xs
    using assms(1) by (simp_all add: conf_word_def takeWhile_append2 dropWhile_append2)
  show "getnextword (sp @ w @ e # xs) = (w, xs)" if "ends_word e"
    unfolding getnextword_def Let_def s t using that by simp
  have "dropWhile (\<lambda>c. \<not> ends_word c) w = []" using t(2) [of "[]"] by simp
  then show "getnextword (sp @ w) = (w, [])"
    unfolding getnextword_def Let_def using s [of "[]"] t(1) [of "[]"] by (simp only: append_Nil2 drop_Nil takeWhile.simps)
qed

lemma getnextword_space: "isspace e \<Longrightarrow> getnextword (e # xs) = getnextword xs"
  by (simp add: getnextword_def)

lemma nextword_but_word:
  "conf_word w \<Longrightarrow> w \<notin> set ws \<Longrightarrow> ends_word e \<Longrightarrow> nextword_but ws (w @ e # xs) = (w, xs)"
  "conf_word w \<Longrightarrow> w \<notin> set ws \<Longrightarrow> nextword_but ws w = (w, [])"
  "conf_word w \<Longrightarrow> w \<in> set ws \<Longrightarrow> ends_word e \<Longrightarrow> nextword_but ws (w @ e # xs) = nextword_but ws xs"
  using getnextword_word [of w "[]"] by (subst nextword_but.simps, simp add: conf_word_def)+

section \<open>Files\<close>

text \<open>
  A configuration file as the documentation in \<open>dbms.conf\<close> has it: a rule is a word, a level and
  a host or address with the number of its bits, a block a name with an order and rules.
\<close>

datatype conf_rule = Rule bool tops string

record conf_block =
  block_name :: string
  block_order :: torder
  block_rules :: "conf_rule list"

fun rule_text :: "conf_rule \<Rightarrow> string" where
  "rule_text (Rule allow op spec) = (if allow then ''allow '' else ''deny '') @ op2string op @ '' from '' @ spec @ [CHR 0x0A]"

definition order_text :: "torder \<Rightarrow> string list" where
  "order_text f = (case f of T_UNSET \<Rightarrow> [] | T_ALLOW \<Rightarrow> [''order allow,deny'' @ [CHR 0x0A]]
     | T_DENY \<Rightarrow> [''order deny,allow'' @ [CHR 0x0A]])"

definition block_text :: "conf_block \<Rightarrow> string list" where
  "block_text b = [''<dbase '' @ block_name b @ ''>'' @ [CHR 0x0A]] @ order_text (block_order b)
     @ map rule_text (block_rules b) @ [''</dbase>'' @ [CHR 0x0A]]"

text \<open>What it means\<close>

fun rule_of :: "resolver \<Rightarrow> conf_rule \<Rightarrow> txscf" where
  "rule_of N (Rule allow op spec) =
     \<lparr>cf_op = op, cf_ip = fst (the (decode_mask N spec)), cf_mask = snd (the (decode_mask N spec))\<rparr>"

fun is_allow :: "conf_rule \<Rightarrow> bool" where
  "is_allow (Rule allow op spec) = allow"

definition control_of :: "resolver \<Rightarrow> conf_block \<Rightarrow> txsctrl" where
  "control_of N b =
     \<lparr>dbase = block_name b, order_first = block_order b,
      recdeny = rev (map (rule_of N) (filter (\<lambda>r. \<not> is_allow r) (block_rules b))),
      recallow = rev (map (rule_of N) (filter is_allow (block_rules b)))\<rparr>"

fun rule_good :: "resolver \<Rightarrow> conf_rule \<Rightarrow> bool" where
  "rule_good N (Rule allow op spec) \<longleftrightarrow> op \<noteq> T_ERR \<and> conf_word spec \<and> spec \<noteq> ''from'' \<and> decode_mask N spec \<noteq> None"

definition block_good :: "resolver \<Rightarrow> conf_block \<Rightarrow> bool" where
  "block_good N b \<longleftrightarrow> conf_word (block_name b) \<and> (\<forall>r\<in>set (block_rules b). rule_good N r)"

lemma op2string_word: "conf_word (op2string op)" "op2string op \<notin> {''operation'', ''by''}"
    "op \<noteq> T_ERR \<Longrightarrow> decode_ops (op2string op) = op"
  by (cases op; simp add: op2string_def conf_word_def ends_word_def isspace_def decode_ops_def)+

lemma parse_rule:
  assumes "rule_good N r" and "nested S \<noteq> None" and "controls S = c # cs"
  shows "parse_line N (rule_text r) S = Inr (S\<lparr>controls :=
    (if is_allow r then c\<lparr>recallow := rule_of N r # recallow c\<rparr> else c\<lparr>recdeny := rule_of N r # recdeny c\<rparr>) # cs\<rparr>)"
proof (cases r)
  case (Rule allow op spec)
  let ?w = "if allow then ''allow'' else ''deny''"
  have w: "conf_word ?w" by (simp add: conf_word_def ends_word_def isspace_def)
  have sp: "ends_word CHR '' ''" "isspace CHR '' ''" "ends_word (CHR 0x0A)" by (simp_all add: ends_word_def isspace_def)
  have tx: "rule_text r = ?w @ CHR '' '' # op2string op @ CHR '' '' # ''from'' @ CHR '' '' # spec @ [CHR 0x0A]"
    by (simp add: Rule)
  have fw: "conf_word ''from''" by (simp add: conf_word_def ends_word_def isspace_def)
  have g: "op \<noteq> T_ERR" "conf_word spec" "spec \<noteq> ''from''" "decode_mask N spec \<noteq> None"
    using assms(1) Rule by simp_all
  obtain ip nm where d: "decode_mask N spec = Some (ip, nm)" using g(4) by auto
  define t2 where "t2 = ''from'' @ CHR '' '' # spec @ [CHR 0x0A]"
  define t1 where "t1 = op2string op @ CHR '' '' # t2"
  have 1: "getnextword (rule_text r) = (?w, t1)"
    unfolding tx t1_def t2_def using getnextword_word(1) [OF w, of "[]"] sp by simp
  have 2: "nextword_but [''operation'', ''by''] t1 = (op2string op, t2)"
    unfolding t1_def using nextword_but_word(1) [OF op2string_word(1) _ sp(1)] op2string_word(2) by simp
  have 3: "nextword_but [''from''] t2 = (spec, [])"
    unfolding t2_def
    using nextword_but_word(3) [OF fw _ sp(1), of "[''from'']"] nextword_but_word(1) [OF g(2) _ sp(3), of "[''from'']" "[]"] g(3) by simp
  have start: "dropWhile isspace (rule_text r) = rule_text r"
    unfolding tx by (rule word_not_space [OF w])
  have hd: "hd (rule_text r) \<noteq> CHR ''#''" "hd (rule_text r) \<noteq> CHR ''<''" "rule_text r \<noteq> []"
    unfolding tx by (cases allow; simp)+
  define rt where "rt = rule_text r"
  have "spec \<noteq> []" using g(2) by (simp add: conf_word_def)
  moreover have "is_allow r = allow" "rule_of N r = \<lparr>cf_op = op, cf_ip = ip, cf_mask = nm\<rparr>" by (simp_all add: Rule d)
  ultimately show ?thesis
    using assms(2,3) start hd d g(1) op2string_word(3) [OF g(1)]
    unfolding rt_def [symmetric] by (cases allow; simp add: parse_line_def Let_def 1 [folded rt_def] 2 rule_line_def 3 on_newest_def)
qed

lemma parse_lines_append: "parse_lines N (xs @ ys) S = bindE (parse_lines N xs S) (parse_lines N ys)"
proof (induction xs arbitrary: S)
  case (Cons x xs)
  then show ?case by (cases "parse_line N x S") simp_all
qed simp

lemma parse_rules:
  assumes "nested S \<noteq> None"
  shows "\<forall>r\<in>set rs. rule_good N r \<Longrightarrow> controls S = c # cs \<Longrightarrow> parse_lines N (map rule_text rs) S = Inr (S\<lparr>controls :=
    c\<lparr>recallow := rev (map (rule_of N) (filter is_allow rs)) @ recallow c,
      recdeny := rev (map (rule_of N) (filter (\<lambda>r. \<not> is_allow r) rs)) @ recdeny c\<rparr> # cs\<rparr>)"
  using assms
proof (induction rs arbitrary: S c)
  case (Cons r rs)
  from parse_rule [of N r S c cs] Cons.prems
  have 1: "parse_line N (rule_text r) S = Inr (S\<lparr>controls :=
    (if is_allow r then c\<lparr>recallow := rule_of N r # recallow c\<rparr> else c\<lparr>recdeny := rule_of N r # recdeny c\<rparr>) # cs\<rparr>)" by simp
  show ?case
    using Cons.IH [of "S\<lparr>controls := (if is_allow r then c\<lparr>recallow := rule_of N r # recallow c\<rparr> else c\<lparr>recdeny := rule_of N r # recdeny c\<rparr>) # cs\<rparr>"
      "if is_allow r then c\<lparr>recallow := rule_of N r # recallow c\<rparr> else c\<lparr>recdeny := rule_of N r # recdeny c\<rparr>"] Cons.prems 1
    by simp
qed simp

lemma parse_order:
  assumes "nested S \<noteq> None" and "controls S = c # cs" and "order_first c = T_UNSET"
  shows "parse_lines N (order_text f) S = Inr (S\<lparr>controls := c\<lparr>order_first := f\<rparr> # cs\<rparr>)"
proof (cases f)
  case T_UNSET
  then show ?thesis using assms by (simp add: order_text_def)
next
  case T_ALLOW
  then show ?thesis using assms
    by (simp add: order_text_def parse_line_def getnextword_def isspace_def ends_word_def nextword_but.simps order_line_def on_newest_def Let_def)
next
  case T_DENY
  then show ?thesis using assms
    by (simp add: order_text_def parse_line_def getnextword_def isspace_def ends_word_def nextword_but.simps order_line_def on_newest_def Let_def)
qed

lemma parse_block:
  assumes "block_good N b" and "nested S = None"
  shows "parse_lines N (block_text b) S = Inr (S\<lparr>controls := control_of N b # controls S\<rparr>)"
proof -
  have n: "conf_word (block_name b)" and rs: "\<forall>r\<in>set (block_rules b). rule_good N r" using assms(1) by (simp_all add: block_good_def)
  let ?c = "\<lparr>dbase = block_name b, order_first = T_UNSET, recdeny = [], recallow = []\<rparr>"
  let ?S = "S\<lparr>nested := Some ''dbase'', controls := ?c # controls S\<rparr>"
  have dw: "conf_word ''dbase''" by (simp add: conf_word_def ends_word_def isspace_def)
  have sp: "ends_word CHR '' ''" "ends_word CHR ''>''" by (simp_all add: ends_word_def isspace_def)
  have "getnextword (''dbase'' @ CHR '' '' # block_name b @ ''>'' @ [CHR 0x0A]) = (''dbase'', block_name b @ ''>'' @ [CHR 0x0A])"
    using getnextword_word(1) [OF dw, of "[]"] sp by simp
  moreover have "getnextword (block_name b @ ''>'' @ [CHR 0x0A]) = (block_name b, [CHR 0x0A])"
    using getnextword_word(1) [OF n, of "[]"] sp by simp
  ultimately have 1: "parse_line N (''<dbase '' @ block_name b @ ''>'' @ [CHR 0x0A]) S = Inr ?S"
    using assms(2) by (simp add: parse_line_def isspace_def)
  let ?S2 = "?S\<lparr>controls := ?c\<lparr>order_first := block_order b\<rparr> # controls S\<rparr>"
  have 2: "parse_lines N (order_text (block_order b)) ?S = Inr ?S2"
    using parse_order [of ?S ?c "controls S"] by simp
  have 3: "parse_lines N (map rule_text (block_rules b)) ?S2 = Inr (?S\<lparr>controls := control_of N b # controls S\<rparr>)"
    using parse_rules [of ?S2 "block_rules b" N "?c\<lparr>order_first := block_order b\<rparr>" "controls S"] rs by (simp add: control_of_def)
  have 4: "parse_line N (''</dbase>'' @ [CHR 0x0A]) (?S\<lparr>controls := control_of N b # controls S\<rparr>)
      = Inr (S\<lparr>controls := control_of N b # controls S\<rparr>)"
    using assms(2) by (simp add: parse_line_def isspace_def ends_word_def getnextword_def)
  show ?thesis
    using 1 2 3 4 unfolding block_text_def parse_lines_append by simp
qed

lemma parse_blocks:
  "\<forall>b\<in>set bs. block_good N b \<Longrightarrow> nested S = None \<Longrightarrow>
    parse_lines N (concat (map block_text bs)) S = Inr (S\<lparr>controls := rev (map (control_of N) bs) @ controls S\<rparr>)"
proof (induction bs arbitrary: S)
  case (Cons b bs)
  then show ?case using parse_block [of N b S] by (simp add: parse_lines_append)
qed simp

text \<open>The places of the baseline and of the fall through\<close>

lemma place_base_none: "\<forall>c\<in>set ps. dbase c \<noteq> ''_'' \<Longrightarrow> place_base ps = ([], ps)"
  by (induction ps rule: place_base.induct) simp_all

lemma place_base_one:
  "\<forall>c\<in>set (xs @ ys). dbase c \<noteq> ''_'' \<Longrightarrow> dbase b = ''_'' \<Longrightarrow>
    (let (m, k) = place_base (xs @ b # ys) in m @ k) = b # xs @ ys"
proof (induction xs)
  case Nil
  have "place_base (b # ys) = ([], b # ys)" using Nil by (cases ys) (simp_all add: place_base_none)
  then show ?case by simp
next
  case (Cons x xs)
  have k: "place_base (x # xs @ b # ys) = ([b], x # xs @ ys)"
    using Cons.prems
  proof (induction xs arbitrary: x)
    case Nil
    then show ?case by (simp add: place_base_none)
  next
    case (Cons z zs)
    then show ?case by simp
  qed
  then show ?case by simp
qed

lemma place_star_one:
  "\<forall>c\<in>set (xs @ ys). dbase c \<noteq> ''*'' \<Longrightarrow> dbase s = ''*'' \<Longrightarrow> place_star (xs @ s # ys) = xs @ ys @ [s]"
  by (simp add: place_star_def takeWhile_append2 dropWhile_append2)

lemma place_star_none: "\<forall>c\<in>set xs. dbase c \<noteq> ''*'' \<Longrightarrow> place_star xs = xs"
  by (simp add: place_star_def takeWhile_eq_all_conv [THEN iffD2] dropWhile_eq_Nil_conv [THEN iffD2])


lemma filter_single:
  assumes "length (filter P xs) \<le> 1" and "filter P xs \<noteq> []"
  obtains ys x zs where "xs = ys @ x # zs" and "P x" and "\<forall>y\<in>set (ys @ zs). \<not> P y"
proof -
  obtain x where x: "filter P xs = [x]" using assms by (cases "filter P xs") (auto simp: le_Suc_eq)
  then obtain ys zs where "xs = ys @ x # zs" "\<forall>y\<in>set ys. \<not> P y" "P x" "[] = filter P zs"
    by (auto simp: filter_eq_Cons_iff)
  then have "xs = ys @ x # zs" "P x" "\<forall>y\<in>set (ys @ zs). \<not> P y"
    by (simp_all add: filter_empty_conv [of P zs, simplified eq_commute [of _ "[]"]] ball_Un)
  then show thesis by (rule that)
qed

lemma place_base_filter:
  assumes "length (filter (\<lambda>c. dbase c = ''_'') ps) \<le> 1"
  shows "(let (m, k) = place_base ps in m @ k) = filter (\<lambda>c. dbase c = ''_'') ps @ filter (\<lambda>c. dbase c \<noteq> ''_'') ps"
proof (cases "filter (\<lambda>c. dbase c = ''_'') ps = []")
  case True
  then have "\<forall>c\<in>set ps. dbase c \<noteq> ''_''" by (auto simp: filter_empty_conv)
  then show ?thesis using True by (simp add: place_base_none)
next
  case False
  obtain ys x zs where p: "ps = ys @ x # zs" "dbase x = ''_''" "\<forall>y\<in>set (ys @ zs). dbase y \<noteq> ''_''"
    by (rule filter_single [OF assms False])
  then have "filter (\<lambda>c. dbase c = ''_'') ps = [x]" "filter (\<lambda>c. dbase c \<noteq> ''_'') ps = ys @ zs"
    by (auto simp: filter_empty_conv filter_id_conv)
  then show ?thesis using place_base_one [of ys zs x] p by simp
qed

lemma place_star_filter:
  assumes "length (filter (\<lambda>c. dbase c = ''*'') ps) \<le> 1"
  shows "place_star ps = filter (\<lambda>c. dbase c \<noteq> ''*'') ps @ filter (\<lambda>c. dbase c = ''*'') ps"
proof (cases "filter (\<lambda>c. dbase c = ''*'') ps = []")
  case True
  then have no: "\<forall>c\<in>set ps. dbase c \<noteq> ''*''" by (auto simp: filter_empty_conv)
  then have "filter (\<lambda>c. dbase c \<noteq> ''*'') ps = ps" by (simp add: filter_id_conv)
  then show ?thesis using True no by (simp add: place_star_none)
next
  case False
  obtain ys x zs where p: "ps = ys @ x # zs" "dbase x = ''*''" "\<forall>y\<in>set (ys @ zs). dbase y \<noteq> ''*''"
    by (rule filter_single [OF assms False])
  then have "filter (\<lambda>c. dbase c = ''*'') ps = [x]" "filter (\<lambda>c. dbase c \<noteq> ''*'') ps = ys @ zs"
    by (auto simp: filter_empty_conv filter_id_conv)
  then show ?thesis using place_star_one [of ys zs x] p by simp
qed

section \<open>Properties\<close>


text \<open>C26. The level of an address on a database is the one of the first block for the
  database, in the order of the configuration, that has a rule for the address; when there
  is none it is that of the last baseline, and none without a baseline.\<close>

theorem access_decided:
  assumes "\<forall>c\<in>set cfg. dbase c \<noteq> []"
  shows "allowed_ops_on_dbase cfg ip db = Inr
    (case find (\<lambda>c. record_for db c \<and> allowed_ops_cnf c ip \<noteq> T_ERR) cfg of
       Some c \<Rightarrow> allowed_ops_cnf c ip | None \<Rightarrow> baseline cfg ip T_NONE)"
  using on_dbase_loop_spec [OF assms] by (simp add: allowed_ops_on_dbase_def)

theorem documented_masks_refused:
  assumes "conf_word host" and "host \<noteq> ''from''" and "CHR ''/'' \<notin> set host"
  shows "rule_line N q ops (''from '' @ host @ '' netmask '' @ netmask) S = rule_line N q ops (''from '' @ host) S
    \<and> decode_mask N (host @ ''/0'') = None"
proof -
  have fw: "conf_word ''from''" and sp: "ends_word CHR '' ''" by (simp_all add: conf_word_def ends_word_def isspace_def)
  have 1: "nextword_but [''from''] (''from'' @ CHR '' '' # xs) = nextword_but [''from''] xs" for xs
    using nextword_but_word(3) [OF fw _ sp, of "[''from'']"] by simp
  have "fst (nextword_but [''from''] (host @ CHR '' '' # ''netmask '' @ netmask)) = host" "fst (nextword_but [''from''] host) = host"
    using nextword_but_word(1,2) [OF assms(1), of "[''from'']"] assms(2) sp by simp_all
  then have "fst (nextword_but [''from''] (''from '' @ host @ '' netmask '' @ netmask)) = host"
    "fst (nextword_but [''from''] (''from '' @ host)) = host"
    using 1 [of "host @ CHR '' '' # ''netmask '' @ netmask"] 1 [of host] by simp_all
  then have rule: "rule_line N q ops (''from '' @ host @ '' netmask '' @ netmask) S = rule_line N q ops (''from '' @ host) S"
    by (simp add: rule_line_def Let_def case_prod_beta)
  have "takeWhile (\<lambda>x. x \<noteq> CHR ''/'') (host @ ''/0'') = host" 
    using assms(3) by (subst takeWhile_append2) auto
  moreover have "dropWhile (\<lambda>x. x \<noteq> CHR ''/'') (host @ ''/0'') = ''/0''"
    using assms(3) by (subst dropWhile_append2) auto
  ultimately have "index (host @ ''/0'') CHR ''/'' = Some (host, ''0'')" by (simp add: index_def)
  moreover have "strtol10 ''0'' = 0" by (simp add: strtol10_def isspace_def isdigit_def)
  moreover have "last (host @ ''/0'') \<noteq> last ''all''" by simp
  then have "host @ ''/0'' \<noteq> ''all''" by (rule contrapos_nn) simp
  ultimately have "decode_mask N (host @ ''/0'') = None" by (simp add: decode_mask_def)
  then show ?thesis using rule by blast
qed

text \<open>One resolver, and a file with a rule for a network and a baseline\<close>

definition sample_resolver :: resolver where
  "sample_resolver = \<lparr>inet_aton = (\<lambda>s. if s = ''10.0.0.0'' then Some 0x0A000000 else None),
     gethostbyname = (\<lambda>_. None), host_errno = (\<lambda>_. True)\<rparr>"

definition sample_blocks :: "conf_block list" where
  "sample_blocks =
     [\<lparr>block_name = ''site'', block_order = T_DENY, block_rules = [Rule True T_RDWR ''10.0.0.0/8'', Rule False T_ALL ''all'']\<rparr>,
      \<lparr>block_name = ''_'', block_order = T_UNSET, block_rules = [Rule True T_RDONLY ''all'']\<rparr>]"

lemma sample_masks:
  "decode_mask sample_resolver ''10.0.0.0/8'' = Some (0x0A000000, 0xFF000000)" "decode_mask sample_resolver ''all'' = Some (0, 0)"
proof -
  have "strtol10 ''8'' = 8" by (simp add: strtol10_def isspace_def isdigit_def)
  then show "decode_mask sample_resolver ''10.0.0.0/8'' = Some (0x0A000000, 0xFF000000)"
    by (simp add: decode_mask_def index_def getip_def sample_resolver_def INADDR_NONE_def)
  show "decode_mask sample_resolver ''all'' = Some (0, 0)" by (simp add: decode_mask_def)
qed

lemma sample_blocks_good: "\<forall>b\<in>set sample_blocks. block_good sample_resolver b"
  by (simp add: sample_blocks_def block_good_def sample_masks conf_word_def ends_word_def isspace_def)


theorem access_decided_witness:
  "allowed_ops_on_dbase
     [\<lparr>dbase = ''site'', order_first = T_DENY, recdeny = [\<lparr>cf_op = T_ALL, cf_ip = 0, cf_mask = 0\<rparr>],
       recallow = [\<lparr>cf_op = T_RDWR, cf_ip = 0x0A000000, cf_mask = 0xFF000000\<rparr>]\<rparr>] 0x0A000001 ''site'' = Inr T_RDWR"
  by (subst access_decided) (simp_all add: record_for_def allowed_ops_cnf_def allowed_def allow_level_def Let_def
      max_def less_eq_tops_def)

theorem documented_masks_refused_witness:
  "rule_line sample_resolver ''allow'' ''rdwr'' (''from '' @ ''10.0.0.0'' @ '' netmask '' @ ''255.0.0.0'') \<lparr>nested = Some ''dbase'', controls = []\<rparr>
     = rule_line sample_resolver ''allow'' ''rdwr'' (''from '' @ ''10.0.0.0'') \<lparr>nested = Some ''dbase'', controls = []\<rparr>
   \<and> decode_mask sample_resolver (''10.0.0.0'' @ ''/0'') = None"
  by (rule documented_masks_refused) (simp_all add: conf_word_def ends_word_def isspace_def)

end
