(* ===== verification/Server.thy ===== *)
theory Server
  imports Access Bdb Flatdb
begin

text \<open>
  The process of the server that handles databases: \<open>dbms/deamon/handler.c\<close> (built with
  \<open>FORKING\<close> and the static buffers of \<open>arch.conf\<close>), the parts of \<open>deamon.c\<close>, \<open>children.c\<close> and
  \<open>loop.c\<close> that take a client over from the main process, close connections and sweep them,
  and \<open>pathmake.c\<close>. The database library, the file system and the sockets are parameters.
  A connection is known by its file descriptor, a record of a database by a number that stands
  for its address. The text of error messages is not kept.
\<close>

section \<open>The system below\<close>

datatype path_status = Is_directory | Is_other | Not_there | Stat_failed

text \<open>The comparison a tree is opened with\<close>

datatype compare = By_bytes | By_int | By_double

text \<open>
  The database functions and the data the cursor last returned; \<open>stat\<close> and \<open>mkdir\<close>; opening
  (\<open>db_create\<close>, \<open>open\<close> and the cursor) with the value of \<open>errno\<close> on failure, closing, and
  \<open>unlink\<close>; the base directory; the limit of clients; a byte of memory that was not set.
\<close>

record ('w, 's) sys =
  dbf :: "'s db"
  c_data :: "'s \<Rightarrow> flat_data"
  stat_path :: "'w \<Rightarrow> string \<Rightarrow> path_status"
  mkdir_path :: "'w \<Rightarrow> string \<Rightarrow> 'w option"
  open_file :: "'w \<Rightarrow> string \<Rightarrow> compare \<Rightarrow> 'w \<times> (int + 's)"
  close_file :: "'w \<Rightarrow> string \<Rightarrow> 's \<Rightarrow> 'w \<times> int"
  unlink_file :: "'w \<Rightarrow> string \<Rightarrow> 'w \<times> int"
  my_dir :: string
  max_clients :: nat
  unset_byte :: byte

section \<open>Paths\<close>

definition tolower :: "char \<Rightarrow> char" where
  "tolower c = (if CHR ''A'' \<le> c \<and> c \<le> CHR ''Z'' then char_of (of_char c + 32 :: nat) else c)"

text \<open>What is behind the last \<open>c\<close>, and what is before it\<close>

definition strrchr :: "string \<Rightarrow> char \<Rightarrow> (string \<times> string) option" where
  "strrchr s c =
     (if c \<in> set s then Some (rev (tl (dropWhile (\<lambda>x. x \<noteq> c) (rev s))), rev (takeWhile (\<lambda>x. x \<noteq> c) (rev s)))
      else None)"

fun squeeze :: "string \<Rightarrow> string" where
  "squeeze (a # b # s) = (if a = CHR ''/'' \<and> b = CHR ''/'' then squeeze (b # s) else a # squeeze (b # s))"
| "squeeze s = s"

definition full_path :: "string \<Rightarrow> string \<Rightarrow> string option" where
  "full_path base infile =
     (if infile = [] then None
      else
        let inpath = (if take (length base) infile = base then drop (length base) infile else infile);
            (inpath, file) = (case strrchr inpath CHR ''/'' of Some (d, f) \<Rightarrow> (d, f) | None \<Rightarrow> (''/'', inpath))
        in if file = [] then None
           else
             let hash = take 2 (file @ ''__'');
                 tmp = ''/'' @ base @ ''/'' @ inpath @ ''/'' @ hash @ ''/'' @ file;
                 tmp = (case strrchr tmp CHR ''.'' of
                     Some (d, e) \<Rightarrow> if map tolower e \<in> {''db'', ''dbm'', ''gdb''} then d else tmp
                   | None \<Rightarrow> tmp)
             in Some (squeeze (tmp @ ''.db'')))"

text \<open>The directories on the way, made where they are missing\<close>

primrec make_dirs :: "('w, 's) sys \<Rightarrow> string list \<Rightarrow> 'w \<Rightarrow> 'w \<times> bool" where
  "make_dirs Y [] w = (w, True)"
| "make_dirs Y (p # ps) w = (case stat_path Y w p of
     Is_directory \<Rightarrow> make_dirs Y ps w
   | Is_other \<Rightarrow> (w, False)
   | Not_there \<Rightarrow> (case mkdir_path Y w p of None \<Rightarrow> (w, False) | Some w \<Rightarrow> make_dirs Y ps w)
   | Stat_failed \<Rightarrow> (w, False))"

definition parents :: "string \<Rightarrow> string list" where
  "parents p = map (\<lambda>i. take i p) (filter (\<lambda>i. p ! i = CHR ''/'') [1..<length p])"

definition mkpath :: "('w, 's) sys \<Rightarrow> 'w \<Rightarrow> string \<Rightarrow> 'w \<times> string option" where
  "mkpath Y w infile = (case full_path (my_dir Y) infile of
     None \<Rightarrow> (w, None)
   | Some p \<Rightarrow> (case make_dirs Y (parents p) w of (w, ok) \<Rightarrow> (w, if ok then Some p else None)))"

section \<open>The state of a process\<close>

datatype conn_type = C_UNK | C_MUM | C_CLIENT | C_NEW_CLIENT | C_CHILD | C_LEGACY

record connection =
  conn_type :: conn_type
  clientfd :: nat
  address :: u32
  dbp :: "nat option"
  op :: tops
  closing :: bool

record 's dbase_rec =
  name :: string
  pfile :: string
  bt_compare :: u32
  handle :: "'s option"
  lastfd :: nat
  num_cls :: int
  dclose :: bool

text \<open>The two lists, with the newest first; the files; the number of the next record\<close>

record ('w, 's) process =
  config :: "txsctrl list"
  client_list :: "connection list"
  first_dbp :: "(nat \<times> 's dbase_rec) list"
  files :: 'w
  fresh_dbp :: nat

text \<open>
  How a process comes to an end: the end of the connection to the main process; a failed
  assertion; the use of a null pointer, of a database record that was given back to the list
  of free ones or freed, or of a closed handle; a read outside an object.
\<close>

datatype stop = Exit | Assertion_failed | Null_database | Stale_database | Closed_handle | Overread

datatype token =
  TOKEN_FETCH | TOKEN_STORE | TOKEN_DELETE | TOKEN_NEXTKEY | TOKEN_FIRSTKEY | TOKEN_EXISTS | TOKEN_SYNC
| TOKEN_INIT | TOKEN_CLOSE | TOKEN_CLEAR | TOKEN_FDPASS | TOKEN_PING | TOKEN_INC | TOKEN_LIST | TOKEN_DEC
| TOKEN_PACKINC | TOKEN_PACKDEC | TOKEN_DROP | TOKEN_FROM

text \<open>Replies with the status \<open>F_FOUND\<close> and the two values; \<open>reply_log\<close> sends an error.\<close>

datatype reply = Reply token bool "byte list" "byte list" | Error_reply

type_synonym ('w, 's) outcome = "stop + ('w, 's) process \<times> (nat \<times> reply) list"

definition upd_conn :: "nat \<Rightarrow> (connection \<Rightarrow> connection) \<Rightarrow> ('w, 's) process \<Rightarrow> ('w, 's) process" where
  "upd_conn fd f P = P\<lparr>client_list := map (\<lambda>r. if clientfd r = fd then f r else r) (client_list P)\<rparr>"

definition upd_db :: "nat \<Rightarrow> ('s dbase_rec \<Rightarrow> 's dbase_rec) \<Rightarrow> ('w, 's) process \<Rightarrow> ('w, 's) process" where
  "upd_db i f P = P\<lparr>first_dbp := map (\<lambda>(j, d). (j, if j = i then f d else d)) (first_dbp P)\<rparr>"

definition mark_close :: "nat \<Rightarrow> ('w, 's) process \<Rightarrow> ('w, 's) process" where
  "mark_close fd = upd_conn fd (\<lambda>r. r\<lparr>closing := True\<rparr>)"

definition answer :: "('w, 's) process \<Rightarrow> connection \<Rightarrow> reply \<Rightarrow> ('w, 's) outcome" where
  "answer P r m = Inr (P, [(clientfd r, m)])"

text \<open>The record behind \<open>r->dbp\<close>, and its handle\<close>

definition the_dbp :: "('w, 's) process \<Rightarrow> connection \<Rightarrow> stop + nat \<times> 's dbase_rec" where
  "the_dbp P r = (case dbp r of
     None \<Rightarrow> Inl Null_database
   | Some i \<Rightarrow> (case map_of (first_dbp P) i of None \<Rightarrow> Inl Stale_database | Some d \<Rightarrow> Inr (i, d)))"

definition the_handle :: "('w, 's) process \<Rightarrow> connection \<Rightarrow> stop + nat \<times> 's dbase_rec \<times> 's" where
  "the_handle P r = bindE (the_dbp P r) (\<lambda>(i, d).
     case handle d of None \<Rightarrow> Inl Closed_handle | Some s \<Rightarrow> Inr (i, d, s))"

definition put_handle :: "nat \<Rightarrow> 's option \<Rightarrow> ('w, 's) process \<Rightarrow> ('w, 's) process" where
  "put_handle i h = upd_db i (\<lambda>d. d\<lparr>handle := h\<rparr>)"

abbreviation set_handle :: "nat \<Rightarrow> 's \<Rightarrow> ('w, 's) process \<Rightarrow> ('w, 's) process" where
  "set_handle i s \<equiv> put_handle i (Some s)"

section \<open>Opening and closing databases\<close>

definition chosen_compare :: "u32 \<Rightarrow> compare" where
  "chosen_compare bt = (if bt = 7000 then By_int else if bt = 7001 then By_double else By_bytes)"

text \<open>\<open>open_dbp\<close> returns \<open>errno\<close> when the database does not open.\<close>

definition open_dbp :: "('w, 's) sys \<Rightarrow> 'w \<Rightarrow> 's dbase_rec \<Rightarrow> 'w \<times> 's dbase_rec \<times> int" where
  "open_dbp Y w d = (case open_file Y w (pfile d) (chosen_compare (bt_compare d)) of
     (w, Inl e) \<Rightarrow> (w, d\<lparr>handle := None\<rparr>, e)
   | (w, Inr s) \<Rightarrow> (w, d\<lparr>handle := Some s\<rparr>, 0))"

definition dbclose :: "('w, 's) sys \<Rightarrow> 'w \<Rightarrow> 's dbase_rec \<Rightarrow> 's \<Rightarrow> 'w \<times> 's dbase_rec \<times> int" where
  "dbclose Y w d s =
     (let (s, e) = db_sync (dbf Y) s
      in if e \<noteq> 0 then (w, d\<lparr>handle := Some s\<rparr>, - 1)
         else (case close_file Y w (pfile d) s of (w, e) \<Rightarrow> (w, d\<lparr>handle := None\<rparr>, if e \<noteq> 0 then - 1 else 0)))"

text \<open>\<open>zap_dbs\<close> with \<open>free_dbs\<close>: its clients are marked, the record is taken out and closed.\<close>

definition zap_dbs :: "('w, 's) sys \<Rightarrow> nat \<Rightarrow> ('w, 's) process \<Rightarrow> stop + ('w, 's) process" where
  "zap_dbs Y i P = (case map_of (first_dbp P) i of
     None \<Rightarrow> Inr P
   | Some d \<Rightarrow>
       let P = P\<lparr>client_list := map (\<lambda>r. if dbp r = Some i then r\<lparr>closing := True\<rparr> else r) (client_list P),
                 first_dbp := filter (\<lambda>(j, _). j \<noteq> i) (first_dbp P)\<rparr>
       in (case handle d of
             None \<Rightarrow> Inl Closed_handle
           | Some s \<Rightarrow> Inr (P\<lparr>files := fst (dbclose Y (files P) d s)\<rparr>)))"

text \<open>The characters of a name, up to 254 of them\<close>

definition isalnum :: "char \<Rightarrow> bool" where
  "isalnum c \<longleftrightarrow> CHR ''0'' \<le> c \<and> c \<le> CHR ''9'' \<or> CHR ''A'' \<le> c \<and> c \<le> CHR ''Z'' \<or> CHR ''a'' \<le> c \<and> c \<le> CHR ''z''"

definition clean_name :: "byte list \<Rightarrow> string" where
  "clean_name v2 = filter isalnum (map (\<lambda>b. char_of (unat b)) (take 254 v2))"

definition xsmode_level :: "u32 \<Rightarrow> tops option" where
  "xsmode_level xsmode =
     (if xsmode = 1 then Some T_RDONLY else if xsmode = 2 then Some T_RDWR
      else if xsmode = 3 then Some T_CREAT else if xsmode = 4 then Some T_DROP else None)"

definition HARD_MAX_DBASE :: nat where
  "HARD_MAX_DBASE = 256"

definition MAX_STATIC_NAME :: nat where
  "MAX_STATIC_NAME = 256"

text \<open>
  A database that is not in the list: a new record at its head, and whether the database is
  open, or whether the failure left \<open>errno\<close> at \<open>ENOENT\<close>
\<close>

definition new_dbp ::
  "('w, 's) sys \<Rightarrow> ('w, 's) process \<Rightarrow> tops \<Rightarrow> u32 \<Rightarrow> string \<Rightarrow> nat \<Rightarrow> ('w, 's) process \<times> (bool + nat)"
where
  "new_dbp Y P granted bt nm sz =
     (if length (first_dbp P) > HARD_MAX_DBASE then (P, Inl False)
      else if 1 + sz > MAX_STATIC_NAME then (P, Inl False)
      else (case mkpath Y (files P) nm of
        (w, None) \<Rightarrow> (P\<lparr>files := w\<rparr>, Inl False)
      | (w, Some path) \<Rightarrow>
          if granted < T_CREAT \<and> (stat_path Y w path = Not_there \<or> stat_path Y w path = Stat_failed)
          then (P\<lparr>files := w\<rparr>, Inl (stat_path Y w path = Not_there))
          else
            let d = \<lparr>name = nm, pfile = path, bt_compare = bt, handle = None, lastfd = 0, num_cls = 0, dclose = False\<rparr>
            in (case open_dbp Y w d of
                (w, d, e) \<Rightarrow>
                  if e = 0 then (P\<lparr>files := w, first_dbp := (fresh_dbp P, d) # first_dbp P, fresh_dbp := fresh_dbp P + 1\<rparr>,
                                 Inr (fresh_dbp P))
                  else (P\<lparr>files := w\<rparr>, Inl (e = 2)))))"

text \<open>
  The level granted and the database, or whether \<open>errno\<close> is \<open>ENOENT\<close>. The level is set before
  it is known whether the request stays below it. The code behind the test of the comparison
  function, which would open the database again, is not reached.
\<close>

definition get_dbp ::
  "('w, 's) sys \<Rightarrow> ('w, 's) process \<Rightarrow> u32 \<Rightarrow> u32 \<Rightarrow> u32 \<Rightarrow> byte list
    \<Rightarrow> stop + ('w, 's) process \<times> tops \<times> (bool + nat)"
where
  "get_dbp Y P addr xsmode bt v2 =
     (case allowed_ops_on_dbase (config P) addr (clean_name v2) of
        Inl Conf_read \<Rightarrow> Inl Overread
      | Inr level \<Rightarrow> Inr
         (case xsmode_level xsmode of
            None \<Rightarrow> (P, level, Inl False)
          | Some mops \<Rightarrow>
              if mops > level then (P, level, Inl False)
              else
                let granted = min mops level
                in (case find (\<lambda>(i, d). name d = clean_name v2) (first_dbp P) of
                    Some (i, d) \<Rightarrow> (P, granted, if bt_compare d AND bt = bt then Inr i else Inl False)
                  | None \<Rightarrow>
                      (case new_dbp Y P granted bt (clean_name v2) (length v2) of (P, r) \<Rightarrow> (P, granted, r)))))"

section \<open>Taking a client over\<close>

definition ulong_at :: "byte list \<Rightarrow> nat \<Rightarrow> stop + u32" where
  "ulong_at buf i = (if 4 * i + 4 \<le> length buf then Inr (unpackInt (take 4 (drop (4 * i) buf))) else Inl Overread)"

definition DBMS_PROTO :: u32 where
  "DBMS_PROTO = 110 + 1 + 2 + 4"

definition HARD_MAX_CLIENTS :: nat where
  "HARD_MAX_CLIENTS = 2048 + 5"

text \<open>The list of clients with a new one, unless there are too many\<close>

definition handle_new_connection ::
  "('w, 's) sys \<Rightarrow> ('w, 's) process \<Rightarrow> nat \<Rightarrow> conn_type \<Rightarrow> u32 \<Rightarrow> ('w, 's) process option \<times> (nat \<times> reply) list"
where
  "handle_new_connection Y P fd type addr =
     (if length (client_list P) > HARD_MAX_CLIENTS then (None, [])
      else if length (client_list P) \<ge> max_clients Y then (None, [(fd, Error_reply)])
      else (Some (P\<lparr>client_list := \<lparr>conn_type = type, clientfd = fd, address = addr, dbp = None, op = T_ERR, closing = False\<rparr>
                     # client_list P\<rparr>), []))"

definition bt_supported :: "u32 \<Rightarrow> bool" where
  "bt_supported bt \<longleftrightarrow> bt = 0 \<or> 7000 \<le> bt \<and> bt \<le> 7002"

text \<open>
  \<open>do_init\<close> is meant for the main process; here its assertion fails after it has read the mode.
\<close>

definition do_init :: "byte list \<Rightarrow> byte list \<Rightarrow> ('w, 's) outcome" where
  "do_init v1 v2 = bindE (ulong_at (v1 @ v2) 1) (\<lambda>_. Inl Assertion_failed)"

text \<open>The client behind a descriptor that was handed over, with what the main process sent of it\<close>

definition take_client ::
  "('w, 's) sys \<Rightarrow> ('w, 's) process \<Rightarrow> nat \<Rightarrow> u32 \<Rightarrow> u32 \<Rightarrow> u32 \<Rightarrow> u32 \<Rightarrow> byte list \<Rightarrow> ('w, 's) outcome"
where
  "take_client Y P fd addr proto xsmode bt v2 =
     (case handle_new_connection Y P fd C_CLIENT addr of
        (None, out) \<Rightarrow> Inr (P, out)
      | (Some P, out) \<Rightarrow>
          if proto \<noteq> DBMS_PROTO then Inr (P, [(fd, Error_reply)])
          else if \<not> bt_supported bt then Inr (P, [(fd, Error_reply)])
          else bindE (get_dbp Y P addr xsmode bt v2) (\<lambda>(P, granted, res).
            case res of
              Inl enoent \<Rightarrow>
                let P = upd_conn fd (\<lambda>r. r\<lparr>op := granted\<rparr>) P
                in if enoent then Inr (mark_close fd P, [(fd, Reply TOKEN_INIT False [] [])])
                   else Inr (P, [(fd, Error_reply)])
            | Inr i \<Rightarrow>
                Inr (upd_db i (\<lambda>d. d\<lparr>num_cls := num_cls d + 1\<rparr>)
                       (upd_conn fd (\<lambda>r. r\<lparr>op := granted, dbp := Some i\<rparr>) P),
                     [(fd, Reply TOKEN_INIT True (packInt DBMS_PROTO) [])])))"

text \<open>\<open>taken\<close> is the descriptor that \<open>takeon_fd\<close> receives.\<close>

definition do_pass ::
  "('w, 's) sys \<Rightarrow> ('w, 's) process \<Rightarrow> connection \<Rightarrow> byte list \<Rightarrow> byte list \<Rightarrow> nat option \<Rightarrow> ('w, 's) outcome"
where
  "do_pass Y P mums_r v1 v2 taken =
     bindE (ulong_at (v1 @ v2) 3) (\<lambda>addr.
     bindE (ulong_at (v1 @ v2) 0) (\<lambda>proto.
     bindE (ulong_at (v1 @ v2) 1) (\<lambda>xsmode.
     bindE (ulong_at (v1 @ v2) 2) (\<lambda>bt.
       let P = upd_conn (clientfd mums_r) (\<lambda>r. r\<lparr>address := addr\<rparr>) P
       in (case taken of
             None \<Rightarrow> Inr (mark_close (clientfd mums_r) P, [(clientfd mums_r, Error_reply)])
           | Some fd \<Rightarrow> take_client Y P fd addr proto xsmode bt v2)))))"

section \<open>Commands\<close>

text \<open>
  A command of a connection that is not a client is logged and not answered. The database
  functions return \<open>DB_NOTFOUND\<close> and other errors as numbers that are not 0.
\<close>

definition for_client :: "('w, 's) process \<Rightarrow> connection \<Rightarrow> ('w, 's) outcome \<Rightarrow> ('w, 's) outcome" where
  "for_client P r f = (if conn_type r \<noteq> C_CLIENT then Inr (P, []) else f)"

definition do_fetch :: "('w, 's) sys \<Rightarrow> ('w, 's) process \<Rightarrow> connection \<Rightarrow> byte list \<Rightarrow> ('w, 's) outcome" where
  "do_fetch Y P r v1 = for_client P r (bindE (the_handle P r) (\<lambda>(i, d, s).
     case db_get (dbf Y) s v1 of
       Inr v \<Rightarrow> answer P r (Reply TOKEN_FETCH True v1 v)
     | Inl e \<Rightarrow> if e = DB_NOTFOUND (dbf Y) then answer P r (Reply TOKEN_FETCH False [] []) else answer P r Error_reply))"

definition do_exists :: "('w, 's) sys \<Rightarrow> ('w, 's) process \<Rightarrow> connection \<Rightarrow> byte list \<Rightarrow> ('w, 's) outcome" where
  "do_exists Y P r v1 = for_client P r (bindE (the_handle P r) (\<lambda>(i, d, s).
     case db_get (dbf Y) s v1 of
       Inr v \<Rightarrow> answer P r (Reply TOKEN_EXISTS True [] [])
     | Inl e \<Rightarrow> if e = DB_NOTFOUND (dbf Y) then answer P r (Reply TOKEN_EXISTS False [] []) else answer P r Error_reply))"

definition do_delete :: "('w, 's) sys \<Rightarrow> ('w, 's) process \<Rightarrow> connection \<Rightarrow> byte list \<Rightarrow> ('w, 's) outcome" where
  "do_delete Y P r v1 = for_client P r (bindE (the_handle P r) (\<lambda>(i, d, s).
     let (s, e) = db_del (dbf Y) s v1; P = set_handle i s P
     in if e = 0 then answer P r (Reply TOKEN_DELETE True [] [])
        else if e = DB_NOTFOUND (dbf Y) then answer P r (Reply TOKEN_DELETE False [] []) else answer P r Error_reply))"

definition do_store ::
  "('w, 's) sys \<Rightarrow> ('w, 's) process \<Rightarrow> connection \<Rightarrow> byte list \<Rightarrow> byte list \<Rightarrow> ('w, 's) outcome"
where
  "do_store Y P r v1 v2 = for_client P r (bindE (the_handle P r) (\<lambda>(i, d, s).
     let (s, e) = db_put (dbf Y) s v1 v2; P = set_handle i s P
     in if e \<le> 0 then answer P r (Reply TOKEN_STORE True [] []) else answer P r Error_reply))"

text \<open>The value written back by the commands that count\<close>

definition put_counter ::
  "('w, 's) sys \<Rightarrow> ('w, 's) process \<Rightarrow> connection \<Rightarrow> token \<Rightarrow> nat \<Rightarrow> 's \<Rightarrow> byte list \<Rightarrow> byte list \<Rightarrow> ('w, 's) outcome"
where
  "put_counter Y P r t i s key val =
     (let (s, e) = db_put (dbf Y) s key val; P = set_handle i s P
      in if e \<le> 0 then answer P r (Reply t True [] val) else answer P r Error_reply)"

text \<open>
  \<open>strtoul\<close> with base 10 on 32 bits: the number and what is behind it. \<open>ULONG_MAX\<close> stands for
  every number that does not fit.
\<close>

definition strtoul10 :: "string \<Rightarrow> nat \<times> string" where
  "strtoul10 s =
     (let t = dropWhile isspace s;
          neg = (t \<noteq> [] \<and> hd t = CHR ''-'');
          t = (if t \<noteq> [] \<and> (hd t = CHR ''-'' \<or> hd t = CHR ''+'') then tl t else t);
          n = foldl (\<lambda>n c. 10 * n + (of_char c - 48)) 0 (takeWhile isdigit t)
      in if t = [] \<or> \<not> isdigit (hd t) then (0, s)
         else if 2 ^ 32 \<le> n then (2 ^ 32 - 1, dropWhile isdigit t)
         else (if neg then (2 ^ 32 - n) mod 2 ^ 32 else n, dropWhile isdigit t))"

fun decimal :: "nat \<Rightarrow> string" where
  "decimal n = (if n < 10 then [char_of (48 + n)] else decimal (n div 10) @ [char_of (48 + n mod 10)])"

declare decimal.simps [simp del]

definition to_bytes :: "string \<Rightarrow> byte list" where
  "to_bytes s = map (\<lambda>c. word_of_nat (of_char c)) s"

text \<open>The characters in front of a zero byte, at most 255\<close>

definition counter_text :: "byte list \<Rightarrow> string" where
  "counter_text v = map (\<lambda>b. char_of (unat b)) (takeWhile (\<lambda>b. b \<noteq> 0) (take 255 v))"

text \<open>
  Whatever the error of the fetch, the size of the value is still 0, so the answer is that
  there is no such key.
\<close>

definition do_inc :: "('w, 's) sys \<Rightarrow> ('w, 's) process \<Rightarrow> connection \<Rightarrow> byte list \<Rightarrow> ('w, 's) outcome" where
  "do_inc Y P r v1 = for_client P r (bindE (the_handle P r) (\<lambda>(i, d, s).
     case db_get (dbf Y) s v1 of
       Inl e \<Rightarrow> answer P r (Reply TOKEN_INC False [] [])
     | Inr v \<Rightarrow>
         if v = [] then answer P r (Reply TOKEN_INC False [] [])
         else
           let (l, p) = strtoul10 (counter_text v)
           in if p \<noteq> [] \<or> l = 2 ^ 32 - 1 then answer P r Error_reply
              else put_counter Y P r TOKEN_INC i s v1 (to_bytes (decimal (l + 1)))))"

definition do_dec :: "('w, 's) sys \<Rightarrow> ('w, 's) process \<Rightarrow> connection \<Rightarrow> byte list \<Rightarrow> ('w, 's) outcome" where
  "do_dec Y P r v1 = for_client P r (bindE (the_handle P r) (\<lambda>(i, d, s).
     case db_get (dbf Y) s v1 of
       Inl e \<Rightarrow> answer P r (Reply TOKEN_DEC False [] [])
     | Inr v \<Rightarrow>
         if v = [] then answer P r (Reply TOKEN_DEC False [] [])
         else
           let (l, p) = strtoul10 (counter_text v)
           in if p \<noteq> [] \<or> l = 2 ^ 32 - 1 \<or> l = 0 then answer P r Error_reply
              else put_counter Y P r TOKEN_DEC i s v1 (to_bytes (decimal (l - 1)))))"

text \<open>Packed counters have four bytes; the decrement stores a fifth one that was not set.\<close>

definition do_packinc :: "('w, 's) sys \<Rightarrow> ('w, 's) process \<Rightarrow> connection \<Rightarrow> byte list \<Rightarrow> ('w, 's) outcome" where
  "do_packinc Y P r v1 = for_client P r (bindE (the_handle P r) (\<lambda>(i, d, s).
     case db_get (dbf Y) s v1 of
       Inl e \<Rightarrow> answer P r (Reply TOKEN_PACKINC False [] [])
     | Inr v \<Rightarrow>
         if v = [] then answer P r (Reply TOKEN_PACKINC False [] [])
         else if length v < 4 then Inl Overread
         else put_counter Y P r TOKEN_PACKINC i s v1 (packInt (unpackInt v + 1))))"

definition do_packdec :: "('w, 's) sys \<Rightarrow> ('w, 's) process \<Rightarrow> connection \<Rightarrow> byte list \<Rightarrow> ('w, 's) outcome" where
  "do_packdec Y P r v1 = for_client P r (bindE (the_handle P r) (\<lambda>(i, d, s).
     case db_get (dbf Y) s v1 of
       Inl e \<Rightarrow> answer P r (Reply TOKEN_PACKDEC False [] [])
     | Inr v \<Rightarrow>
         if v = [] then answer P r (Reply TOKEN_PACKDEC False [] [])
         else if length v < 4 then Inl Overread
         else put_counter Y P r TOKEN_PACKDEC i s v1 (packInt (unpackInt v - 1) @ [unset_byte Y])))"

definition do_sync :: "('w, 's) sys \<Rightarrow> ('w, 's) process \<Rightarrow> connection \<Rightarrow> ('w, 's) outcome" where
  "do_sync Y P r = for_client P r (bindE (the_handle P r) (\<lambda>(i, d, s).
     let (s, e) = db_sync (dbf Y) s; P = set_handle i s P
     in if e \<noteq> 0 then answer P r Error_reply else answer P r (Reply TOKEN_SYNC False [] [])))"

text \<open>Closed, removed and opened again, up to the first step that fails\<close>

definition do_clear :: "('w, 's) sys \<Rightarrow> ('w, 's) process \<Rightarrow> connection \<Rightarrow> ('w, 's) outcome" where
  "do_clear Y P r = for_client P r (bindE (the_handle P r) (\<lambda>(i, d, s).
     let (w, d, e) = dbclose Y (files P) d s; P = put_handle i (handle d) (P\<lparr>files := w\<rparr>)
     in if e \<noteq> 0 then answer P r Error_reply
        else
          let (w, e) = unlink_file Y w (pfile d); P = P\<lparr>files := w\<rparr>
          in if e \<noteq> 0 then answer P r Error_reply
             else
               let (w, d, e) = open_dbp Y w d; P = put_handle i (handle d) (P\<lparr>files := w\<rparr>)
               in if e \<noteq> 0 then answer P r Error_reply else answer P r (Reply TOKEN_CLEAR False [] [])))"

definition do_list :: "('w, 's) process \<Rightarrow> connection \<Rightarrow> ('w, 's) outcome" where
  "do_list P r = answer P r Error_reply"

definition do_ping :: "('w, 's) process \<Rightarrow> connection \<Rightarrow> ('w, 's) outcome" where
  "do_ping P r = answer P r (Reply TOKEN_PING True [] [])"

definition do_drop :: "('w, 's) sys \<Rightarrow> ('w, 's) process \<Rightarrow> connection \<Rightarrow> ('w, 's) outcome" where
  "do_drop Y P r = bindE (the_dbp P r) (\<lambda>(i, d).
     bindE (zap_dbs Y i P) (\<lambda>P.
       case unlink_file Y (files P) (pfile d) of
         (w, e) \<Rightarrow> answer (P\<lparr>files := w\<rparr>) r (if e \<noteq> 0 then Error_reply else Reply TOKEN_DROP True [] [])))"

definition do_close :: "('w, 's) process \<Rightarrow> connection \<Rightarrow> ('w, 's) outcome" where
  "do_close P r = for_client P r (answer (mark_close (clientfd r) P) r (Reply TOKEN_CLOSE False [] []))"

text \<open>\<open>_from\<close> moves the cursor that all clients of the database share.\<close>

definition from_cursor ::
  "('w, 's) sys \<Rightarrow> ('w, 's) process \<Rightarrow> connection \<Rightarrow> token \<Rightarrow> ('s \<Rightarrow> 's \<times> (int + flat_key)) \<Rightarrow> ('w, 's) outcome"
where
  "from_cursor Y P r t get = for_client P r (bindE (the_handle P r) (\<lambda>(i, d, s).
     case get s of (s, k) \<Rightarrow>
       let P = upd_db i (\<lambda>d. d\<lparr>lastfd := clientfd r, handle := Some s\<rparr>) P
       in (case k of
             Inr k \<Rightarrow> answer P r (Reply t True k (c_data Y s))
           | Inl e \<Rightarrow> if e = DB_NOTFOUND (dbf Y) then answer P r (Reply t False [] []) else answer P r Error_reply)))"

definition do_first :: "('w, 's) sys \<Rightarrow> ('w, 's) process \<Rightarrow> connection \<Rightarrow> ('w, 's) outcome" where
  "do_first Y P r = from_cursor Y P r TOKEN_FIRSTKEY (c_get_first (dbf Y))"

definition do_from :: "('w, 's) sys \<Rightarrow> ('w, 's) process \<Rightarrow> connection \<Rightarrow> byte list \<Rightarrow> ('w, 's) outcome" where
  "do_from Y P r v1 = from_cursor Y P r TOKEN_FROM (\<lambda>s. c_get_range (dbf Y) s v1)"

text \<open>
  When another client has used the cursor last, it is moved once more; the key the client
  sends is not looked at. The first result is kept when it is not a success.
\<close>

definition do_next :: "('w, 's) sys \<Rightarrow> ('w, 's) process \<Rightarrow> connection \<Rightarrow> byte list \<Rightarrow> ('w, 's) outcome" where
  "do_next Y P r v1 = for_client P r (bindE (the_handle P r) (\<lambda>(i, d, s).
     let other = (lastfd d \<noteq> clientfd r);
         (s, k) = (if other then c_get_next (dbf Y) s else (s, Inr []));
         (s, k) = (case k of Inl e \<Rightarrow> (s, Inl (e, other)) | Inr _ \<Rightarrow>
                     (case c_get_next (dbf Y) s of (s, Inl e) \<Rightarrow> (s, Inl (e, False)) | (s, Inr k) \<Rightarrow> (s, Inr k)));
         P = upd_db i (\<lambda>d. d\<lparr>lastfd := clientfd r, handle := Some s\<rparr>) P
     in (case k of
           Inr k \<Rightarrow> answer P r (Reply TOKEN_NEXTKEY True k (c_data Y s))
         | Inl (e, before) \<Rightarrow>
             if before \<and> e \<noteq> DB_NOTFOUND (dbf Y) then answer P r Error_reply
             else if e = DB_NOTFOUND (dbf Y) \<or> e > 0 then answer P r (Reply TOKEN_NEXTKEY False [] [])
             else answer P r Error_reply)))"

section \<open>Requests\<close>

text \<open>The handler a token has, and the level its entry in \<open>cmd_table\<close> asks for\<close>

definition token_of :: "nat \<Rightarrow> token option" where
  "token_of n = map_of
     [(1, TOKEN_FETCH), (2, TOKEN_STORE), (3, TOKEN_DELETE), (4, TOKEN_NEXTKEY), (5, TOKEN_FIRSTKEY), (6, TOKEN_EXISTS),
      (7, TOKEN_SYNC), (8, TOKEN_INIT), (9, TOKEN_CLOSE), (10, TOKEN_CLEAR), (11, TOKEN_FDPASS), (12, TOKEN_PING),
      (13, TOKEN_INC), (14, TOKEN_LIST), (15, TOKEN_DEC), (16, TOKEN_PACKINC), (17, TOKEN_PACKDEC), (18, TOKEN_DROP),
      (19, TOKEN_FROM)] n"

primrec cmd_op :: "token \<Rightarrow> tops" where
  "cmd_op TOKEN_INIT = T_ERR"
| "cmd_op TOKEN_FETCH = T_RDONLY"
| "cmd_op TOKEN_STORE = T_RDWR"
| "cmd_op TOKEN_DELETE = T_RDWR"
| "cmd_op TOKEN_CLOSE = T_NONE"
| "cmd_op TOKEN_NEXTKEY = T_RDONLY"
| "cmd_op TOKEN_FIRSTKEY = T_RDONLY"
| "cmd_op TOKEN_EXISTS = T_RDONLY"
| "cmd_op TOKEN_SYNC = T_RDWR"
| "cmd_op TOKEN_CLEAR = T_CREAT"
| "cmd_op TOKEN_PING = T_NONE"
| "cmd_op TOKEN_DROP = T_DROP"
| "cmd_op TOKEN_INC = T_RDWR"
| "cmd_op TOKEN_DEC = T_RDWR"
| "cmd_op TOKEN_PACKINC = T_RDWR"
| "cmd_op TOKEN_PACKDEC = T_RDWR"
| "cmd_op TOKEN_LIST = T_RDONLY"
| "cmd_op TOKEN_FROM = T_RDONLY"
| "cmd_op TOKEN_FDPASS = T_ERR"

text \<open>What arrives: the two values, and the descriptor behind them\<close>

record request =
  v1 :: "byte list"
  v2 :: "byte list"
  taken :: "nat option"

definition handler ::
  "('w, 's) sys \<Rightarrow> ('w, 's) process \<Rightarrow> connection \<Rightarrow> request \<Rightarrow> token \<Rightarrow> ('w, 's) outcome"
where
  "handler Y P r q t = (case t of
     TOKEN_INIT \<Rightarrow> do_init (v1 q) (v2 q)
   | TOKEN_FETCH \<Rightarrow> do_fetch Y P r (v1 q)
   | TOKEN_STORE \<Rightarrow> do_store Y P r (v1 q) (v2 q)
   | TOKEN_DELETE \<Rightarrow> do_delete Y P r (v1 q)
   | TOKEN_CLOSE \<Rightarrow> do_close P r
   | TOKEN_NEXTKEY \<Rightarrow> do_next Y P r (v1 q)
   | TOKEN_FIRSTKEY \<Rightarrow> do_first Y P r
   | TOKEN_EXISTS \<Rightarrow> do_exists Y P r (v1 q)
   | TOKEN_SYNC \<Rightarrow> do_sync Y P r
   | TOKEN_CLEAR \<Rightarrow> do_clear Y P r
   | TOKEN_PING \<Rightarrow> do_ping P r
   | TOKEN_DROP \<Rightarrow> do_drop Y P r
   | TOKEN_INC \<Rightarrow> do_inc Y P r (v1 q)
   | TOKEN_DEC \<Rightarrow> do_dec Y P r (v1 q)
   | TOKEN_PACKINC \<Rightarrow> do_packinc Y P r (v1 q)
   | TOKEN_PACKDEC \<Rightarrow> do_packdec Y P r (v1 q)
   | TOKEN_LIST \<Rightarrow> do_list P r
   | TOKEN_FROM \<Rightarrow> do_from Y P r (v1 q)
   | TOKEN_FDPASS \<Rightarrow> do_pass Y P r (v1 q) (v2 q) (taken q))"

text \<open>The token 20 passes the test of the range and is behind the end of the table.\<close>

definition parse_request ::
  "('w, 's) sys \<Rightarrow> ('w, 's) process \<Rightarrow> connection \<Rightarrow> nat \<Rightarrow> request \<Rightarrow> ('w, 's) outcome"
where
  "parse_request Y P r n q =
     (if n = 20 then Inl Overread
      else (case token_of n of
          None \<Rightarrow> answer (mark_close (clientfd r) P) r Error_reply
        | Some t \<Rightarrow>
            if cmd_op t \<le> op r then handler Y P r q t
            else answer (mark_close (clientfd r) P) r Error_reply))"

section \<open>Sweeping\<close>

text \<open>\<open>zap\<close> and \<open>free_connection\<close>\<close>

definition zap :: "connection \<Rightarrow> ('w, 's) process \<Rightarrow> stop + ('w, 's) process" where
  "zap r P =
     (let P = P\<lparr>client_list := filter (\<lambda>c. clientfd c \<noteq> clientfd r) (client_list P)\<rparr>
      in (case conn_type r of
            C_MUM \<Rightarrow> Inl Exit
          | C_CLIENT \<Rightarrow>
              (case dbp r of
                 None \<Rightarrow> Inr P
               | Some i \<Rightarrow> bindE (the_dbp P r) (\<lambda>_. Inr (upd_db i (\<lambda>d. let d = d\<lparr>num_cls := num_cls d - 1\<rparr>
                   in if num_cls d \<le> 0 then d\<lparr>dclose := True\<rparr> else d) P)))
          | _ \<Rightarrow> Inr P))"

primrec zap_all :: "connection list \<Rightarrow> ('w, 's) process \<Rightarrow> stop + ('w, 's) process" where
  "zap_all [] P = Inr P"
| "zap_all (r # rs) P = bindE (if closing r then zap r P else Inr P) (zap_all rs)"

primrec zap_closed_dbs :: "('w, 's) sys \<Rightarrow> (nat \<times> 's dbase_rec) list \<Rightarrow> ('w, 's) process \<Rightarrow> stop + ('w, 's) process" where
  "zap_closed_dbs Y [] P = Inr P"
| "zap_closed_dbs Y (q # qs) P = bindE (if dclose (snd q) then zap_dbs Y (fst q) P else Inr P) (zap_closed_dbs Y qs)"

text \<open>The end of a round of \<open>select_loop\<close>\<close>

definition sweep :: "('w, 's) sys \<Rightarrow> ('w, 's) process \<Rightarrow> stop + ('w, 's) process" where
  "sweep Y P = bindE (zap_all (client_list P) P) (\<lambda>P. zap_closed_dbs Y (first_dbp P) P)"

text \<open>\<open>flush_all\<close>, after five minutes\<close>

definition flush_all :: "('w, 's) sys \<Rightarrow> ('w, 's) process \<Rightarrow> stop + ('w, 's) process" where
  "flush_all Y P =
     (if \<exists>(i, d)\<in>set (first_dbp P). handle d = None then Inl Closed_handle
      else Inr (P\<lparr>first_dbp := map (\<lambda>(i, d). (i, d\<lparr>handle := map_option (\<lambda>s. fst (db_sync (dbf Y) s)) (handle d)\<rparr>)) (first_dbp P)\<rparr>))"

text \<open>\<open>accept\<close> in the main process\<close>

definition accepts :: "txsctrl list \<Rightarrow> u32 \<Rightarrow> bool" where
  "accepts cfg addr \<longleftrightarrow> allowed_ops cfg addr > T_NONE"

section \<open>Runs of a process\<close>

text \<open>
  A request on a connection that is not about to be closed; a connection that is lost, on
  reading, writing or an exception; the flush; the sweep. Only the connection to the main
  process hands over a descriptor.
\<close>

datatype event = Request nat nat request | Lost nat | Flush | Sweep

inductive serves ::
  "('w, 's) sys \<Rightarrow> ('w, 's) process \<Rightarrow> event \<Rightarrow> (nat \<times> reply) list \<Rightarrow> ('w, 's) process \<Rightarrow> bool"
  for Y :: "('w, 's) sys"
where
  Request: "r \<in> set (client_list P) \<Longrightarrow> \<not> closing r \<Longrightarrow> clientfd r = fd
    \<Longrightarrow> (\<forall>fd'. taken q = Some fd' \<longrightarrow> conn_type r = C_MUM \<and> fd' \<notin> clientfd ` set (client_list P))
    \<Longrightarrow> parse_request Y P r n q = Inr (P', out) \<Longrightarrow> serves Y P (Request fd n q) out P'"
| Lost: "serves Y P (Lost fd) [] (mark_close fd P)"
| Flush: "flush_all Y P = Inr P' \<Longrightarrow> serves Y P Flush [] P'"
| Sweep: "sweep Y P = Inr P' \<Longrightarrow> serves Y P Sweep [] P'"

inductive_cases serves_cases: "serves Y P e out P'"
inductive_simps serves_request: "serves Y P (Request fd n q) out P'"
inductive_simps serves_sweep: "serves Y P Sweep out P'"

text \<open>The process right after the fork: the connection to the main process, and no database\<close>

definition fresh_process :: "txsctrl list \<Rightarrow> 'w \<Rightarrow> nat \<Rightarrow> ('w, 's) process" where
  "fresh_process cfg w mum_fd =
     \<lparr>config = cfg,
      client_list = [\<lparr>conn_type = C_MUM, clientfd = mum_fd, address = INADDR_NONE, dbp = None, op = T_ERR, closing = False\<rparr>],
      first_dbp = [], files = w, fresh_dbp = 0\<rparr>"

text \<open>The states reached by events with a property\<close>

inductive reached ::
  "('w, 's) sys \<Rightarrow> txsctrl list \<Rightarrow> (event \<Rightarrow> bool) \<Rightarrow> ('w, 's) process \<Rightarrow> bool"
  for Y :: "('w, 's) sys" and cfg :: "txsctrl list" and I :: "event \<Rightarrow> bool"
where
  start: "reached Y cfg I (fresh_process cfg w fd)"
| serve: "reached Y cfg I P \<Longrightarrow> serves Y P e out P' \<Longrightarrow> I e \<Longrightarrow> reached Y cfg I P'"

section \<open>The path of a database\<close>

section \<open>Files of databases\<close>

lemma squeeze_plain: "CHR ''/'' \<notin> set s \<Longrightarrow> squeeze s = s"
  by (induction s rule: squeeze.induct) auto

lemma squeeze_Cons: "a \<noteq> CHR ''/'' \<Longrightarrow> squeeze (a # s) = a # squeeze s"
  by (cases s) auto

lemma squeeze_before: "s \<noteq> [] \<Longrightarrow> hd s \<noteq> CHR ''/'' \<Longrightarrow> squeeze (a # s) = a # squeeze s"
  by (cases s) auto

lemma squeeze_append: "s \<noteq> [] \<Longrightarrow> hd s \<noteq> CHR ''/'' \<Longrightarrow> squeeze (xs @ s) = squeeze xs @ squeeze s"
  by (induction xs rule: squeeze.induct) (simp_all add: squeeze_before)

lemma squeeze_word: "CHR ''/'' \<notin> set s \<Longrightarrow> squeeze (s @ t) = s @ squeeze t"
  by (induction s) (auto simp: squeeze_Cons)

lemma clean_name_alnum: "c \<in> set (clean_name b) \<Longrightarrow> isalnum c"
  by (simp add: clean_name_def)

lemma alnum_plain: "isalnum c \<Longrightarrow> c \<noteq> CHR ''/'' \<and> c \<noteq> CHR ''.''"
  by (auto simp: isalnum_def)

lemma strrchr_none: "c \<notin> set s \<Longrightarrow> strrchr s c = None"
  by (simp add: strrchr_def)

lemma strrchr_last: "c \<notin> set e \<Longrightarrow> strrchr (d @ c # e) c = Some (d, e)"
proof -
  assume "c \<notin> set e"
  then have "dropWhile (\<lambda>x. x \<noteq> c) (rev e @ c # rev d) = c # rev d" "takeWhile (\<lambda>x. x \<noteq> c) (rev e @ c # rev d) = rev e"
    by (auto simp: dropWhile_append takeWhile_append)
  then show ?thesis by (simp add: strrchr_def)
qed

text \<open>The path of a database under a base that begins with a slash\<close>

lemma database_path:
  assumes "\<forall>c\<in>set nm. isalnum c" and "nm \<noteq> []" and "take 1 base = ''/''"
  shows "full_path base nm = Some (squeeze (''/'' @ base @ ''///'') @ take 2 (nm @ ''__'') @ ''/'' @ nm @ ''.db'')"
proof -
  have plain: "CHR ''/'' \<notin> set nm" "CHR ''.'' \<notin> set nm" using assms(1) alnum_plain by blast+
  let ?h = "take 2 (nm @ ''__'')"
  have h: "?h \<noteq> []" "CHR ''/'' \<notin> set ?h" "CHR ''.'' \<notin> set ?h"
    using assms(2) plain by (auto dest: in_set_takeD)
  have notbase: "take (length base) nm \<noteq> base" using assms(3) plain(1) by (cases base; cases nm) auto
  define tmp where "tmp = ''/'' @ base @ ''/'' @ ''/'' @ ''/'' @ ?h @ ''/'' @ nm"
  have suffix: "(case strrchr tmp CHR ''.'' of Some (d, e) \<Rightarrow> if map tolower e \<in> {''db'', ''dbm'', ''gdb''} then d else tmp | None \<Rightarrow> tmp) = tmp"
  proof (cases "CHR ''.'' \<in> set base")
    case False
    then have "CHR ''.'' \<notin> set tmp" using h plain by (auto simp: tmp_def)
    then show ?thesis by (simp add: strrchr_none)
  next
    case True
    then obtain d e where b: "base = d @ CHR ''.'' # e" "CHR ''.'' \<notin> set e" by (metis split_list_last)
    then have "strrchr tmp CHR ''.'' = Some (''/'' @ d, e @ ''/'' @ ''/'' @ ''/'' @ ?h @ ''/'' @ nm)"
      using strrchr_last [of "CHR ''.''" "e @ ''///'' @ ?h @ ''/'' @ nm" "''/'' @ d"] h plain by (simp add: tmp_def)
    moreover have "map tolower (e @ ''/'' @ ''/'' @ ''/'' @ ?h @ ''/'' @ nm) \<notin> {''db'', ''dbm'', ''gdb''}"
    proof
      assume "map tolower (e @ ''/'' @ ''/'' @ ''/'' @ ?h @ ''/'' @ nm) \<in> {''db'', ''dbm'', ''gdb''}"
      then have "length (map tolower (e @ ''/'' @ ''/'' @ ''/'' @ ?h @ ''/'' @ nm)) \<le> 3" by auto
      then show False using assms(2) by simp
    qed
    ultimately show ?thesis by simp
  qed
  have squeezed: "squeeze (tmp @ ''.db'') = squeeze (''/'' @ base @ ''///'') @ ?h @ ''/'' @ nm @ ''.db''"
  proof -
    have n: "hd nm \<noteq> CHR ''/''" "hd ?h \<noteq> CHR ''/''" using plain(1) h(1,2) assms(2) by (metis hd_in_set)+
    have 1: "tmp @ ''.db'' = (''/'' @ base @ ''///'') @ ?h @ ''/'' @ nm @ ''.db''" by (simp add: tmp_def)
    have 2: "squeeze ((''/'' @ base @ ''///'') @ ?h @ ''/'' @ nm @ ''.db'') = squeeze (''/'' @ base @ ''///'') @ squeeze (?h @ ''/'' @ nm @ ''.db'')"
      by (rule squeeze_append) (use h(1) n(2) hd_append2 [OF h(1)] in simp_all)
    have 3: "squeeze (?h @ ''/'' @ nm @ ''.db'') = ?h @ squeeze (''/'' @ nm @ ''.db'')" by (rule squeeze_word [OF h(2)])
    have 4: "squeeze (''/'' @ nm @ ''.db'') = ''/'' @ nm @ ''.db''"
      using squeeze_append [of "nm @ ''.db''" "''/''"] squeeze_word [OF plain(1), of "''.db''"] assms(2) n(1) by simp
    show ?thesis unfolding 1 2 3 4 ..
  qed
  have "full_path base nm = Some (squeeze ((case strrchr tmp CHR ''.'' of Some (d, e) \<Rightarrow> if map tolower e \<in> {''db'', ''dbm'', ''gdb''} then d else tmp | None \<Rightarrow> tmp) @ ''.db''))"
    using assms(2) notbase strrchr_none [OF plain(1)] unfolding full_path_def tmp_def Let_def by simp
  then show ?thesis unfolding suffix squeezed .
qed




end
