(* ===== verification/ServerRuns.thy ===== *)
theory ServerRuns
  imports Server
begin

text \<open>
  Runs of the server process: what each command does to the state; the invariants of every
  reachable state (\<open>well_formed\<close>; \<open>granted\<close>, no connection has more than the configuration
  gives it; \<open>counted\<close>, a database knows the number of its clients) and what clients can do
  that the process does not survive. At the end a server over files in memory, for which all
  of this is evaluated.
\<close>

section \<open>What a command does to the process\<close>

text \<open>What the handlers of a database never change in its record\<close>

definition same_frame :: "'s dbase_rec \<Rightarrow> 's dbase_rec \<Rightarrow> bool" where
  "same_frame x y \<longleftrightarrow> name y = name x \<and> pfile y = pfile x \<and> bt_compare y = bt_compare x
     \<and> num_cls y = num_cls x \<and> dclose y = dclose x"

definition db_effect :: "connection \<Rightarrow> ('w, 's) process \<Rightarrow> ('w, 's) process \<Rightarrow> bool" where
  "db_effect r P P' \<longleftrightarrow> (\<exists>i d g w. dbp r = Some i \<and> map_of (first_dbp P) i = Some d
     \<and> P' = upd_db i g (P\<lparr>files := w\<rparr>) \<and> (\<forall>x. same_frame x (g x)))"

lemma same_frame_refl [simp]: "same_frame x x"
  by (simp add: same_frame_def)

lemma upd_db_fields [simp]:
  "config (upd_db i f P) = config P" "client_list (upd_db i f P) = client_list P"
  "files (upd_db i f P) = files P" "fresh_dbp (upd_db i f P) = fresh_dbp P"
  "first_dbp (upd_db i f P) = map (\<lambda>(j, d). (j, if j = i then f d else d)) (first_dbp P)"
  by (simp_all add: upd_db_def)

lemma upd_conn_fields [simp]:
  "config (upd_conn fd f P) = config P" "first_dbp (upd_conn fd f P) = first_dbp P"
  "files (upd_conn fd f P) = files P" "fresh_dbp (upd_conn fd f P) = fresh_dbp P"
  "client_list (upd_conn fd f P) = map (\<lambda>r. if clientfd r = fd then f r else r) (client_list P)"
  by (simp_all add: upd_conn_def)

lemma mark_close_fields [simp]:
  "config (mark_close fd P) = config P" "first_dbp (mark_close fd P) = first_dbp P"
  "files (mark_close fd P) = files P" "fresh_dbp (mark_close fd P) = fresh_dbp P"
  "client_list (mark_close fd P) = map (\<lambda>r. if clientfd r = fd then r\<lparr>closing := True\<rparr> else r) (client_list P)"
  by (simp_all add: mark_close_def)

lemma map_of_upd: "map_of (map (\<lambda>(j, d). (j, if j = i then f d else d)) ds) k
    = (if k = i then map_option f (map_of ds k) else map_of ds k)"
  by (induction ds) auto

lemma upd_db_upd_db: "upd_db i f (upd_db i g P) = upd_db i (f \<circ> g) P"
proof -
  have "(\<lambda>(j, d). (j, if j = i then f d else d)) \<circ> (\<lambda>(j, d). (j, if j = i then g d else d))
      = (\<lambda>(j, d). (j, if j = i then (f \<circ> g) d else d))" by (simp add: fun_eq_iff)
  then show ?thesis by (simp add: upd_db_def)
qed

lemma upd_db_files: "(upd_db i f P)\<lparr>files := w\<rparr> = upd_db i f (P\<lparr>files := w\<rparr>)"
  by (simp add: upd_db_def)

lemma the_handle_Inr: "the_handle P r = Inr (i, d, s) \<longleftrightarrow> dbp r = Some i \<and> map_of (first_dbp P) i = Some d \<and> handle d = Some s"
  by (auto simp: the_handle_def the_dbp_def bindE_Inr_iff split: option.splits)

lemma db_effectI:
  "the_handle P r = Inr (i, d, s) \<Longrightarrow> (\<And>x. same_frame x (g x)) \<Longrightarrow> db_effect r P (upd_db i g P)"
  unfolding db_effect_def the_handle_Inr by (intro exI [of _ i] exI [of _ d] exI [of _ g] exI [of _ "files P"]) simp

lemma db_effect_set: "the_handle P r = Inr (i, d, s) \<Longrightarrow> db_effect r P (put_handle i h P)"
  unfolding put_handle_def by (rule db_effectI) (simp_all add: same_frame_def)

lemma answer_Inr [simp]: "answer P r m = Inr (P', out) \<longleftrightarrow> P' = P \<and> out = [(clientfd r, m)]"
  by (auto simp: answer_def)

lemma answer_if: "(if b then answer P r m else answer P r m') = answer P r (if b then m else m')"
  by simp

lemmas db_commands = do_fetch_def do_exists_def do_delete_def do_store_def do_inc_def do_dec_def do_packinc_def do_packdec_def
  do_sync_def do_first_def do_from_def from_cursor_def do_next_def put_counter_def

text \<open>Commands on the handle\<close>

lemma for_handle:
  assumes "for_client P r (bindE (the_handle P r) f) = Inr (P', out)" and "conn_type r = C_CLIENT"
  obtains i d s where "the_handle P r = Inr (i, d, s)" and "f (i, d, s) = Inr (P', out)"
  using assms by (auto simp: for_client_def bindE_Inr_iff)

lemma effect_or_same:
  assumes "for_client P r (bindE (the_handle P r) f) = Inr (P', out)" and "conn_type r = C_CLIENT"
    and "\<And>i d s. the_handle P r = Inr (i, d, s) \<Longrightarrow> f (i, d, s) = Inr (P', out) \<Longrightarrow> P' = P \<or> db_effect r P P'"
  shows "P' = P \<or> db_effect r P P'"
  using assms by (auto elim: for_handle)

lemma put_counter_effect:
  "the_handle P r = Inr (i, d, s) \<Longrightarrow> put_counter Y P r t i s' k v = Inr (P', out) \<Longrightarrow> db_effect r P P'"
  by (auto simp: put_counter_def Let_def case_prod_beta db_effect_set split: if_splits)

lemma do_clear_effect:
  assumes "do_clear Y P r = Inr (P', out)" and "conn_type r = C_CLIENT"
  shows "P' = P \<or> db_effect r P P'"
  using assms(1) unfolding do_clear_def
proof (rule effect_or_same [OF _ assms(2)])
  fix i d s
  assume h: "the_handle P r = Inr (i, d, s)"
  have e: "db_effect r P (put_handle i h (P\<lparr>files := w\<rparr>))" "db_effect r P (put_handle i h (P\<lparr>files := w\<rparr>)\<lparr>files := w'\<rparr>)"
    "db_effect r P (put_handle i h' (put_handle i h (P\<lparr>files := w\<rparr>)\<lparr>files := w'\<rparr>\<lparr>files := w''\<rparr>))" for h h' w w' w''
    using h unfolding db_effect_def the_handle_Inr put_handle_def upd_db_files upd_db_upd_db
    by (auto simp: same_frame_def intro!: exI)
  show "(\<lambda>(i, d, s).
     let (w, d, e) = dbclose Y (files P) d s; P = put_handle i (handle d) (P\<lparr>files := w\<rparr>)
     in if e \<noteq> 0 then answer P r Error_reply
        else
          let (w, e) = unlink_file Y w (pfile d); P = P\<lparr>files := w\<rparr>
          in if e \<noteq> 0 then answer P r Error_reply
             else
               let (w, d, e) = open_dbp Y w d; P = put_handle i (handle d) (P\<lparr>files := w\<rparr>)
               in if e \<noteq> 0 then answer P r Error_reply else answer P r (Reply TOKEN_CLEAR False [] [])) (i, d, s) = Inr (P', out)
    \<Longrightarrow> P' = P \<or> db_effect r P P'"
    using e by (auto simp: Let_def case_prod_beta split: if_splits)
qed

lemma handler_effect:
  assumes "handler Y P r q t = Inr (P', out)" and "conn_type r = C_CLIENT"
    and "t \<notin> {TOKEN_INIT, TOKEN_FDPASS, TOKEN_DROP, TOKEN_CLOSE}"
  shows "P' = P \<or> db_effect r P P'"
proof -
  have eff: "db_effect r P (upd_db i (\<lambda>d. d\<lparr>lastfd := l, handle := h\<rparr>) P)" if "the_handle P r = Inr (i, d, s)" for i d s l h
    using that by (rule db_effectI) (simp add: same_frame_def)
  show ?thesis
  proof (cases t)
    case TOKEN_CLEAR
    then show ?thesis using assms do_clear_effect [of Y P r P' out] by (simp add: handler_def)
  next
    case TOKEN_NEXTKEY
    then show ?thesis
      using assms unfolding handler_def
      by (auto simp: do_next_def Let_def case_prod_beta eff elim!: for_handle split: sum.splits if_splits)
  qed (use assms in \<open>auto simp: handler_def db_commands do_list_def do_ping_def Let_def case_prod_beta eff db_effect_set
        elim!: for_handle split: sum.splits if_splits\<close>)
qed

section \<open>Levels are kept\<close>

definition well_formed :: "txsctrl list \<Rightarrow> ('w, 's) process \<Rightarrow> bool" where
  "well_formed cfg P \<longleftrightarrow> config P = cfg
     \<and> distinct (map clientfd (client_list P)) \<and> distinct (map fst (first_dbp P))
     \<and> (\<forall>i\<in>fst ` set (first_dbp P). i < fresh_dbp P)
     \<and> (\<forall>r\<in>set (client_list P). \<forall>i. dbp r = Some i \<longrightarrow> i < fresh_dbp P \<and> conn_type r \<noteq> C_MUM)"

text \<open>No connection has more than the configuration gives its address on its database.\<close>

definition within :: "('w, 's) process \<Rightarrow> connection \<Rightarrow> bool" where
  "within P r \<longleftrightarrow> (\<forall>i d. dbp r = Some i \<longrightarrow> map_of (first_dbp P) i = Some d
     \<longrightarrow> (\<exists>level. allowed_ops_on_dbase (config P) (address r) (name d) = Inr level \<and> op r \<le> level))"

definition granted :: "('w, 's) process \<Rightarrow> bool" where
  "granted P \<longleftrightarrow> (\<forall>r\<in>set (client_list P). \<not> closing r \<longrightarrow> within P r)"

lemma map_fst_upd: "map fst (map (\<lambda>(j, d). (j, if j = i then f d else d)) ds) = map fst ds"
  by (induction ds) auto

lemma map_fst_all: "map fst (map (\<lambda>(j, d). (j, f j d)) ds) = map fst ds"
  by (induction ds) auto

lemma map_of_all: "map_of (map (\<lambda>(j, d). (j, f d)) ds) k = map_option f (map_of ds k)"
  by (induction ds) auto

lemma map_of_without: "map_of (filter (\<lambda>(j, _). j \<noteq> i) ds) k = (if k = i then None else map_of ds k)"
  by (induction ds) auto

text \<open>A change of records that keeps their names\<close>

lemma well_formed_dbs:
  assumes "well_formed cfg P" and "config P' = config P" "client_list P' = client_list P" "fresh_dbp P' = fresh_dbp P"
    and "map fst (first_dbp P') = map fst (first_dbp P)"
  shows "well_formed cfg P'"
proof -
  have "fst ` set (first_dbp P') = fst ` set (first_dbp P)" by (metis assms(5) set_map)
  then show ?thesis using assms by (simp add: well_formed_def)
qed

lemma granted_dbs:
  assumes "granted P" and "config P' = config P" "client_list P' = client_list P"
    and "\<And>k. map_option name (map_of (first_dbp P') k) = map_option name (map_of (first_dbp P) k)"
  shows "granted P'"
proof -
  have n: "\<exists>d'. map_of (first_dbp P) k = Some d' \<and> name d' = name d" if "map_of (first_dbp P') k = Some d" for k d
    using assms(4) [of k] that by (cases "map_of (first_dbp P) k") auto
  then have "within P' r" if "within P r" for r
    unfolding within_def assms(2) using that [unfolded within_def] by metis
  then show ?thesis using assms(1,3) by (simp add: granted_def)
qed

lemma effect_keeps:
  assumes "db_effect r P P'" and "well_formed cfg P" and "granted P"
  shows "well_formed cfg P' \<and> granted P'"
proof -
  obtain i g w where P': "P' = upd_db i g (P\<lparr>files := w\<rparr>)" and g: "\<And>x. same_frame x (g x)"
    using assms(1) by (auto simp: db_effect_def)
  have "well_formed cfg P'"
    using assms(2) by (rule well_formed_dbs) (simp_all add: P' map_fst_upd del: map_map)
  moreover have "granted P'"
    using assms(3) by (rule granted_dbs)
      (use g in \<open>simp_all add: P' map_of_upd same_frame_def option.map_comp comp_def split: option.split\<close>)
  ultimately show ?thesis by simp
qed

text \<open>Connections that are marked, or lose their place\<close>

lemma conns_keep:
  assumes "well_formed cfg P" and "granted P"
    and "config P' = config P" "first_dbp P' = first_dbp P" "fresh_dbp P' = fresh_dbp P"
    and "distinct (map clientfd (client_list P'))"
    and "\<And>r'. r' \<in> set (client_list P') \<Longrightarrow> \<exists>r\<in>set (client_list P). dbp r' = dbp r
        \<and> conn_type r' = conn_type r \<and> (closing r' \<or> \<not> closing r \<and> op r' = op r \<and> address r' = address r)"
  shows "well_formed cfg P' \<and> granted P'"
proof -
  have "\<And>r' i. r' \<in> set (client_list P') \<Longrightarrow> dbp r' = Some i \<Longrightarrow> i < fresh_dbp P \<and> conn_type r' \<noteq> C_MUM"
    using assms(1,7) unfolding well_formed_def by metis
  then have "well_formed cfg P'" using assms(1,3,4,5,6) by (auto simp: well_formed_def)
  moreover have "within P' r'" if r': "r' \<in> set (client_list P')" and c: "\<not> closing r'" for r'
  proof -
    obtain r where "r \<in> set (client_list P)" "dbp r' = dbp r" "\<not> closing r" "op r' = op r" "address r' = address r"
      using assms(7) [OF r'] c by auto
    then show ?thesis using assms(2,3,4) by (simp add: granted_def within_def)
  qed
  ultimately show ?thesis by (simp add: granted_def)
qed

lemma map_clientfd_upd: "(\<And>r. clientfd (f r) = clientfd r) \<Longrightarrow>
    map clientfd (map (\<lambda>r. if clientfd r = fd then f r else r) rs) = map clientfd rs"
  by (induction rs) auto

lemma mark_close_keeps: "well_formed cfg P \<Longrightarrow> granted P \<Longrightarrow> well_formed cfg (mark_close fd P) \<and> granted (mark_close fd P)"
  by (rule conns_keep [of cfg P]) (auto simp: well_formed_def map_clientfd_upd simp del: map_map)

lemma zap_dbs_keeps:
  assumes "zap_dbs Y i P = Inr P'" and "well_formed cfg P" and "granted P"
  shows "well_formed cfg P' \<and> granted P'"
proof (cases "map_of (first_dbp P) i")
  case None
  then show ?thesis using assms by (simp add: zap_dbs_def)
next
  case (Some d)
  let ?ds = "filter (\<lambda>(j, _). j \<noteq> i) (first_dbp P)"
  let ?f = "\<lambda>r :: connection. if dbp r = Some i then r\<lparr>closing := True\<rparr> else r"
  obtain s where P': "P' = P\<lparr>client_list := map ?f (client_list P), first_dbp := ?ds, files := fst (dbclose Y (files P) d s)\<rparr>"
    using assms(1) Some by (auto simp: zap_dbs_def Let_def split: option.splits)
  have fs: "map clientfd (map ?f rs) = map clientfd rs" for rs by (induction rs) auto
  have "distinct (map fst ?ds)" using assms(2) by (simp add: well_formed_def distinct_map_filter)
  then have "well_formed cfg P'"
    using assms(2) fs by (auto simp: P' well_formed_def simp del: map_map split: if_splits)
  moreover have "granted P'"
    using assms(3) by (auto simp: P' granted_def within_def map_of_without split: if_splits)
  ultimately show ?thesis by simp
qed

lemma zap_keeps:
  assumes "zap r P = Inr P'" and "well_formed cfg P" and "granted P"
  shows "well_formed cfg P' \<and> granted P'"
proof -
  let ?P = "P\<lparr>client_list := filter (\<lambda>c. clientfd c \<noteq> clientfd r) (client_list P)\<rparr>"
  define g where "g = (\<lambda>d :: 'b dbase_rec. let d = d\<lparr>num_cls := num_cls d - 1\<rparr> in if num_cls d \<le> 0 then d\<lparr>dclose := True\<rparr> else d)"
  have P: "well_formed cfg ?P \<and> granted ?P"
    using assms(2,3) by (rule conns_keep) (use assms(2) in \<open>auto simp: well_formed_def distinct_map_filter\<close>)
  have "P' = ?P \<or> (\<exists>i. P' = upd_db i g ?P)"
    using assms(1) by (auto simp: zap_def g_def Let_def bindE_Inr_iff split: conn_type.splits option.splits)
  moreover have "well_formed cfg (upd_db i g ?P) \<and> granted (upd_db i g ?P)" for i
  proof
    show "well_formed cfg (upd_db i g ?P)"
      by (rule well_formed_dbs [OF conjunct1 [OF P]]) (simp_all add: map_fst_upd del: map_map)
    have n: "name (g d) = name d" for d by (simp add: g_def Let_def)
    show "granted (upd_db i g ?P)"
      by (rule granted_dbs [OF conjunct2 [OF P]]) (simp_all add: map_of_upd option.map_comp comp_def n)
  qed
  ultimately show ?thesis using P by auto
qed

lemma zap_all_keeps: "zap_all rs P = Inr P' \<Longrightarrow> well_formed cfg P \<Longrightarrow> granted P \<Longrightarrow> well_formed cfg P' \<and> granted P'"
proof (induction rs arbitrary: P)
  case (Cons r rs)
  from Cons.prems(1) obtain Q where Q: "(if closing r then zap r P else Inr P) = Inr Q" "zap_all rs Q = Inr P'"
    by (auto simp: bindE_Inr_iff)
  then have "well_formed cfg Q \<and> granted Q" using zap_keeps [of r P Q] Cons.prems(2,3) by (auto split: if_splits)
  then show ?case using Cons.IH [of Q] Q(2) by simp
qed simp

lemma zap_closed_dbs_keeps: "zap_closed_dbs Y qs P = Inr P' \<Longrightarrow> well_formed cfg P \<Longrightarrow> granted P \<Longrightarrow> well_formed cfg P' \<and> granted P'"
proof (induction qs arbitrary: P)
  case (Cons q qs)
  from Cons.prems(1) obtain Q where Q: "(if dclose (snd q) then zap_dbs Y (fst q) P else Inr P) = Inr Q" "zap_closed_dbs Y qs Q = Inr P'"
    by (auto simp: bindE_Inr_iff)
  then have "well_formed cfg Q \<and> granted Q" using zap_dbs_keeps [of Y "fst q" P Q] Cons.prems(2,3) by (auto split: if_splits)
  then show ?case using Cons.IH [of Q] Q(2) by simp
qed simp

lemma sweep_keeps: "sweep Y P = Inr P' \<Longrightarrow> well_formed cfg P \<Longrightarrow> granted P \<Longrightarrow> well_formed cfg P' \<and> granted P'"
  unfolding sweep_def bindE_Inr_iff using zap_all_keeps zap_closed_dbs_keeps by blast

lemma flush_keeps: "flush_all Y P = Inr P' \<Longrightarrow> well_formed cfg P \<Longrightarrow> granted P \<Longrightarrow> well_formed cfg P' \<and> granted P'"
  by (auto simp: flush_all_def map_fst_all map_of_all option.map_comp comp_def simp del: map_map split: if_splits
      intro!: well_formed_dbs [of cfg P] granted_dbs [of P])

text \<open>What \<open>get_dbp\<close> returns: a database of the list, a new one, or none\<close>

definition new_record :: "('w, 's) process \<Rightarrow> 'w \<Rightarrow> 's dbase_rec \<Rightarrow> ('w, 's) process" where
  "new_record P w d = P\<lparr>files := w, first_dbp := (fresh_dbp P, d) # first_dbp P, fresh_dbp := fresh_dbp P + 1\<rparr>"

lemma new_dbp_cases:
  assumes "new_dbp Y P level bt nm sz = (Q, r)"
  shows "(\<exists>w e. r = Inl e \<and> Q = P\<lparr>files := w\<rparr>) \<or> (\<exists>w d. r = Inr (fresh_dbp P) \<and> Q = new_record P w d
    \<and> name d = nm \<and> num_cls d = 0 \<and> \<not> dclose d)"
proof -
  have same: "\<exists>w. P = P\<lparr>files := w\<rparr>" by (rule exI [of _ "files P"]) simp
  obtain w p where m: "mkpath Y (files P) nm = (w, p)" by (cases "mkpath Y (files P) nm")
  show ?thesis
  proof (cases "length (first_dbp P) > HARD_MAX_DBASE \<or> 1 + sz > MAX_STATIC_NAME \<or> p = None")
    case True
    then show ?thesis using assms m same by (auto simp: new_dbp_def split: if_splits)
  next
    case False
    then obtain path where p: "p = Some path" by auto
    define d where "d = \<lparr>name = nm, pfile = path, bt_compare = bt, handle = None :: 'b option, lastfd = 0, num_cls = 0, dclose = False\<rparr>"
    obtain w' d' e where o: "open_dbp Y w d = (w', d', e)" by (cases "open_dbp Y w d")
    then have "name d' = nm" "num_cls d' = 0" "\<not> dclose d'"
      by (auto simp: open_dbp_def d_def split: prod.splits sum.splits)
    then show ?thesis
      using assms m p o False by (auto simp: new_dbp_def d_def [symmetric] new_record_def split: if_splits)
  qed
qed

lemma get_dbp_cases:
  assumes "get_dbp Y P addr xsmode bt nm = Inr (P', level, res)" and "distinct (map fst (first_dbp P))"
  obtains (none) w e where "res = Inl e" and "P' = P\<lparr>files := w\<rparr>"
  | (old) i d most where "res = Inr i" and "P' = P" and "map_of (first_dbp P) i = Some d" and "name d = clean_name nm"
      and "allowed_ops_on_dbase (config P) addr (clean_name nm) = Inr most" and "level \<le> most"
  | (new) w d most where "res = Inr (fresh_dbp P)" and "P' = new_record P w d" and "name d = clean_name nm" and "num_cls d = 0"
      and "\<not> dclose d" and "allowed_ops_on_dbase (config P) addr (clean_name nm) = Inr most" and "level \<le> most"
      and "\<forall>(j, d)\<in>set (first_dbp P). name d \<noteq> clean_name nm"
proof -
  obtain most where most: "allowed_ops_on_dbase (config P) addr (clean_name nm) = Inr most"
    using assms(1) by (cases "allowed_ops_on_dbase (config P) addr (clean_name nm)")
      (auto simp: get_dbp_def split: conf_fault.splits)
  show thesis
  proof (cases "xsmode_level xsmode")
    case None
    then show ?thesis using assms(1) most none [of False "files P"] by (simp add: get_dbp_def)
  next
    case (Some mops)
    show ?thesis
    proof (cases "mops > most")
      case True
      then show ?thesis using assms(1) most Some none [of False "files P"] by (simp add: get_dbp_def)
    next
      case within: False
      show ?thesis
      proof (cases "find (\<lambda>(i, d). name d = clean_name nm) (first_dbp P)")
        case (Some q)
        then obtain i d where q: "q = (i, d)" "(i, d) \<in> set (first_dbp P)" "name d = clean_name nm"
          by (cases q) (auto simp: find_Some_iff; metis nth_mem)
        then have "map_of (first_dbp P) i = Some d" using assms(2) by simp
        then show ?thesis
          using assms(1) most Some \<open>xsmode_level xsmode = Some mops\<close> within q none [of False "files P"] old [of i d most]
          by (auto simp: get_dbp_def Let_def split: if_splits)
      next
        case None
        then have fresh: "\<forall>(j, d)\<in>set (first_dbp P). name d \<noteq> clean_name nm" by (auto simp: find_None_iff)
        obtain Q r where Q: "new_dbp Y P (min mops most) bt (clean_name nm) (length nm) = (Q, r)"
          by (cases "new_dbp Y P (min mops most) bt (clean_name nm) (length nm)")
        then have out: "P' = Q" "level = min mops most" "res = r"
          using assms(1) most None Some within by (auto simp: get_dbp_def Let_def)
        have "(\<exists>w e. r = Inl e \<and> Q = P\<lparr>files := w\<rparr>) \<or> (\<exists>w d. r = Inr (fresh_dbp P) \<and> Q = new_record P w d
            \<and> name d = clean_name nm \<and> num_cls d = 0 \<and> \<not> dclose d)"
          using Q by (rule new_dbp_cases)
        then consider w e where "r = Inl e" "Q = P\<lparr>files := w\<rparr>"
          | w d where "r = Inr (fresh_dbp P)" "Q = new_record P w d" "name d = clean_name nm" "num_cls d = 0" "\<not> dclose d"
          by blast
        then show ?thesis
        proof cases
          case 1
          then show ?thesis using none [of e w] out by simp
        next
          case 2
          then show ?thesis using new [of w d most] out most fresh by simp
        qed
      qed
    qed
  qed
qed

lemma do_drop_cases:
  assumes "do_drop Y P r = Inr (P', out)"
  obtains i d Q w where "dbp r = Some i" and "map_of (first_dbp P) i = Some d" and "zap_dbs Y i P = Inr Q" and "P' = Q\<lparr>files := w\<rparr>"
  using assms unfolding do_drop_def by (auto simp: the_dbp_def case_prod_beta bindE_Inr_iff split: option.splits)

lemma do_drop_keeps:
  assumes "do_drop Y P r = Inr (P', out)" and "well_formed cfg P" and "granted P"
  shows "well_formed cfg P' \<and> granted P'"
proof -
  obtain i Q w where Q: "zap_dbs Y i P = Inr Q" and P': "P' = Q\<lparr>files := w\<rparr>"
    using assms(1) by (rule do_drop_cases)
  have "well_formed cfg Q \<and> granted Q" by (rule zap_dbs_keeps [OF Q assms(2,3)])
  then show ?thesis using conns_keep [of cfg Q P'] by (auto simp: P' well_formed_def granted_def within_def)
qed

text \<open>The connection handed over, in the state \<open>do_pass\<close> leaves\<close>

lemma new_client_keeps:
  assumes "well_formed cfg P" and "granted P" and "fd \<notin> clientfd ` set (client_list P)" and "clientfd r' = fd" and "conn_type r' \<noteq> C_MUM"
    and "config P' = config P" "first_dbp P' = first_dbp P" "fresh_dbp P' = fresh_dbp P"
    and "client_list P' = r' # client_list P"
    and "dbp r' = None \<or> (\<exists>i d most. dbp r' = Some i \<and> map_of (first_dbp P) i = Some d
         \<and> allowed_ops_on_dbase cfg (address r') (name d) = Inr most \<and> op r' \<le> most)"
  shows "well_formed cfg P' \<and> granted P'"
proof
  have "\<exists>d. (i, d) \<in> set (first_dbp P)" if "map_of (first_dbp P) i = Some d" for i d
    using that by (metis map_of_SomeD)
  then have "\<forall>i. dbp r' = Some i \<longrightarrow> i < fresh_dbp P" using assms(1,10) by (force simp: well_formed_def)
  then show "well_formed cfg P'" using assms(1,3-9) by (auto simp: well_formed_def)
  have "config P' = cfg" using assms(1,6) by (simp add: well_formed_def)
  then have "within P' r'" unfolding within_def assms(7) using assms(10) by auto
  moreover have "\<And>r. within P' r = within P r" using assms(6,7) by (simp add: within_def)
  ultimately show "granted P'" using assms(2,9) by (auto simp: granted_def)
qed

lemma new_record_keeps:
  assumes "well_formed cfg P" and "granted P"
  shows "well_formed cfg (new_record P w d) \<and> granted (new_record P w d)"
proof
  have fresh: "fresh_dbp P \<notin> fst ` set (first_dbp P)" using assms(1) by (auto simp: well_formed_def)
  then show "well_formed cfg (new_record P w d)"
    using assms(1) by (auto simp: well_formed_def new_record_def less_Suc_eq)
  have "within (new_record P w d) r" if "r \<in> set (client_list P)" "within P r" for r
    using that assms(1) by (auto simp: within_def new_record_def well_formed_def)
  then show "granted (new_record P w d)" using assms(2) by (auto simp: granted_def new_record_def)
qed

lemma upd_conn_new:
  "fd \<notin> clientfd ` set rs \<Longrightarrow> map (\<lambda>r. if clientfd r = fd then f r else r) rs = rs"
  by (induction rs) auto

lemma get_dbp_keeps:
  assumes "get_dbp Y P addr xsmode bt nm = Inr (P', level, res)" and "well_formed cfg P" and "granted P"
  shows "well_formed cfg P' \<and> granted P' \<and> client_list P' = client_list P \<and> config P' = config P
    \<and> (\<forall>i. res = Inr i \<longrightarrow> (\<exists>d most. map_of (first_dbp P') i = Some d
        \<and> allowed_ops_on_dbase cfg addr (name d) = Inr most \<and> level \<le> most))"
proof -
  have d: "distinct (map fst (first_dbp P))" and cfg: "config P = cfg" using assms(2) by (simp_all add: well_formed_def)
  show ?thesis
    using assms(1) d
  proof (cases rule: get_dbp_cases)
    case (none w e)
    then have "well_formed cfg P' \<and> granted P'" using assms(2,3) by (auto simp: well_formed_def granted_def within_def)
    then show ?thesis using none by simp
  next
    case (old i d most)
    then show ?thesis using assms(2,3) cfg by auto
  next
    case (new w d most)
    then show ?thesis using new_record_keeps [OF assms(2,3), of w d] cfg by (simp add: new_record_def)
  qed
qed

lemma conn_address_keeps:
  assumes "well_formed cfg P" and "granted P" and "\<forall>r\<in>set (client_list P). clientfd r = fd \<longrightarrow> dbp r = None"
  shows "well_formed cfg (upd_conn fd (\<lambda>r. r\<lparr>address := a\<rparr>) P) \<and> granted (upd_conn fd (\<lambda>r. r\<lparr>address := a\<rparr>) P)"
proof
  show "well_formed cfg (upd_conn fd (\<lambda>r. r\<lparr>address := a\<rparr>) P)"
    using assms(1) by (auto simp: well_formed_def map_clientfd_upd simp del: map_map)
  show "granted (upd_conn fd (\<lambda>r. r\<lparr>address := a\<rparr>) P)"
    using assms(2,3) by (auto simp: granted_def within_def)
qed


lemma take_client_cases:
  assumes "take_client Y P fd addr proto xsmode bt nm = Inr (P', out)"
  obtains (full) "P' = P"
  | (refused) R where "handle_new_connection Y P fd C_CLIENT addr = (Some R, [])" and "P' = R"
  | (no_database) R S level e where "handle_new_connection Y P fd C_CLIENT addr = (Some R, [])"
      and "get_dbp Y R addr xsmode bt nm = Inr (S, level, Inl e)"
      and "P' = upd_conn fd (\<lambda>r. r\<lparr>op := level\<rparr>) S \<or> P' = mark_close fd (upd_conn fd (\<lambda>r. r\<lparr>op := level\<rparr>) S)"
  | (database) R S level i where "handle_new_connection Y P fd C_CLIENT addr = (Some R, [])"
      and "get_dbp Y R addr xsmode bt nm = Inr (S, level, Inr i)"
      and "P' = upd_db i (\<lambda>d. d\<lparr>num_cls := num_cls d + 1\<rparr>) (upd_conn fd (\<lambda>r. r\<lparr>op := level, dbp := Some i\<rparr>) S)"
proof (cases "handle_new_connection Y P fd C_CLIENT addr")
  case (Pair R ms)
  show thesis
  proof (cases R)
    case None
    then show ?thesis using assms Pair full by (simp add: take_client_def)
  next
    case (Some R)
    then have h: "handle_new_connection Y P fd C_CLIENT addr = (Some R, [])"
      using Pair by (auto simp: handle_new_connection_def split: if_splits)
    show ?thesis
    proof (cases "proto \<noteq> DBMS_PROTO \<or> \<not> bt_supported bt")
      case True
      then show ?thesis using assms h refused by (auto simp: take_client_def split: if_splits)
    next
      case False
      then obtain S level res where g: "get_dbp Y R addr xsmode bt nm = Inr (S, level, res)"
        using assms h by (auto simp: take_client_def bindE_Inr_iff)
      then show ?thesis
        using assms h False no_database [OF h] database [OF h]
        by (cases res) (auto simp: take_client_def Let_def split: if_splits)
    qed
  qed
qed

lemma do_pass_cases:
  assumes "do_pass Y P r a b tk = Inr (P', out)"
  obtains (lost) addr where "tk = None"
      and "P' = mark_close (clientfd r) (upd_conn (clientfd r) (\<lambda>r. r\<lparr>address := addr\<rparr>) P)"
  | (taken) fd addr proto xsmode bt where "tk = Some fd"
      and "take_client Y (upd_conn (clientfd r) (\<lambda>r. r\<lparr>address := addr\<rparr>) P) fd addr proto xsmode bt b = Inr (P', out)"
  using assms by (cases tk) (auto simp: do_pass_def bindE_Inr_iff Let_def)

lemma new_connection:
  assumes "handle_new_connection Y P fd C_CLIENT addr = (Some R, ms)"
  shows "R = P\<lparr>client_list := \<lparr>conn_type = C_CLIENT, clientfd = fd, address = addr, dbp = None, op = T_ERR, closing = False\<rparr> # client_list P\<rparr>"
  using assms by (auto simp: handle_new_connection_def split: if_splits)

lemma take_client_keeps:
  assumes "take_client Y Q fd addr proto xsmode bt b = Inr (P', out)" and Q: "well_formed cfg Q" "granted Q"
    and fd: "fd \<notin> clientfd ` set (client_list Q)"
  shows "well_formed cfg P' \<and> granted P'"
proof -
  define n where "n = \<lparr>conn_type = C_CLIENT, clientfd = fd, address = addr, dbp = None, op = T_ERR, closing = False\<rparr>"
  have R: "R = Q\<lparr>client_list := n # client_list Q\<rparr> \<and> well_formed cfg R \<and> granted R"
    if "handle_new_connection Y Q fd C_CLIENT addr = (Some R, [])" for R
    using new_connection [OF that] new_client_keeps [OF Q fd, of n R] by (auto simp: n_def)
  from assms(1) show ?thesis
  proof (cases rule: take_client_cases)
    case (no_database R S level e)
    have S: "well_formed cfg S" "granted S" "client_list S = n # client_list Q"
      using get_dbp_keeps [OF no_database(2)] R [OF no_database(1)] by auto
    have "well_formed cfg (upd_conn fd (\<lambda>r. r\<lparr>op := level\<rparr>) S) \<and> granted (upd_conn fd (\<lambda>r. r\<lparr>op := level\<rparr>) S)"
      using S fd by (auto simp: well_formed_def granted_def within_def upd_conn_new n_def split: if_splits)
    then show ?thesis using no_database(3) mark_close_keeps by auto
  next
    case (database R S level i)
    obtain d most where S: "well_formed cfg S" "granted S" "client_list S = n # client_list Q"
      "map_of (first_dbp S) i = Some d" "allowed_ops_on_dbase cfg addr (name d) = Inr most" "level \<le> most"
      using get_dbp_keeps [OF database(2), of cfg] R [OF database(1)] by auto
    let ?T = "S\<lparr>client_list := client_list Q\<rparr>"
    have T: "well_formed cfg ?T" "granted ?T"
      using S by (auto simp: well_formed_def granted_def within_def)
    have U: "well_formed cfg (upd_conn fd (\<lambda>r. r\<lparr>op := level, dbp := Some i\<rparr>) S)"
        "granted (upd_conn fd (\<lambda>r. r\<lparr>op := level, dbp := Some i\<rparr>) S)"
      using new_client_keeps [OF T, of fd "n\<lparr>op := level, dbp := Some i\<rparr>" "upd_conn fd (\<lambda>r. r\<lparr>op := level, dbp := Some i\<rparr>) S"] S fd
      by (simp_all add: n_def upd_conn_new)
    show ?thesis
      unfolding database(3)
      using well_formed_dbs [OF U(1), of "upd_db i (\<lambda>d. d\<lparr>num_cls := num_cls d + 1\<rparr>) (upd_conn fd (\<lambda>r. r\<lparr>op := level, dbp := Some i\<rparr>) S)"]
        granted_dbs [OF U(2), of "upd_db i (\<lambda>d. d\<lparr>num_cls := num_cls d + 1\<rparr>) (upd_conn fd (\<lambda>r. r\<lparr>op := level, dbp := Some i\<rparr>) S)"]
      by (simp add: map_fst_upd map_of_upd option.map_comp comp_def del: map_map)
  qed (use Q R in auto)
qed

lemma do_pass_keeps:
  assumes "do_pass Y P r a b tk = Inr (P', out)" and P: "well_formed cfg P" "granted P" and r: "r \<in> set (client_list P)"
    and tk: "\<forall>fd. tk = Some fd \<longrightarrow> conn_type r = C_MUM \<and> fd \<notin> clientfd ` set (client_list P)"
  shows "well_formed cfg P' \<and> granted P'"
  using assms(1)
proof (cases rule: do_pass_cases)
  case (lost addr)
  show ?thesis
    by (rule conns_keep [OF P]) (use lost P in \<open>auto simp: well_formed_def map_clientfd_upd simp del: map_map\<close>)
next
  case (taken fd addr proto xsmode bt)
  have same_fd: "r' = r" if "r' \<in> set (client_list P)" "clientfd r' = clientfd r" for r'
    using that P(1) r by (auto simp: well_formed_def distinct_map inj_on_def)
  let ?Q = "upd_conn (clientfd r) (\<lambda>r. r\<lparr>address := addr\<rparr>) P"
  have "well_formed cfg ?Q \<and> granted ?Q"
    by (rule conn_address_keeps [OF P]) (use same_fd tk taken(1) P(1) r in \<open>fastforce simp: well_formed_def\<close>)
  moreover have "fd \<notin> clientfd ` set (client_list ?Q)" using tk taken(1) by (auto simp: image_iff)
  ultimately show ?thesis using take_client_keeps [OF taken(2)] by blast
qed

lemma handler_keeps:
  assumes "handler Y P r q t = Inr (P', out)" and P: "well_formed cfg P" "granted P" and r: "r \<in> set (client_list P)"
    and tk: "\<forall>fd. taken q = Some fd \<longrightarrow> conn_type r = C_MUM \<and> fd \<notin> clientfd ` set (client_list P)"
  shows "well_formed cfg P' \<and> granted P'"
proof -
  consider "t = TOKEN_INIT" | "t = TOKEN_FDPASS" | "t = TOKEN_DROP" | "t = TOKEN_CLOSE"
    | "t \<notin> {TOKEN_INIT, TOKEN_FDPASS, TOKEN_DROP, TOKEN_CLOSE}" by blast
  then show ?thesis
  proof cases
    case 1
    then show ?thesis using assms(1) by (auto simp: handler_def do_init_def bindE_Inr_iff)
  next
    case 2
    then show ?thesis using assms(1) do_pass_keeps [OF _ P r tk] by (simp add: handler_def)
  next
    case 3
    then show ?thesis using assms(1) do_drop_keeps [OF _ P] by (simp add: handler_def)
  next
    case 4
    then show ?thesis
      using assms(1) mark_close_keeps [OF P] P by (auto simp: handler_def do_close_def for_client_def split: if_splits)
  next
    case 5
    show ?thesis
    proof (cases "conn_type r = C_CLIENT")
      case True
      then show ?thesis using handler_effect [OF assms(1) True 5] effect_keeps P by blast
    next
      case False
      then have "P' = P" using assms(1) 5
        by (cases t) (auto simp: handler_def db_commands do_clear_def do_list_def do_ping_def for_client_def)
      then show ?thesis using P by simp
    qed
  qed
qed

lemma parse_request_cases:
  assumes "parse_request Y P r n q = Inr (P', out)"
  obtains (refused) "P' = mark_close (clientfd r) P" and "out = [(clientfd r, Error_reply)]"
  | (handled) t where "token_of n = Some t" and "cmd_op t \<le> op r" and "handler Y P r q t = Inr (P', out)"
  using assms by (auto simp: parse_request_def split: if_splits option.splits)

lemma serves_keeps:
  assumes "serves Y P e out P'" and "well_formed cfg P" and "granted P"
  shows "well_formed cfg P' \<and> granted P'"
  using assms
proof cases
  case (Request r fd q n)
  from Request(6) show ?thesis
  proof (cases rule: parse_request_cases)
    case refused
    then show ?thesis using mark_close_keeps assms(2,3) by blast
  next
    case (handled t)
    then show ?thesis using handler_keeps [OF handled(3) assms(2,3) Request(2) Request(5)] by blast
  qed
qed (use mark_close_keeps flush_keeps sweep_keeps assms(2,3) in blast)+

lemma fresh_process_ok: "well_formed cfg (fresh_process cfg w fd) \<and> granted (fresh_process cfg w fd)"
  by (simp add: fresh_process_def well_formed_def granted_def within_def)

lemma reached_ok: "reached Y cfg I P \<Longrightarrow> well_formed cfg P \<and> granted P"
proof (induction rule: reached.induct)
  case (serve P e out P')
  then show ?case using serves_keeps by blast
qed (rule fresh_process_ok)


section \<open>Clients are counted\<close>

definition clients :: "nat \<Rightarrow> ('w, 's) process \<Rightarrow> nat" where
  "clients i P = length (filter (\<lambda>r. dbp r = Some i) (client_list P))"

definition counted :: "('w, 's) process \<Rightarrow> bool" where
  "counted P \<longleftrightarrow> (\<forall>r\<in>set (client_list P). \<forall>i. dbp r = Some i \<longrightarrow> conn_type r = C_CLIENT \<and> map_of (first_dbp P) i \<noteq> None)
     \<and> (\<forall>i d. map_of (first_dbp P) i = Some d \<longrightarrow> num_cls d = int (clients i P) \<and> (dclose d \<longleftrightarrow> num_cls d = 0))"

definition settled :: "('w, 's) process \<Rightarrow> bool" where
  "settled P \<longleftrightarrow> (\<forall>i d. map_of (first_dbp P) i = Some d \<longrightarrow> \<not> dclose d)"

lemma counted_effect:
  assumes "db_effect r P P'" and "counted P" and "settled P"
  shows "counted P' \<and> settled P'"
proof -
  obtain i g w where P': "P' = upd_db i g (P\<lparr>files := w\<rparr>)" and g: "\<And>x. num_cls (g x) = num_cls x" "\<And>x. dclose (g x) = dclose x"
    using assms(1) by (auto simp: db_effect_def same_frame_def)
  show ?thesis
    using assms(2,3) g by (auto simp: P' counted_def settled_def clients_def map_of_upd split: if_splits)
qed

lemma counted_conns:
  assumes "counted P" and "settled P" and "first_dbp P' = first_dbp P"
    and "map dbp (client_list P') = map dbp (client_list P)" and "map conn_type (client_list P') = map conn_type (client_list P)"
  shows "counted P' \<and> settled P'"
proof -
  have n: "length (filter (\<lambda>r. dbp r = Some i) rs) = length (filter (\<lambda>x. x = Some i) (map dbp rs))" for i and rs :: "connection list"
    by (simp add: filter_map comp_def)
  then have c: "clients i P' = clients i P" for i unfolding clients_def n assms(4) ..
  have "map (\<lambda>r. (dbp r, conn_type r)) rs = zip (map dbp rs) (map conn_type rs)" for rs :: "connection list"
    by (induction rs) auto
  then have "map (\<lambda>r. (dbp r, conn_type r)) (client_list P') = map (\<lambda>r. (dbp r, conn_type r)) (client_list P)"
    by (simp add: assms(4,5))
  then have "(\<lambda>r. (dbp r, conn_type r)) ` set (client_list P') = (\<lambda>r. (dbp r, conn_type r)) ` set (client_list P)"
    by (metis set_map)
  then have "\<exists>r'\<in>set (client_list P). dbp r' = dbp r \<and> conn_type r' = conn_type r" if "r \<in> set (client_list P')" for r
  proof -
    have "(dbp r, conn_type r) \<in> (\<lambda>r. (dbp r, conn_type r)) ` set (client_list P)"
      unfolding \<open>_ ` set (client_list P') = _\<close> [symmetric] using that by (rule imageI)
    then show ?thesis by auto
  qed
  then have "\<forall>r\<in>set (client_list P'). \<forall>i. dbp r = Some i \<longrightarrow> conn_type r = C_CLIENT \<and> map_of (first_dbp P) i \<noteq> None"
    using assms(1) unfolding counted_def by metis
  then show ?thesis using assms(1,2) by (simp add: counted_def settled_def c assms(3))
qed

lemma upd_conn_map: "(\<And>r. h (f r) = h r) \<Longrightarrow> map h (map (\<lambda>r. if clientfd r = fd then f r else r) rs) = map h rs"
  by (induction rs) auto

lemma counted_mark: "counted P \<Longrightarrow> settled P \<Longrightarrow> counted (mark_close fd P) \<and> settled (mark_close fd P)"
  by (erule (1) counted_conns) (simp_all only: mark_close_def upd_conn_fields, (rule upd_conn_map; simp)+)

lemma clients_Cons: "client_list P' = r # client_list P \<Longrightarrow> clients i P' = clients i P + (if dbp r = Some i then 1 else 0)"
  by (simp add: clients_def)

text \<open>A client that was handed over\<close>

lemma counted_take:
  assumes "take_client Y Q fd addr proto xsmode bt nm = Inr (P', out)" and "well_formed cfg Q" and Q: "counted Q" "settled Q"
    and fd: "fd \<notin> clientfd ` set (client_list Q)"
  shows "counted P' \<and> settled P'"
proof -
  define n where "n = \<lparr>conn_type = C_CLIENT, clientfd = fd, address = addr, dbp = None, op = T_ERR, closing = False\<rparr>"
  have R: "R = Q\<lparr>client_list := n # client_list Q\<rparr> \<and> counted R \<and> settled R \<and> distinct (map fst (first_dbp R))"
    if "handle_new_connection Y Q fd C_CLIENT addr = (Some R, [])" for R
    using new_connection [OF that] Q assms(2) by (auto simp: n_def counted_def settled_def clients_def well_formed_def)
  from assms(1) show ?thesis
  proof (cases rule: take_client_cases)
    case (no_database R S level e)
    note h = R [OF no_database(1)]
    obtain w where S: "S = R\<lparr>files := w\<rparr>" using no_database(2) h by (auto elim: get_dbp_cases)
    have "counted (upd_conn fd (\<lambda>r. r\<lparr>op := level\<rparr>) S) \<and> settled (upd_conn fd (\<lambda>r. r\<lparr>op := level\<rparr>) S)"
    proof (rule counted_conns)
      show "counted R" "settled R" using h by blast+
    qed (simp_all add: S upd_conn_map del: map_map)
    then show ?thesis using no_database(3) counted_mark by auto
  next
    case (database R S level i)
    note h = R [OF database(1)]
    have d: "distinct (map fst (first_dbp R))" using h by blast
    have conn: "client_list (upd_conn fd f S) = f n # client_list Q" if "client_list S = n # client_list Q" for f
      using fd that by (simp add: n_def upd_conn_new)
    have fresh: "fresh_dbp R \<notin> dom (map_of (first_dbp R))" "\<forall>r\<in>set (client_list Q). dbp r \<noteq> Some (fresh_dbp R)"
      using assms(2) h by (auto simp: well_formed_def dom_map_of_conv_image_fst)
    from database(2) d show ?thesis
    proof (cases rule: get_dbp_cases)
      case (old j d0 most)
      let ?f = "\<lambda>r. r\<lparr>op := level, dbp := Some j\<rparr>"
      have P': "first_dbp P' = map (\<lambda>(k, d). (k, if k = j then d\<lparr>num_cls := num_cls d + 1\<rparr> else d)) (first_dbp Q)"
        "client_list P' = ?f n # client_list Q"
        using database(3) old h conn [of ?f] by simp_all
      have "map_of (first_dbp Q) j = Some d0" using old h by simp
      then show ?thesis
        using Q clients_Cons [OF P'(2)]
        by (auto simp: counted_def settled_def P' map_of_upd n_def split: if_splits)
    next
      case (new w d0 most)
      let ?f = "\<lambda>r. r\<lparr>op := level, dbp := Some (fresh_dbp R)\<rparr>"
      have S: "client_list S = n # client_list Q" using new h by (simp add: new_record_def)
      have P': "first_dbp P' = map (\<lambda>(k, d). (k, if k = fresh_dbp R then d\<lparr>num_cls := num_cls d + 1\<rparr> else d)) ((fresh_dbp R, d0) # first_dbp Q)"
        "client_list P' = ?f n # client_list Q"
        using database(3) new h conn [OF S, of ?f] by (simp_all add: new_record_def)
      have "clients (fresh_dbp R) Q = 0" using fresh(2) by (simp add: clients_def filter_empty_conv)
      then show ?thesis
        using Q clients_Cons [OF P'(2)] fresh(1) h new(4,5)
        by (auto simp: counted_def settled_def P' map_of_upd n_def split: if_splits)
    qed simp
  qed (use Q R in auto)
qed


text \<open>The sweep takes out clients, then the databases without any.\<close>

lemma filter_one:
  assumes "distinct (map clientfd rs)" and "r \<in> set rs"
  shows "length (filter Q rs) = length (filter Q (filter (\<lambda>c. clientfd c \<noteq> clientfd r) rs)) + (if Q r then 1 else 0)"
  using assms
proof (induction rs)
  case (Cons c rs)
  show ?case
  proof (cases "c = r")
    case True
    then have "filter (\<lambda>c. clientfd c \<noteq> clientfd r) rs = rs" using Cons.prems by (auto simp: filter_id_conv image_iff)
    then show ?thesis using True by simp
  next
    case False
    then have "clientfd c \<noteq> clientfd r" using Cons.prems by (auto simp: image_iff)
    then show ?thesis using Cons False by simp
  qed
qed simp

lemma zap_counted:
  assumes "well_formed cfg P" and P: "counted P" and r: "r \<in> set (client_list P)"
  shows "zap r P = Inl Exit \<or> (\<exists>P'. zap r P = Inr P' \<and> counted P'
    \<and> client_list P' = filter (\<lambda>c. clientfd c \<noteq> clientfd r) (client_list P))"
proof -
  let ?P = "P\<lparr>client_list := filter (\<lambda>c. clientfd c \<noteq> clientfd r) (client_list P)\<rparr>"
  have n: "clients i P = clients i ?P + (if dbp r = Some i then 1 else 0)" for i
  proof -
    have "distinct (map clientfd (client_list P))" using assms(1) by (simp add: well_formed_def)
    have cl: "client_list ?P = filter (\<lambda>c. clientfd c \<noteq> clientfd r) (client_list P)" by simp
    show ?thesis unfolding clients_def cl by (rule filter_one [OF \<open>distinct _\<close> r])
  qed
  show ?thesis
  proof (cases "dbp r")
    case None
    then have "clients i ?P = clients i P" for i using n by simp
    then have "counted ?P" using P unfolding counted_def by simp blast
    then show ?thesis using None by (cases "conn_type r") (auto simp: zap_def)
  next
    case (Some i)
    then have c: "conn_type r = C_CLIENT" and "map_of (first_dbp P) i \<noteq> None"
      using P r unfolding counted_def by blast+
    then obtain d where d: "map_of (first_dbp P) i = Some d" by blast
    define g where "g = (\<lambda>d :: 'b dbase_rec. let d = d\<lparr>num_cls := num_cls d - 1\<rparr> in if num_cls d \<le> 0 then d\<lparr>dclose := True\<rparr> else d)"
    have z: "zap r P = Inr (upd_db i g ?P)" using Some c d by (simp add: zap_def the_dbp_def g_def Let_def)
    have num: "num_cls (g d) = num_cls d - 1" "dclose (g d) \<longleftrightarrow> num_cls d \<le> 1 \<or> dclose d" for d
      by (simp_all add: g_def Let_def)
    have one: "num_cls d = int (clients i ?P) + 1" using P d n [of i] Some by (auto simp: counted_def)
    have same: "clients k (upd_db i g ?P) = clients k ?P" for k by (simp add: clients_def)
    have nums: "num_cls e = int (clients k (upd_db i g ?P)) \<and> (dclose e \<longleftrightarrow> num_cls e = 0)"
      if "map_of (first_dbp (upd_db i g ?P)) k = Some e" for k e
    proof (cases "k = i")
      case True
      then have "e = g d" using that d by (simp add: map_of_upd)
      then show ?thesis using one same P d True by (auto simp: num counted_def)
    next
      case False
      then have "map_of (first_dbp P) k = Some e" using that by (simp add: map_of_upd)
      then show ?thesis using P n [of k] same Some False by (simp add: counted_def)
    qed
    have "counted (upd_db i g ?P)"
      unfolding counted_def using nums P by (auto simp: counted_def map_of_upd)
    then show ?thesis using z by simp
  qed
qed

lemma zap_all_counted:
  "well_formed cfg P \<Longrightarrow> granted P \<Longrightarrow> counted P \<Longrightarrow> set rs \<subseteq> set (client_list P) \<Longrightarrow> distinct (map clientfd rs)
    \<Longrightarrow> zap_all rs P = Inl Exit \<or> (\<exists>P'. zap_all rs P = Inr P' \<and> counted P')"
proof (induction rs arbitrary: P)
  case (Cons r rs)
  show ?case
  proof (cases "closing r")
    case True
    have "r \<in> set (client_list P)" using Cons.prems(4) by simp
    from zap_counted [OF Cons.prems(1,3) this] show ?thesis
    proof
      assume "\<exists>P'. zap r P = Inr P' \<and> counted P' \<and> client_list P' = filter (\<lambda>c. clientfd c \<noteq> clientfd r) (client_list P)"
      then obtain Q where Q: "zap r P = Inr Q" "counted Q" "client_list Q = filter (\<lambda>c. clientfd c \<noteq> clientfd r) (client_list P)"
        by blast
      have "set rs \<subseteq> set (client_list Q)" using Cons.prems(4,5) Q(3) by (auto simp: image_iff)
      then show ?thesis
        using Cons.IH [of Q] zap_keeps [OF Q(1) Cons.prems(1,2)] Q Cons.prems(5) True by simp
    qed (use True in simp)
  next
    case False
    then show ?thesis using Cons by simp
  qed
qed simp

lemma zap_closed_dbs_counted:
  "distinct (map fst qs) \<Longrightarrow> distinct (map fst (first_dbp P)) \<Longrightarrow> counted P \<Longrightarrow> \<forall>(i, d)\<in>set qs. map_of (first_dbp P) i = Some d
    \<Longrightarrow> \<forall>i d. map_of (first_dbp P) i = Some d \<longrightarrow> dclose d \<longrightarrow> (i, d) \<in> set qs
    \<Longrightarrow> zap_closed_dbs Y qs P = Inl Closed_handle \<or> (\<exists>P'. zap_closed_dbs Y qs P = Inr P' \<and> counted P' \<and> settled P')"
proof (induction qs arbitrary: P)
  case Nil
  then show ?case by (auto simp: settled_def)
next
  case (Cons q qs)
  obtain i d where q: "q = (i, d)" by (cases q)
  have d: "map_of (first_dbp P) i = Some d" using Cons.prems(4) q by auto
  show ?case
  proof (cases "dclose d")
    case False
    have "\<forall>k e. map_of (first_dbp P) k = Some e \<longrightarrow> dclose e \<longrightarrow> (k, e) \<in> set qs"
      using Cons.prems(5) False q d by fastforce
    then show ?thesis using Cons.IH [of P] Cons.prems False q by simp
  next
    case True
    let ?ds = "filter (\<lambda>(j, _). j \<noteq> i) (first_dbp P)"
    have "clients i P = 0" using Cons.prems(3) d True by (auto simp: counted_def)
    then have no: "\<forall>r\<in>set (client_list P). dbp r \<noteq> Some i" by (simp add: clients_def filter_empty_conv)
    then have same: "map (\<lambda>r. if dbp r = Some i then r\<lparr>closing := True\<rparr> else r) (client_list P) = client_list P"
      by (simp add: map_idI)
    show ?thesis
    proof (cases "handle d")
      case None
      then show ?thesis using q True d by (simp add: zap_dbs_def Let_def)
    next
      case (Some s)
      define Q where "Q = P\<lparr>first_dbp := ?ds, files := fst (dbclose Y (files P) d s)\<rparr>"
      have z: "zap_dbs Y i P = Inr Q" using d Some same by (simp add: zap_dbs_def Let_def Q_def)
      have c: "clients k Q = clients k P" for k by (simp add: clients_def Q_def)
      have "counted Q"
        using Cons.prems(3) no unfolding counted_def c by (auto simp: Q_def map_of_without split: if_splits)
      moreover have "distinct (map fst (first_dbp Q))" using Cons.prems(2) by (simp add: Q_def distinct_map_filter)
      moreover have "map_of (first_dbp Q) k = Some e" if "(k, e) \<in> set qs" for k e
      proof -
        have "k \<noteq> i" using Cons.prems(1) q that by (auto simp: image_iff)
        moreover have "map_of (first_dbp P) k = Some e" using Cons.prems(4) that by auto
        ultimately show ?thesis by (simp add: Q_def map_of_without)
      qed
      then have "\<forall>(k, e)\<in>set qs. map_of (first_dbp Q) k = Some e" by auto
      moreover have "\<forall>k e. map_of (first_dbp Q) k = Some e \<longrightarrow> dclose e \<longrightarrow> (k, e) \<in> set qs"
        using Cons.prems(5) q by (auto simp: Q_def map_of_without split: if_splits)
      ultimately have "zap_closed_dbs Y qs Q = Inl Closed_handle \<or> (\<exists>P'. zap_closed_dbs Y qs Q = Inr P' \<and> counted P' \<and> settled P')"
        using Cons.prems(1) by (intro Cons.IH) simp_all
      moreover have "zap_closed_dbs Y (q # qs) P = zap_closed_dbs Y qs Q" using q True z by simp
      ultimately show ?thesis by simp
    qed
  qed
qed

lemma sweep_counted:
  assumes "well_formed cfg P" and "granted P" and "counted P"
  shows "sweep Y P \<in> {Inl Exit, Inl Closed_handle} \<or> (\<exists>P'. sweep Y P = Inr P' \<and> counted P' \<and> settled P')"
proof -
  from zap_all_counted [OF assms, of "client_list P"] assms(1)
  have "zap_all (client_list P) P = Inl Exit \<or> (\<exists>Q. zap_all (client_list P) P = Inr Q \<and> counted Q)" by (simp add: well_formed_def)
  then show ?thesis
  proof
    assume "\<exists>Q. zap_all (client_list P) P = Inr Q \<and> counted Q"
    then obtain Q where Q: "zap_all (client_list P) P = Inr Q" "counted Q" by blast
    have d: "distinct (map fst (first_dbp Q))" using zap_all_keeps [OF Q(1) assms(1,2)] by (simp add: well_formed_def)
    have "\<forall>(i, d)\<in>set (first_dbp Q). map_of (first_dbp Q) i = Some d" using d by auto
    moreover have "\<forall>i d. map_of (first_dbp Q) i = Some d \<longrightarrow> dclose d \<longrightarrow> (i, d) \<in> set (first_dbp Q)" by (auto dest: map_of_SomeD)
    ultimately show ?thesis
      using zap_closed_dbs_counted [OF d d Q(2), of Y] Q(1) by (auto simp: sweep_def)
  qed (simp add: sweep_def)
qed

lemma handler_counted:
  assumes "handler Y P r q t = Inr (P', out)" and "well_formed cfg P" and P: "counted P" "settled P" and r: "r \<in> set (client_list P)"
    and tk: "\<forall>fd. taken q = Some fd \<longrightarrow> conn_type r = C_MUM \<and> fd \<notin> clientfd ` set (client_list P)" and "t \<noteq> TOKEN_DROP"
  shows "counted P' \<and> settled P'"
proof -
  consider "t = TOKEN_INIT" | "t = TOKEN_FDPASS" | "t = TOKEN_CLOSE"
    | "t \<notin> {TOKEN_INIT, TOKEN_FDPASS, TOKEN_DROP, TOKEN_CLOSE}" using assms(7) by blast
  then show ?thesis
  proof cases
    case 1
    then show ?thesis using assms(1) by (auto simp: handler_def do_init_def bindE_Inr_iff)
  next
    case 2
    then have "do_pass Y P r (v1 q) (v2 q) (taken q) = Inr (P', out)" using assms(1) by (simp add: handler_def)
    then show ?thesis
    proof (cases rule: do_pass_cases)
      case (lost addr)
      show ?thesis
        by (rule counted_conns [OF P])
          (simp_all only: lost mark_close_def upd_conn_fields, simp_all add: upd_conn_map comp_def if_distrib cong: if_cong)
    next
      case (taken fd addr proto xsmode bt)
      let ?Q = "upd_conn (clientfd r) (\<lambda>r. r\<lparr>address := addr\<rparr>) P"
      have "counted ?Q \<and> settled ?Q"
        by (rule counted_conns [OF P]) (simp_all add: upd_conn_map del: map_map)
      moreover have "well_formed cfg ?Q"
        using assms(2) by (auto simp: well_formed_def map_clientfd_upd simp del: map_map)
      moreover have "fd \<notin> clientfd ` set (client_list ?Q)" using tk taken(1) by (auto simp: image_iff)
      ultimately show ?thesis using counted_take [OF taken(2)] by blast
    qed
  next
    case 3
    then show ?thesis
      using assms(1) counted_mark [OF P] P by (auto simp: handler_def do_close_def for_client_def split: if_splits)
  next
    case 4
    show ?thesis
    proof (cases "conn_type r = C_CLIENT")
      case True
      then show ?thesis using handler_effect [OF assms(1) True 4] counted_effect P by blast
    next
      case False
      then have "P' = P" using assms(1) 4
        by (cases t) (auto simp: handler_def db_commands do_clear_def do_list_def do_ping_def for_client_def)
      then show ?thesis using P by simp
    qed
  qed
qed

text \<open>Events without a drop\<close>

definition no_drop :: "event \<Rightarrow> bool" where
  "no_drop e \<longleftrightarrow> (case e of Request fd n q \<Rightarrow> n \<noteq> 18 | _ \<Rightarrow> True)"

lemma token_drop: "token_of n = Some TOKEN_DROP \<Longrightarrow> n = 18"
  by (auto simp: token_of_def split: if_splits)

lemma counted_settled_dbs:
  assumes "counted P" and "settled P" and "client_list P' = client_list P"
    and "first_dbp P' = map (\<lambda>(i, d). (i, f d)) (first_dbp P)" and "\<And>d. num_cls (f d) = num_cls d" "\<And>d. dclose (f d) = dclose d"
  shows "counted P' \<and> settled P'"
  using assms by (auto simp: counted_def settled_def clients_def map_of_all)

lemma serves_counted:
  assumes "serves Y P e out P'" and "well_formed cfg P" "granted P" and P: "counted P" "settled P" and "no_drop e"
  shows "counted P' \<and> settled P'"
  using assms(1)
proof cases
  case (Request r fd q n)
  from Request(6) show ?thesis
  proof (cases rule: parse_request_cases)
    case refused
    then show ?thesis using counted_mark [OF P] by blast
  next
    case (handled t)
    then have "t \<noteq> TOKEN_DROP" using assms(6) Request(1) token_drop by (auto simp: no_drop_def)
    then show ?thesis using handler_counted [OF handled(3) assms(2) P Request(2) Request(5)] by blast
  qed
next
  case (Lost fd)
  then show ?thesis using counted_mark [OF P] by blast
next
  case Flush
  then show ?thesis
    by (intro counted_settled_dbs [OF P, of _ "\<lambda>d. d\<lparr>handle := map_option (\<lambda>s. fst (db_sync (dbf Y) s)) (handle d)\<rparr>"])
      (auto simp: flush_all_def split: if_splits)
next
  case Sweep
  then show ?thesis using sweep_counted [OF assms(2,3) P(1), of Y] by auto
qed

lemma reached_counted: "reached Y cfg no_drop P \<Longrightarrow> counted P \<and> settled P"
proof (induction rule: reached.induct)
  case (start w fd)
  show ?case by (simp add: counted_def settled_def fresh_process_def)
next
  case (serve P e out P')
  then show ?case using serves_counted reached_ok [of Y cfg no_drop P] by blast
qed

lemma dbp_live: "counted P \<Longrightarrow> r \<in> set (client_list P) \<Longrightarrow> the_dbp P r \<noteq> Inl Stale_database"
  by (auto simp: counted_def the_dbp_def split: option.splits)

lemma bindE_Inl: "bindE m f = Inl e \<longleftrightarrow> m = Inl e \<or> (\<exists>x. m = Inr x \<and> f x = Inl e)"
  by (cases m) auto

lemma answer_not_Inl [simp]: "answer P r m \<noteq> Inl e"
  by (simp add: answer_def)

lemma take_client_live: "take_client Y P fd a pr x b n \<noteq> Inl Stale_database"
proof -
  obtain R ms where h: "handle_new_connection Y P fd C_CLIENT a = (R, ms)" by fastforce
  have g: "get_dbp Y Q a x b n \<noteq> Inl Stale_database" for Q :: "('a, 'b) process"
    by (auto simp: get_dbp_def split: sum.splits conf_fault.splits)
  show ?thesis
  proof (cases R)
    case (Some Q)
    show ?thesis
    proof (cases "get_dbp Y Q a x b n")
      case (Inl e)
      then show ?thesis using g [of Q] by (auto simp: take_client_def h Some)
    next
      case (Inr p)
      then show ?thesis by (cases p) (auto simp: take_client_def h Some Let_def split: sum.split)
    qed
  qed (simp add: take_client_def h)
qed

lemma for_client_live:
  "the_handle P r \<noteq> Inl Stale_database \<Longrightarrow> (\<And>i d s. f (i, d, s) \<noteq> Inl Stale_database)
    \<Longrightarrow> for_client P r (bindE (the_handle P r) f) \<noteq> Inl Stale_database"
  by (auto simp: for_client_def bindE_Inl)

lemma handler_live:
  assumes "counted P" and "r \<in> set (client_list P)"
  shows "handler Y P r q t \<noteq> Inl Stale_database"
proof -
  have d: "the_dbp P r \<noteq> Inl Stale_database" using dbp_live [OF assms] .
  then have h: "the_handle P r \<noteq> Inl Stale_database" by (auto simp: the_handle_def bindE_Inl split: option.splits)
  have z: "zap_dbs Y i P \<noteq> Inl Stale_database" for i by (auto simp: zap_dbs_def Let_def split: option.splits)
  have u: "ulong_at b i \<noteq> Inl Stale_database" for b i by (simp add: ulong_at_def)
  show ?thesis
  proof (cases t)
    case TOKEN_INIT
    then show ?thesis using u by (auto simp: handler_def do_init_def bindE_Inl)
  next
    case TOKEN_FDPASS
    then show ?thesis
      using u by (auto simp: handler_def do_pass_def take_client_live bindE_Inl Let_def split: option.splits)
  next
    case TOKEN_DROP
    then show ?thesis using d z by (auto simp: handler_def do_drop_def bindE_Inl split: prod.splits)
  qed ((simp only: handler_def token.case db_commands do_clear_def do_list_def do_ping_def do_close_def, (rule for_client_live [OF h])?,
      simp add: Let_def case_prod_beta for_client_def split: sum.split)+)
qed

text \<open>C28. In every state reached without the command that drops a database, each client that
  opened a database has it in the list, and the counter of a database is the number of its
  clients, so it is closed when the last one leaves and never before.\<close>

theorem clients_counted:
  assumes "reached Y cfg no_drop P"
  shows "(\<forall>i d. map_of (first_dbp P) i = Some d \<longrightarrow> num_cls d = int (clients i P) \<and> 0 < num_cls d)
    \<and> sweep Y P \<noteq> Inl Stale_database
    \<and> (\<forall>r\<in>set (client_list P). \<forall>n q. parse_request Y P r n q \<noteq> Inl Stale_database)"
proof (intro conjI ballI allI impI)
  have P: "counted P" "settled P" "well_formed cfg P" "granted P"
    using reached_counted [OF assms] reached_ok [OF assms] by simp_all
  fix i d
  assume "map_of (first_dbp P) i = Some d"
  then show "num_cls d = int (clients i P)" "0 < num_cls d" using P(1,2) unfolding counted_def settled_def by fastforce+
next
  show "sweep Y P \<noteq> Inl Stale_database"
    using sweep_counted [of cfg P Y] reached_counted [OF assms] reached_ok [OF assms] by auto
next
  fix r n q
  assume r: "r \<in> set (client_list P)"
  have "handler Y P r q t \<noteq> Inl Stale_database" for t
    using handler_live [OF _ r] reached_counted [OF assms] by blast
  then show "parse_request Y P r n q \<noteq> Inl Stale_database" by (auto simp: parse_request_def split: option.splits)
qed

section \<open>What a client can do to the process\<close>

lemma zap_first_dbp: "zap r P = Inr P' \<Longrightarrow> map fst (first_dbp P') = map fst (first_dbp P)"
  by (auto simp: zap_def Let_def bindE_Inr_iff map_fst_upd simp del: map_map split: conn_type.splits option.splits)

lemma zap_all_stale:
  assumes "r \<in> set rs" "closing r" "conn_type r = C_CLIENT" "dbp r = Some i"
  shows "\<forall>c\<in>set rs. closing c \<longrightarrow> conn_type c \<noteq> C_MUM \<Longrightarrow> i \<notin> fst ` set (first_dbp P) \<Longrightarrow> zap_all rs P = Inl Stale_database"
  using assms(1)
proof (induction rs arbitrary: P)
  case (Cons c rs)
  have "map_of (first_dbp P) i = None" using Cons.prems(2) by (simp add: map_of_eq_None_iff)
  then have stale: "zap r P = Inl Stale_database" using assms by (simp add: zap_def the_dbp_def Let_def)
  show ?case
  proof (cases "closing c")
    case False
    then show ?thesis using Cons assms(2) by auto
  next
    case True
    show ?thesis
    proof (cases "zap c P")
      case (Inl e)
      then have "e = Stale_database"
        using Cons.prems(1) True by (auto simp: zap_def Let_def the_dbp_def bindE_Inl split: conn_type.splits option.splits)
      then show ?thesis using Inl True by simp
    next
      case (Inr Q)
      then have "r \<in> set rs" using stale Cons.prems(3) by auto
      moreover have "i \<notin> fst ` set (first_dbp Q)" using Cons.prems(2) zap_first_dbp [OF Inr] by (metis set_map)
      ultimately show ?thesis using Cons.IH [of Q] Cons.prems(1) Inr True by simp
    qed
  qed
qed simp

text \<open>C30. Dropping a database gives its record back while the connections to it, that of the
  client who asked included, still point to it: the sweep that follows uses it.\<close>

theorem drop_leaves_stale:
  assumes "reached Y cfg I P" and "serves Y P (Request (clientfd r) 18 q) out P'"
    and "r \<in> set (client_list P)" and "conn_type r = C_CLIENT" and "T_DROP \<le> op r"
    and "\<forall>c\<in>set (client_list P). conn_type c = C_MUM \<longrightarrow> \<not> closing c"
  shows "sweep Y P' = Inl Stale_database"
proof -
  have wf: "well_formed cfg P" using reached_ok [OF assms(1)] by simp
  obtain r' where r': "r' \<in> set (client_list P)" "clientfd r' = clientfd r" "parse_request Y P r' 18 q = Inr (P', out)"
    using assms(2) by (auto simp: serves_request)
  have "r' = r" using wf r'(1,2) assms(3) by (auto simp: well_formed_def distinct_map inj_on_def)
  then have "do_drop Y P r = Inr (P', out)"
    using r'(3) assms(5) by (simp add: parse_request_def token_of_def handler_def)
  then obtain i d Q w where i: "dbp r = Some i" "map_of (first_dbp P) i = Some d" and Q: "zap_dbs Y i P = Inr Q" "P' = Q\<lparr>files := w\<rparr>"
    by (rule do_drop_cases)
  have P': "first_dbp P' = filter (\<lambda>(j, _). j \<noteq> i) (first_dbp P)"
    "client_list P' = map (\<lambda>r. if dbp r = Some i then r\<lparr>closing := True\<rparr> else r) (client_list P)"
    using Q i(2) by (auto simp: zap_dbs_def Let_def split: option.splits)
  have "r\<lparr>closing := True\<rparr> \<in> set (client_list P')" using assms(3) i(1) by (force simp: P')
  moreover have "\<forall>c\<in>set (client_list P'). closing c \<longrightarrow> conn_type c \<noteq> C_MUM"
    using assms(6) wf by (auto simp: P' well_formed_def)
  moreover have "i \<notin> fst ` set (first_dbp P')" by (auto simp: P')
  ultimately have "zap_all (client_list P') P' = Inl Stale_database"
    by (intro zap_all_stale [of "r\<lparr>closing := True\<rparr>"]) (simp_all add: assms(4) i(1))
  then show ?thesis by (simp add: sweep_def)
qed

text \<open>The request with which the main process hands a client over\<close>

definition pass_request :: "u32 \<Rightarrow> u32 \<Rightarrow> u32 \<Rightarrow> byte list \<Rightarrow> nat \<Rightarrow> request" where
  "pass_request xsmode bt addr nm fd =
     \<lparr>v1 = packInt DBMS_PROTO @ packInt xsmode @ packInt bt @ packInt addr, v2 = nm, taken = Some fd\<rparr>"

lemma packInt_take: "take 4 (packInt v @ xs) = packInt v" "drop 4 (packInt v @ xs) = xs"
  by (simp_all add: packInt_def)

lemma ulong_at_packed:
  "ulong_at (packInt a @ xs) 0 = Inr a" "ulong_at (packInt a @ packInt b @ xs) 1 = Inr b"
  "ulong_at (packInt a @ packInt b @ packInt c @ xs) 2 = Inr c"
  "ulong_at (packInt a @ packInt b @ packInt c @ packInt d @ xs) 3 = Inr d"
  unfolding ulong_at_def by (simp_all add: packInt_take flip: drop_drop add: numeral_eq_Suc)


theorem walkers_skip:
  assumes "db_laws (dbf Y) ok tbl walk" and "ok s" and "walk s (k1 # k2 # k3 # k4 # ks)" and "distinct (map fst (first_dbp P))"
    and "map_of (first_dbp P) i = Some d" and "handle d = Some s"
    and "conn_type a = C_CLIENT" "dbp a = Some i" "T_RDONLY \<le> op a" and "conn_type b = C_CLIENT" "dbp b = Some i" "T_RDONLY \<le> op b"
    and "lastfd d = clientfd a" and "clientfd b \<noteq> clientfd a"
  shows "\<exists>P' P'' va vb. parse_request Y P b 4 qb = Inr (P', [(clientfd b, Reply TOKEN_NEXTKEY True k2 vb)])
    \<and> parse_request Y P' a 4 qa = Inr (P'', [(clientfd a, Reply TOKEN_NEXTKEY True k4 va)])"
proof -
  have step: "\<exists>s'. c_get_next (dbf Y) s = (s', Inr k) \<and> ok s' \<and> walk s' ks" if "ok s" "walk s (k # ks)" for s k ks
    using assms(1) that unfolding db_laws_def by (cases "c_get_next (dbf Y) s") fastforce
  obtain s1 where 1: "c_get_next (dbf Y) s = (s1, Inr k1)" "ok s1" "walk s1 (k2 # k3 # k4 # ks)" using step assms(2,3) by blast
  obtain s2 where 2: "c_get_next (dbf Y) s1 = (s2, Inr k2)" "ok s2" "walk s2 (k3 # k4 # ks)" using step 1 by blast
  obtain s3 where 3: "c_get_next (dbf Y) s2 = (s3, Inr k3)" "ok s3" "walk s3 (k4 # ks)" using step 2 by blast
  obtain s4 where 4: "c_get_next (dbf Y) s3 = (s4, Inr k4)" using step 3 by blast
  let ?P' = "upd_db i (\<lambda>d. d\<lparr>lastfd := clientfd b, handle := Some s2\<rparr>) P"
  let ?P'' = "upd_db i (\<lambda>d. d\<lparr>lastfd := clientfd a, handle := Some s4\<rparr>) ?P'"
  have "the_handle P b = Inr (i, d, s)" using assms by (simp add: the_handle_Inr)
  then have "parse_request Y P b 4 qb = Inr (?P', [(clientfd b, Reply TOKEN_NEXTKEY True k2 (c_data Y s2))])"
    using assms 1 2 by (simp add: parse_request_def token_of_def handler_def do_next_def for_client_def)
  moreover have "the_handle ?P' a = Inr (i, d\<lparr>lastfd := clientfd b, handle := Some s2\<rparr>, s2)"
    using assms(5,8) by (simp add: the_handle_Inr map_of_upd)
  then have "parse_request Y ?P' a 4 qa = Inr (?P'', [(clientfd a, Reply TOKEN_NEXTKEY True k4 (c_data Y s4))])"
    using assms 3 4 by (simp add: parse_request_def token_of_def handler_def do_next_def for_client_def)
  ultimately show ?thesis by blast
qed

section \<open>A server\<close>

text \<open>Files in memory; every directory is there.\<close>

type_synonym mem_state = "(flat_key \<times> flat_data) list \<times> flat_key list"

type_synonym mem_files = "(string \<times> mem_state) list"

definition sample_sys :: "(mem_files, mem_state) sys" where
  "sample_sys =
     \<lparr>dbf = memdb, c_data = (\<lambda>s. snd (fst s ! (length (fst s) - length (snd s) - 1))),
      stat_path = (\<lambda>w p. if map_of w p \<noteq> None then Is_other else if CHR ''.'' \<in> set p then Not_there else Is_directory),
      mkdir_path = (\<lambda>w p. Some w),
      open_file = (\<lambda>w p c. (w, Inr (case map_of w p of None \<Rightarrow> ([], []) | Some s \<Rightarrow> s))),
      close_file = (\<lambda>w p s. (AList.update p s w, 0)), unlink_file = (\<lambda>w p. (AList.delete p w, 0)),
      my_dir = ''/data'', max_clients = 10, unset_byte = 0\<rparr>"

definition sample_cfg :: "txsctrl list" where
  "sample_cfg = [\<lparr>dbase = ''site'', order_first = T_UNSET, recdeny = [], recallow = [\<lparr>cf_op = T_ALL, cf_ip = 0, cf_mask = 0\<rparr>]\<rparr>]"

definition sample_mum :: connection where
  "sample_mum = \<lparr>conn_type = C_MUM, clientfd = 3, address = INADDR_NONE, dbp = None, op = T_ERR, closing = False\<rparr>"

definition sample_client :: connection where
  "sample_client = \<lparr>conn_type = C_CLIENT, clientfd = 5, address = 0x0A000001, dbp = Some 0, op = T_DROP, closing = False\<rparr>"

definition sample_db :: "mem_state dbase_rec" where
  "sample_db = \<lparr>name = ''site'', pfile = ''/data/si/site.db'', bt_compare = 0, handle = Some ([], []), lastfd = 0, num_cls = 1, dclose = False\<rparr>"

definition sample_process :: "(mem_files, mem_state) process" where
  "sample_process = \<lparr>config = sample_cfg, client_list = [sample_client, sample_mum\<lparr>address := 0x0A000001\<rparr>],
     first_dbp = [(0, sample_db)], files = [], fresh_dbp = 1\<rparr>"

definition site :: "byte list" where
  "site = [115, 105, 116, 101]"

lemma sample_pass:
  "parse_request sample_sys (fresh_process sample_cfg [] 3) sample_mum 11 (pass_request 4 0 0x0A000001 site 5)
    = Inr (sample_process, [(5, Reply TOKEN_INIT True (packInt DBMS_PROTO) [])])"
  by code_simp

lemma sample_reached: "reached sample_sys sample_cfg no_drop sample_process"
proof (rule reached.serve [OF reached.start])
  show "serves sample_sys (fresh_process sample_cfg [] 3) (Request 3 11 (pass_request 4 0 0x0A000001 site 5))
      [(5, Reply TOKEN_INIT True (packInt DBMS_PROTO) [])] sample_process"
    by (rule serves.Request [OF _ _ _ _ sample_pass]) (simp_all add: fresh_process_def sample_mum_def pass_request_def)
  show "no_drop (Request 3 11 (pass_request 4 0 0x0A000001 site 5))" by (simp add: no_drop_def)
qed


definition store_request :: request where
  "store_request = \<lparr>v1 = [1], v2 = [2], taken = None\<rparr>"

definition stored_process :: "(mem_files, mem_state) process" where
  "stored_process = sample_process\<lparr>first_dbp := [(0, sample_db\<lparr>handle := Some ([([1], [2])], [])\<rparr>)]\<rparr>"

lemma sample_client_in: "sample_client \<in> set (client_list sample_process)" "\<not> closing sample_client"
    "conn_type sample_client = C_CLIENT" "clientfd sample_client = 5"
  by (simp_all add: sample_process_def sample_client_def)

lemma sample_store:
  "serves sample_sys sample_process (Request (clientfd sample_client) 2 store_request) [(5, Reply TOKEN_STORE True [] [])] stored_process"
proof (rule serves.Request)
  show "parse_request sample_sys sample_process sample_client 2 store_request = Inr (stored_process, [(5, Reply TOKEN_STORE True [] [])])"
    by code_simp
qed (simp_all add: sample_client_in store_request_def)


theorem clients_counted_witness:
  "clients 0 sample_process = 1 \<and> sweep sample_sys sample_process \<noteq> Inl Stale_database"
proof -
  have "map_of (first_dbp sample_process) 0 = Some sample_db" by (simp add: sample_process_def)
  then have "num_cls sample_db = int (clients 0 sample_process)" and "sweep sample_sys sample_process \<noteq> Inl Stale_database"
    using clients_counted [OF sample_reached] by blast+
  then show ?thesis by (simp add: sample_db_def)
qed

definition dropped_process :: "(mem_files, mem_state) process" where
  "dropped_process = sample_process\<lparr>client_list := [sample_client\<lparr>closing := True\<rparr>, sample_mum\<lparr>address := 0x0A000001\<rparr>], first_dbp := [],
     files := []\<rparr>"

theorem drop_leaves_stale_witness:
  "sweep sample_sys dropped_process = Inl Stale_database"
proof -
  have run: "parse_request sample_sys sample_process sample_client 18 store_request = Inr (dropped_process, [(5, Reply TOKEN_DROP True [] [])])"
    by code_simp
  have "serves sample_sys sample_process (Request (clientfd sample_client) 18 store_request) [(5, Reply TOKEN_DROP True [] [])] dropped_process"
    by (rule serves.Request [OF _ _ _ _ run]) (simp_all add: sample_client_in store_request_def)
  then show ?thesis
    by (rule drop_leaves_stale [OF sample_reached _ sample_client_in(1,3)])
      (simp_all add: sample_client_def sample_process_def sample_mum_def)
qed


text \<open>Two clients of a database of four keys; the first one has just been given the cursor.\<close>

definition walked_db :: "mem_state dbase_rec" where
  "walked_db = sample_db\<lparr>handle := Some ([([0], []), ([1], []), ([2], []), ([3], []), ([4], [])], [[1], [2], [3], [4]]), lastfd := 5, num_cls := 2\<rparr>"

definition other_client :: connection where
  "other_client = sample_client\<lparr>clientfd := 6\<rparr>"

theorem walkers_skip_witness:
  "\<exists>P' P'' va vb. parse_request sample_sys (sample_process\<lparr>client_list := [other_client, sample_client], first_dbp := [(0, walked_db)]\<rparr>)
      other_client 4 store_request = Inr (P', [(6, Reply TOKEN_NEXTKEY True [2] vb)])
    \<and> parse_request sample_sys P' sample_client 4 store_request = Inr (P'', [(5, Reply TOKEN_NEXTKEY True [4] va)])"
proof -
  have laws: "db_laws (dbf sample_sys) (\<lambda>s. distinct (map fst (fst s))) (\<lambda>s. map_of (fst s)) (\<lambda>s ks. snd s = ks)"
    using memdb_laws by (simp add: sample_sys_def)
  have "\<exists>P' P'' va vb. parse_request sample_sys (sample_process\<lparr>client_list := [other_client, sample_client], first_dbp := [(0, walked_db)]\<rparr>)
      other_client 4 store_request = Inr (P', [(clientfd other_client, Reply TOKEN_NEXTKEY True [2] vb)])
    \<and> parse_request sample_sys P' sample_client 4 store_request = Inr (P'', [(clientfd sample_client, Reply TOKEN_NEXTKEY True [4] va)])"
    by (rule walkers_skip [OF laws, where i = 0 and d = walked_db and s = "the (handle walked_db)" and ks = "[]" and ?k1.0 = "[1]" and ?k3.0 = "[3]"])
      (simp_all add: walked_db_def sample_db_def other_client_def sample_client_def sample_process_def less_eq_tops_def)
  then show ?thesis by (simp add: other_client_def sample_client_def)
qed

end
