(* ===== verification/Remote.thy ===== *)
theory Remote
  imports ServerRuns
begin

text \<open>
  A table at a remote server: the backend \<open>backend_dbms_store.c\<close> over the client library
  \<open>dbms/libdbms/libdbms.c\<close>, with the framing of requests and replies on both sides
  (\<open>initial_read\<close> and \<open>dispatch\<close> of \<open>dbms/deamon/deamon.c\<close>), built for 32 bits with the static
  buffers. The calls on the socket are a parameter. At the end the client is put together
  with the process of \<open>Server\<close>.
\<close>

section \<open>Messages\<close>

definition MAX_PAYLOAD :: nat where
  "MAX_PAYLOAD = 128 * 1024"

text \<open>\<open>struct header\<close>: the token, three bytes of padding, the two lengths in network order\<close>

definition HEADER :: nat where
  "HEADER = 12"

definition header_bytes :: "nat \<Rightarrow> nat \<Rightarrow> nat \<Rightarrow> byte list" where
  "header_bytes tok len1 len2 = [word_of_nat tok, 0, 0, 0] @ packInt (word_of_nat len1) @ packInt (word_of_nat len2)"

definition header_token :: "byte list \<Rightarrow> nat" where
  "header_token h = unat (h ! 0 AND 31)"

definition header_found :: "byte list \<Rightarrow> bool" where
  "header_found h \<longleftrightarrow> h ! 0 AND 32 = 32"

definition header_len1 :: "byte list \<Rightarrow> u32" where
  "header_len1 h = unpackInt (drop 4 h)"

definition header_len2 :: "byte list \<Rightarrow> u32" where
  "header_len2 h = unpackInt (drop 8 h)"

section \<open>The client library\<close>

definition E_CLOSE :: int where "E_CLOSE = 1004"
definition E_FULLREAD :: int where "E_FULLREAD = 1002"
definition E_FULLWRITE :: int where "E_FULLWRITE = 1003"
definition E_VERSION :: int where "E_VERSION = 1006"
definition E_PROTO :: int where "E_PROTO = 1007"
definition E_ERROR :: int where "E_ERROR = 1008"
definition E_NOPE :: int where "E_NOPE = 1011"
definition E_TOOBIG :: int where "E_TOOBIG = 1013"

lemmas dbms_error_codes = E_CLOSE_def E_FULLREAD_def E_FULLWRITE_def E_VERSION_def E_PROTO_def E_ERROR_def
  E_NOPE_def E_TOOBIG_def

text \<open>
  The socket: \<open>sendmsg\<close> with its result; \<open>recv\<close> of at most so many bytes, \<open>None\<close> for its
  failure, no byte when the other side has closed; \<open>reconnect\<close> up to \<open>connect\<close>, and
  \<open>shutdown\<close> with \<open>close\<close>.
\<close>

record 'n net =
  net_send :: "'n \<Rightarrow> byte list \<Rightarrow> 'n \<times> int"
  net_recv :: "'n \<Rightarrow> nat \<Rightarrow> 'n \<times> byte list option"
  net_connect :: "'n \<Rightarrow> 'n \<times> bool"
  net_close :: "'n \<Rightarrow> 'n"

record 'n dbms =
  d_name :: "byte list"
  d_mode :: u32
  d_bt_compare :: u32
  sockfd :: bool
  net_state :: 'n

text \<open>\<open>getpack\<close>: what is still missing is asked for until it is there.\<close>

function getpack_loop :: "'n net \<Rightarrow> nat \<Rightarrow> byte list \<Rightarrow> 'n \<Rightarrow> 'n \<times> (int + byte list)" where
  "getpack_loop N len at n =
     (if len \<le> length at then (n, Inr at)
      else (case net_recv N n (len - length at) of
          (n, None) \<Rightarrow> (n, Inl E_ERROR)
        | (n, Some l) \<Rightarrow>
            if l = [] then (n, Inl E_CLOSE) else getpack_loop N len (at @ take (len - length at) l) n))"
  by pat_completeness auto
termination
  by (relation "measure (\<lambda>(N, len, at, n). len - length at)") (auto simp: min_def intro!: diff_less_mono2)

declare getpack_loop.simps [simp del]

definition getpack :: "'n net \<Rightarrow> nat \<Rightarrow> 'n \<Rightarrow> 'n \<times> (int + byte list)" where
  "getpack N len n = (if len = 0 then (n, Inr []) else if len > MAX_PAYLOAD then (n, Inl E_TOOBIG) else getpack_loop N len [] n)"

text \<open>
  \<open>i_comms\<close>: the error, \<open>*retval\<close> and the two packets, which are given back when there is an
  error. The result of \<open>sendmsg\<close> and of the first \<open>recv\<close> is kept in an unsigned variable, so
  their failure is a number of bytes that is not the expected one. The test of \<open>F_SERVER_SIDE\<close>
  is never true.
\<close>

type_synonym packets = "int \<times> int \<times> byte list \<times> byte list"

definition with_net :: "'n dbms \<Rightarrow> 'n \<Rightarrow> packets \<Rightarrow> 'n dbms \<times> packets" where
  "with_net me n res = (me\<lparr>net_state := n\<rparr>, res)"

definition gone :: "int \<Rightarrow> packets" where
  "gone err = (err, - 1, [], [])"

definition i_reply :: "'n net \<Rightarrow> nat \<Rightarrow> byte list \<Rightarrow> 'n \<Rightarrow> 'n \<times> packets" where
  "i_reply N token cmd n =
     (case getpack N (unat (header_len1 cmd)) n of
        (n, Inl err) \<Rightarrow> (n, gone err)
      | (n, Inr r1) \<Rightarrow>
         (case getpack N (unat (header_len2 cmd)) n of
            (n, Inl err) \<Rightarrow> (n, gone err)
          | (n, Inr r2) \<Rightarrow>
              (n, if header_token cmd = 0 then gone E_ERROR
                  else if header_token cmd \<noteq> token then gone E_PROTO
                  else if header_found cmd then (0, 0, r1, r2)
                  else (0, 1, [], []))))"

definition i_comms :: "'n net \<Rightarrow> 'n dbms \<Rightarrow> nat \<Rightarrow> byte list \<Rightarrow> byte list \<Rightarrow> 'n dbms \<times> packets" where
  "i_comms N me token s1 s2 =
     (if HEADER + length s1 + length s2 > MAX_PAYLOAD then (me, gone E_TOOBIG)
      else (case net_send N (net_state me) (header_bytes (token + 128) (length s1) (length s2) @ s1 @ s2) of
        (n, s) \<Rightarrow>
          if s = 0 then with_net me n (gone E_CLOSE)
          else if s \<noteq> int (HEADER + length s1 + length s2) then with_net me n (gone E_FULLWRITE)
          else (case net_recv N n HEADER of
              (n, None) \<Rightarrow> with_net me n (gone E_FULLREAD)
            | (n, Some cmd) \<Rightarrow>
                if cmd = [] then with_net me n (gone E_CLOSE)
                else if length cmd \<noteq> HEADER then with_net me n (gone E_FULLREAD)
                else (case i_reply N token cmd n of (n, res) \<Rightarrow> with_net me n res))))"

definition reconnect :: "'n net \<Rightarrow> 'n dbms \<Rightarrow> 'n dbms \<times> int" where
  "reconnect N me =
     (let n = (if sockfd me then net_close N (net_state me) else net_state me); (n, ok) = net_connect N n
      in (me\<lparr>net_state := n, sockfd := ok\<rparr>, if ok then 0 else E_ERROR))"

text \<open>\<open>None\<close>: the version is read through a null pointer, or outside of the packet.\<close>

definition reselect :: "'n net \<Rightarrow> 'n dbms \<Rightarrow> ('n dbms \<times> int) option" where
  "reselect N me =
     (case i_comms N me 8 (packInt DBMS_PROTO @ packInt (d_mode me) @ packInt (d_bt_compare me)) (d_name me) of
        (me, err, retval, s1, _) \<Rightarrow>
          if err \<noteq> 0 then Some (me, err)
          else if retval = 1 then Some (me, E_NOPE)
          else if retval < 0 then Some (me, E_PROTO)
          else if length s1 < 4 then None
          else Some (me, if unpackInt s1 > DBMS_PROTO then E_VERSION else 0))"

text \<open>
  \<open>dbms_comms\<close>, with the tries that are left. \<open>EAGAIN\<close> and \<open>EINTR\<close> are 11 and 4. Nothing sleeps.
\<close>

primrec comms_loop ::
  "'n net \<Rightarrow> nat \<Rightarrow> byte list \<Rightarrow> byte list \<Rightarrow> nat \<Rightarrow> 'n dbms \<Rightarrow> packets \<Rightarrow> ('n dbms \<times> packets) option"
where
  "comms_loop N token s1 s2 0 me res = Some (me, res)"
| "comms_loop N token s1 s2 (Suc errs) me res =
     (let (me, res) = (if sockfd me then i_comms N me token s1 s2 else (me, res)); err = fst res
      in if sockfd me \<and> err = 0 then Some (me, res)
         else if err = 11 \<or> err = 4 then comms_loop N token s1 s2 errs me res
         else if err = E_ERROR then Some (me, res)
         else
           let me = me\<lparr>net_state := net_close N (net_state me), sockfd := False\<rparr>;
               (me, err) = reconnect N me
           in if err \<noteq> 0 then comms_loop N token s1 s2 errs me (err, snd res)
              else (case reselect N me of
                  None \<Rightarrow> None
                | Some (me, err) \<Rightarrow> comms_loop N token s1 s2 errs me (err, snd res)))"

definition dbms_comms :: "'n net \<Rightarrow> 'n dbms \<Rightarrow> nat \<Rightarrow> byte list \<Rightarrow> byte list \<Rightarrow> ('n dbms \<times> packets) option" where
  "dbms_comms N me token s1 s2 = comms_loop N token s1 s2 10 me (gone 0)"

text \<open>The name and the mode are checked; a connection is a record, or the null pointer.\<close>

definition dbms_connect :: "'n net \<Rightarrow> byte list \<Rightarrow> u32 \<Rightarrow> u32 \<Rightarrow> 'n \<Rightarrow> 'n dbms option option" where
  "dbms_connect N nm mode bt n =
     (if nm = [] \<or> mode > 4 then Some None
      else
        let mode = (if mode = 0 then 2 else mode);
            (me, err) = reconnect N \<lparr>d_name = nm, d_mode = mode, d_bt_compare = bt, sockfd = False, net_state = n\<rparr>
        in if err \<noteq> 0 then Some None
           else (case reselect N me of
               None \<Rightarrow> None
             | Some (me, err) \<Rightarrow> Some (if err \<noteq> 0 then None else Some me)))"

text \<open>\<open>None\<close> is the failed \<open>assert(me->sockfd >= 0)\<close>, or a null pointer.\<close>

definition dbms_disconnect :: "'n net \<Rightarrow> 'n dbms \<Rightarrow> 'n option" where
  "dbms_disconnect N me =
     (if \<not> sockfd me then None
      else map_option (\<lambda>(me, _). net_close N (net_state me)) (dbms_comms N me 9 [] []))"

section \<open>The backend\<close>

text \<open>The code most operations make of \<open>dbms_comms\<close>\<close>

definition dbms_result :: "packets \<Rightarrow> flat_error" where
  "dbms_result = (\<lambda>(err, retval, _). if err \<noteq> 0 then FLAT_STORE_E_DBMS else if retval = 1 then FLAT_STORE_E_NOTFOUND else retval)"

definition backend_dbms_fetch :: "'n net \<Rightarrow> 'n dbms \<Rightarrow> flat_key \<Rightarrow> ('n dbms \<times> (flat_error + flat_data)) option" where
  "backend_dbms_fetch N me key = map_option
     (\<lambda>(me, res). (me, if dbms_result res \<noteq> 0 then Inl (dbms_result res) else Inr (snd (snd (snd res)))))
     (dbms_comms N me 1 key [])"

definition backend_dbms_fetch_compressed ::
  "'n net \<Rightarrow> (flat_data \<Rightarrow> flat_data) \<Rightarrow> 'n dbms \<Rightarrow> flat_key \<Rightarrow> ('n dbms \<times> (flat_error + flat_data)) option"
where
  "backend_dbms_fetch_compressed N decode me key =
     map_option (\<lambda>(me, r). (me, map_sum id decode r)) (backend_dbms_fetch N me key)"

definition backend_dbms_store :: "'n net \<Rightarrow> 'n dbms \<Rightarrow> flat_key \<Rightarrow> flat_data \<Rightarrow> ('n dbms \<times> flat_error) option" where
  "backend_dbms_store N me key val = map_option
     (\<lambda>(me, err, retval, _). (me, if err \<noteq> 0 then FLAT_STORE_E_DBMS
        else if retval \<noteq> 0 then (if retval = 1 then FLAT_STORE_E_KEYEXIST else FLAT_STORE_E_NOTFOUND) else retval))
     (dbms_comms N me 2 key val)"

definition backend_dbms_store_compressed ::
  "'n net \<Rightarrow> (flat_data \<Rightarrow> flat_data) \<Rightarrow> 'n dbms \<Rightarrow> flat_key \<Rightarrow> flat_data \<Rightarrow> ('n dbms \<times> flat_error) option"
where
  "backend_dbms_store_compressed N encode me key val = backend_dbms_store N me key (encode val)"

definition backend_dbms_exists :: "'n net \<Rightarrow> 'n dbms \<Rightarrow> flat_key \<Rightarrow> ('n dbms \<times> flat_error) option" where
  "backend_dbms_exists N me key = map_option (\<lambda>(me, res). (me, dbms_result res)) (dbms_comms N me 6 key [])"

definition backend_dbms_delete :: "'n net \<Rightarrow> 'n dbms \<Rightarrow> flat_key \<Rightarrow> ('n dbms \<times> flat_error) option" where
  "backend_dbms_delete N me key = map_option
     (\<lambda>(me, err, retval, _). (me, if err \<noteq> 0 then FLAT_STORE_E_DBMS
        else if retval \<noteq> 0 then FLAT_STORE_E_NOTFOUND else retval))
     (dbms_comms N me 3 key [])"

definition backend_dbms_clear :: "'n net \<Rightarrow> 'n dbms \<Rightarrow> ('n dbms \<times> flat_error) option" where
  "backend_dbms_clear N me = map_option
     (\<lambda>(me, err, retval, _). (me, if err \<noteq> 0 then FLAT_STORE_E_DBMS else retval)) (dbms_comms N me 10 [] [])"

text \<open>A key is the first packet of the reply, a counter the second.\<close>

definition key_result :: "'n dbms \<times> packets \<Rightarrow> 'n dbms \<times> (flat_error + flat_key)" where
  "key_result = (\<lambda>(me, res). (me, if dbms_result res \<noteq> 0 then Inl (dbms_result res) else Inr (fst (snd (snd res)))))"

definition backend_dbms_from :: "'n net \<Rightarrow> 'n dbms \<Rightarrow> flat_key \<Rightarrow> ('n dbms \<times> (flat_error + flat_key)) option" where
  "backend_dbms_from N me closest_key = map_option key_result (dbms_comms N me 19 closest_key [])"

definition backend_dbms_first :: "'n net \<Rightarrow> 'n dbms \<Rightarrow> ('n dbms \<times> (flat_error + flat_key)) option" where
  "backend_dbms_first N me = map_option key_result (dbms_comms N me 5 [] [])"

definition backend_dbms_next :: "'n net \<Rightarrow> 'n dbms \<Rightarrow> flat_key \<Rightarrow> ('n dbms \<times> (flat_error + flat_key)) option" where
  "backend_dbms_next N me previous_key = map_option key_result (dbms_comms N me 4 previous_key [])"

definition counter_result :: "'n dbms \<times> packets \<Rightarrow> 'n dbms \<times> (flat_error + flat_data)" where
  "counter_result = (\<lambda>(me, res). (me, if dbms_result res \<noteq> 0 then Inl (dbms_result res) else Inr (snd (snd (snd res)))))"

definition backend_dbms_inc :: "'n net \<Rightarrow> 'n dbms \<Rightarrow> flat_key \<Rightarrow> ('n dbms \<times> (flat_error + flat_data)) option" where
  "backend_dbms_inc N me key = map_option counter_result (dbms_comms N me 16 key [])"

definition backend_dbms_dec :: "'n net \<Rightarrow> 'n dbms \<Rightarrow> flat_key \<Rightarrow> ('n dbms \<times> (flat_error + flat_data)) option" where
  "backend_dbms_dec N me key = map_option counter_result (dbms_comms N me 17 key [])"

definition backend_dbms_sync :: "'n net \<Rightarrow> 'n dbms \<Rightarrow> ('n dbms \<times> flat_error) option" where
  "backend_dbms_sync N me = map_option
     (\<lambda>(me, err, retval, _). (me, if err \<noteq> 0 then FLAT_STORE_E_DBMS else retval)) (dbms_comms N me 7 [] [])"

definition backend_dbms_open ::
  "'n net \<Rightarrow> bool \<Rightarrow> bool \<Rightarrow> (byte list \<times> byte list) option \<Rightarrow> u32 \<Rightarrow> 'n \<Rightarrow> (flat_error + 'n dbms) option"
where
  "backend_dbms_open N remote ro dir_name bt n =
     (if \<not> remote then Some (Inl FLAT_STORE_E_CANNOTOPEN)
      else
        let filename = (case dir_name of Some (dir, nm) \<Rightarrow> dir @ [47] @ nm | None \<Rightarrow> [])
        in map_option (\<lambda>d. case d of None \<Rightarrow> Inl FLAT_STORE_E_CANNOTOPEN | Some me \<Rightarrow> Inr me)
             (dbms_connect N filename (if ro then 1 else 3) bt n))"

definition backend_dbms_close :: "'n net \<Rightarrow> 'n dbms \<Rightarrow> ('n \<times> flat_error) option" where
  "backend_dbms_close N me = map_option (\<lambda>n. (n, 0)) (dbms_disconnect N me)"

text \<open>The operations as the table interface sees them, where the client does not come to an end\<close>

definition backend_dbms :: "'n net \<Rightarrow> 'n dbms backend" where
  "backend_dbms N =
     \<lparr> be_fetch = (\<lambda>me k. the (backend_dbms_fetch N me k)), be_store = (\<lambda>me k v. the (backend_dbms_store N me k v)),
       be_exists = (\<lambda>me k. the (backend_dbms_exists N me k)), be_delete = (\<lambda>me k. the (backend_dbms_delete N me k)),
       be_inc = (\<lambda>me k. the (backend_dbms_inc N me k)), be_dec = (\<lambda>me k. the (backend_dbms_dec N me k)),
       be_first = (\<lambda>me. the (backend_dbms_first N me)), be_next = (\<lambda>me k. the (backend_dbms_next N me k)),
       be_from = (\<lambda>me k. the (backend_dbms_from N me k)), be_sync = (\<lambda>me. the (backend_dbms_sync N me)),
       be_close = (\<lambda>me. case the (backend_dbms_close N me) of (n, e) \<Rightarrow> (me\<lparr>net_state := n, sockfd := False\<rparr>, e)) \<rparr>"

section \<open>The server's end of a connection\<close>

primrec token_number :: "token \<Rightarrow> nat" where
  "token_number TOKEN_FETCH = 1"
| "token_number TOKEN_STORE = 2"
| "token_number TOKEN_DELETE = 3"
| "token_number TOKEN_NEXTKEY = 4"
| "token_number TOKEN_FIRSTKEY = 5"
| "token_number TOKEN_EXISTS = 6"
| "token_number TOKEN_SYNC = 7"
| "token_number TOKEN_INIT = 8"
| "token_number TOKEN_CLOSE = 9"
| "token_number TOKEN_CLEAR = 10"
| "token_number TOKEN_FDPASS = 11"
| "token_number TOKEN_PING = 12"
| "token_number TOKEN_INC = 13"
| "token_number TOKEN_LIST = 14"
| "token_number TOKEN_DEC = 15"
| "token_number TOKEN_PACKINC = 16"
| "token_number TOKEN_PACKDEC = 17"
| "token_number TOKEN_DROP = 18"
| "token_number TOKEN_FROM = 19"

text \<open>What \<open>dispatch\<close> writes for a reply, and \<open>reply_log\<close> for an error with the text \<open>err\<close>\<close>

definition reply_bytes :: "byte list \<Rightarrow> reply \<Rightarrow> byte list" where
  "reply_bytes err m = (case m of
     Reply t found r1 r2 \<Rightarrow>
       header_bytes (token_number t + (if found then 32 else 0)) (length r1) (length r2) @ r1 @ r2
   | Error_reply \<Rightarrow> header_bytes 0 (length err) 0 @ err)"

text \<open>
  \<open>initial_read\<close> and \<open>continue_read\<close> on a message that has arrived. The lengths are added with
  32 bits. When the sum wraps around, the values reach beyond what was received, which
  matters to the commands that look at them.
\<close>

definition reads_values :: "token \<Rightarrow> bool" where
  "reads_values t \<longleftrightarrow> t \<notin> {TOKEN_NEXTKEY, TOKEN_FIRSTKEY, TOKEN_SYNC, TOKEN_CLOSE, TOKEN_CLEAR, TOKEN_PING, TOKEN_LIST, TOKEN_DROP}"

definition initial_read :: "('w, 's) sys \<Rightarrow> ('w, 's) process \<Rightarrow> connection \<Rightarrow> byte list \<Rightarrow> ('w, 's) outcome" where
  "initial_read Y P r msg =
     (let tok = header_token msg; len1 = header_len1 msg; len2 = header_len2 msg; body = drop HEADER msg
      in if unat len1 > 2 * 1024 * 1024 then answer (mark_close (clientfd r) P) r Error_reply
         else if unat (len1 + len2) > MAX_PAYLOAD then answer (mark_close (clientfd r) P) r Error_reply
         else if unat len1 + unat len2 \<ge> 2 ^ 32
         then (case token_of tok of
             Some t \<Rightarrow> if reads_values t \<and> cmd_op t \<le> op r then Inl Overread
                       else parse_request Y P r tok \<lparr>v1 = [], v2 = [], taken = None\<rparr>
           | None \<Rightarrow> parse_request Y P r tok \<lparr>v1 = [], v2 = [], taken = None\<rparr>)
         else if length body < unat (len1 + len2) then Inr (P, [])
         else parse_request Y P r tok
                \<lparr>v1 = take (unat len1) body, v2 = take (unat len2) (drop (unat len1) body), taken = None\<rparr>)"

text \<open>
  A connection to a process: the process, unless it has come to an end, and what it has
  written to the connection \<open>fd\<close> that was not read yet. Nothing accepts a new connection.
\<close>

definition server_send ::
  "('w, 's) sys \<Rightarrow> byte list \<Rightarrow> nat \<Rightarrow> ('w, 's) process option \<times> byte list \<Rightarrow> byte list
    \<Rightarrow> (('w, 's) process option \<times> byte list) \<times> int"
where
  "server_send Y err fd = (\<lambda>(p, inbox) msg.
     (case p of
        None \<Rightarrow> ((None, inbox), - 1)
      | Some P \<Rightarrow>
          (case find (\<lambda>r. clientfd r = fd \<and> \<not> closing r) (client_list P) of
             None \<Rightarrow> ((Some P, inbox), - 1)
           | Some r \<Rightarrow>
               (case initial_read Y P r msg of
                  Inl _ \<Rightarrow> ((None, inbox), int (length msg))
                | Inr (P, out) \<Rightarrow>
                    ((Some P, inbox @ concat (map (\<lambda>(_, m). reply_bytes err m) (filter (\<lambda>(f, _). f = fd) out))),
                     int (length msg))))))"

definition server_net ::
  "('w, 's) sys \<Rightarrow> byte list \<Rightarrow> nat \<Rightarrow> (('w, 's) process option \<times> byte list) net"
where
  "server_net Y err fd =
     \<lparr> net_send = server_send Y err fd,
       net_recv = (\<lambda>(p, inbox) n. ((p, drop n inbox), Some (take n inbox))),
       net_connect = (\<lambda>n. (n, False)),
       net_close = (\<lambda>(p, _). (map_option (mark_close fd) p, [])) \<rparr>"

section \<open>A request and its reply\<close>

lemma unpackInt_packed [simp]: "unpackInt (packInt v @ xs) = v"
  using unpack_packInt [of v] by (simp add: unpackInt_def nth_append del: unpack_packInt)

lemma header_bytes_length [simp]: "length (header_bytes tok a b) = HEADER"
  by (simp add: header_bytes_def HEADER_def)

lemma header_lengths [simp]:
  "header_len1 (header_bytes tok a b @ xs) = word_of_nat a" "header_len2 (header_bytes tok a b @ xs) = word_of_nat b"
  by (simp_all add: header_len1_def header_len2_def header_bytes_def)

lemma header_request [simp]: "header_token (header_bytes (token_number t + 128) a b @ xs) = token_number t"
  by (cases t) (simp_all add: header_token_def header_bytes_def)

lemma header_reply [simp]:
  "header_token (header_bytes (token_number t + (if found then 32 else 0)) a b @ xs) = token_number t"
  "header_found (header_bytes (token_number t + (if found then 32 else 0)) a b @ xs) = found"
  by (cases t; simp add: header_token_def header_found_def header_bytes_def)+

lemma header_error: "header_token (header_bytes 0 a b @ xs) = 0"
  by (simp add: header_token_def header_bytes_def)

lemma token_number_pos [simp]: "token_number t \<noteq> 0"
  by (cases t) simp_all

text \<open>A socket that hands out what is in its buffer\<close>

definition buffered :: "'n net \<Rightarrow> ('p \<Rightarrow> byte list \<Rightarrow> 'n) \<Rightarrow> bool" where
  "buffered N pack \<longleftrightarrow> (\<forall>p inbox n. net_recv N (pack p inbox) n = (pack p (drop n inbox), Some (take n inbox)))"

lemma getpack_loop_buffered:
  "buffered N pack \<Longrightarrow> len \<le> length at + length inbox \<Longrightarrow> length at \<le> len \<Longrightarrow>
     getpack_loop N len at (pack p inbox) = (pack p (drop (len - length at) inbox), Inr (at @ take (len - length at) inbox))"
  by (subst getpack_loop.simps, subst getpack_loop.simps) (auto simp: buffered_def)

lemma getpack_buffered:
  "buffered N pack \<Longrightarrow> len \<le> length inbox \<Longrightarrow> len \<le> MAX_PAYLOAD \<Longrightarrow>
     getpack N len (pack p inbox) = (pack p (drop len inbox), Inr (take len inbox))"
  by (simp add: getpack_def getpack_loop_buffered)

lemma server_buffered: "buffered (server_net Y err fd) Pair"
  by (simp add: buffered_def server_net_def)

definition peer :: "nat \<Rightarrow> ('w, 's) process \<Rightarrow> connection option" where
  "peer fd P = find (\<lambda>r. clientfd r = fd \<and> \<not> closing r) (client_list P)"

lemma small_lengths:
  assumes "a + b \<le> MAX_PAYLOAD"
  shows "unat (word_of_nat a :: u32) = a" "unat (word_of_nat b :: u32) = b" "unat (word_of_nat a + word_of_nat b :: u32) = a + b"
proof -
  have b: "a + b < 2 ^ 32" using assms by (simp add: MAX_PAYLOAD_def)
  have w: "unat (word_of_nat n :: u32) = n" if "n < 2 ^ 32" for n
    using that by (simp add: unsigned_of_nat take_bit_nat_eq_self)
  show "unat (word_of_nat a :: u32) = a" "unat (word_of_nat b :: u32) = b" using b by (simp_all add: w)
  show "unat (word_of_nat a + word_of_nat b :: u32) = a + b" using w [OF b] by simp
qed

lemma initial_read_whole:
  assumes "length a + length b \<le> MAX_PAYLOAD"
  shows "initial_read Y P r (header_bytes (token_number t + 128) (length a) (length b) @ a @ b)
    = parse_request Y P r (token_number t) \<lparr>v1 = a, v2 = b, taken = None\<rparr>"
proof -
  have "length a \<le> 2 * 1024 * 1024" "length a + length b < 2 ^ 32" using assms by (simp_all add: MAX_PAYLOAD_def)
  then show ?thesis using assms by (simp add: initial_read_def small_lengths)
qed

lemma i_reply_buffered:
  assumes "buffered N pack" "length a \<le> MAX_PAYLOAD" "length b \<le> MAX_PAYLOAD"
  shows "i_reply N (token_number t)
      (header_bytes (token_number t + (if found then 32 else 0)) (length a) (length b)) (pack p (a @ b))
    = (pack p [], if found then (0, 0, a, b) else (0, 1, [], []))"
  using assms header_lengths [where xs = "[]"] header_reply [where xs = "[]"] small_lengths [of "length a" 0] small_lengths [of "length b" 0]
  by (simp add: i_reply_def getpack_buffered)

lemma i_comms_buffered:
  assumes N: "buffered N pack" and fits: "HEADER + length a1 + length a2 \<le> MAX_PAYLOAD"
    and send: "net_send N (net_state me) (header_bytes (token_number t + 128) (length a1) (length a2) @ a1 @ a2)
      = (pack p (reply_bytes err (Reply t found b1 b2)), int (HEADER + length a1 + length a2))"
    and b: "length b1 \<le> MAX_PAYLOAD" "length b2 \<le> MAX_PAYLOAD"
  shows "i_comms N me (token_number t) a1 a2
    = (me\<lparr>net_state := pack p []\<rparr>, 0, if found then (0, b1, b2) else (1, [], []))"
proof -
  let ?g = "header_bytes (token_number t + (if found then 32 else 0)) (length b1) (length b2)"
  have "net_recv N (pack p (?g @ b1 @ b2)) HEADER = (pack p (b1 @ b2), Some ?g)"
    using N by (simp add: buffered_def)
  moreover have "?g \<noteq> []" using header_bytes_length by (metis HEADER_def list.size(3) zero_neq_numeral)
  ultimately show ?thesis using fits send
    by (simp add: i_comms_def i_reply_buffered [OF N b] with_net_def HEADER_def reply_bytes_def)
qed

lemma i_comms_answered:
  assumes st: "net_state me = (Some P, [])" and r: "peer fd P = Some r"
    and fits: "HEADER + length a1 + length a2 \<le> MAX_PAYLOAD"
    and q: "parse_request Y P r (token_number t) \<lparr>v1 = a1, v2 = a2, taken = None\<rparr> = Inr (P', [(fd, Reply t found b1 b2)])"
    and b: "length b1 \<le> MAX_PAYLOAD" "length b2 \<le> MAX_PAYLOAD"
  shows "i_comms (server_net Y err fd) me (token_number t) a1 a2
    = (me\<lparr>net_state := (Some P', [])\<rparr>, 0, if found then (0, b1, b2) else (1, [], []))"
proof -
  have "net_send (server_net Y err fd) (net_state me) (header_bytes (token_number t + 128) (length a1) (length a2) @ a1 @ a2)
      = ((Some P', reply_bytes err (Reply t found b1 b2)), int (HEADER + length a1 + length a2))"
    using r fits q by (simp add: server_net_def server_send_def st peer_def initial_read_whole)
  then show ?thesis by (rule i_comms_buffered [OF server_buffered fits _ b])
qed

lemma i_comms_error:
  assumes st: "net_state me = (Some P, [])" and r: "peer fd P = Some r"
    and fits: "HEADER + length a1 + length a2 \<le> MAX_PAYLOAD"
    and q: "parse_request Y P r (token_number t) \<lparr>v1 = a1, v2 = a2, taken = None\<rparr> = Inr (P', [(fd, Error_reply)])"
    and b: "length err \<le> MAX_PAYLOAD"
  shows "i_comms (server_net Y err fd) me (token_number t) a1 a2 = (me\<lparr>net_state := (Some P', [])\<rparr>, gone E_ERROR)"
proof -
  let ?h = "header_bytes (token_number t + 128) (length a1) (length a2)"
  let ?g = "header_bytes 0 (length err) 0"
  have "net_send (server_net Y err fd) (net_state me) (?h @ a1 @ a2) = ((Some P', ?g @ err), int (HEADER + length a1 + length a2))"
    using r fits q by (simp add: server_net_def server_send_def st peer_def initial_read_whole reply_bytes_def)
  moreover have "net_recv (server_net Y err fd) (Some P', ?g @ err) HEADER = ((Some P', err), Some ?g)"
    by (simp add: server_net_def)
  moreover have "?g \<noteq> []" using header_bytes_length by (metis HEADER_def list.size(3) zero_neq_numeral)
  moreover have "i_reply (server_net Y err fd) (token_number t) ?g (Some P', err) = ((Some P', []), gone E_ERROR)"
    using b header_lengths [where xs = "[]"] header_error [where xs = "[]"] small_lengths [of "length err" 0] small_lengths [of 0 0]
    by (simp add: i_reply_def getpack_buffered [OF server_buffered])
  ultimately show ?thesis using fits by (simp add: i_comms_def with_net_def HEADER_def)
qed

lemma dbms_comms_answered:
  assumes "sockfd me" and "i_comms N me token a1 a2 = (me', res)" and "fst res = 0 \<or> fst res = E_ERROR" and "sockfd me'"
  shows "dbms_comms N me token a1 a2 = Some (me', res)"
  using assms by (auto simp: dbms_comms_def eval_nat_numeral E_ERROR_def Let_def)

section \<open>A table at the server\<close>

text \<open>The handle of the client \<open>fd\<close>, when it may write\<close>

definition served :: "nat \<Rightarrow> ('w, 's) process \<Rightarrow> 's option" where
  "served fd P = (case peer fd P of
     None \<Rightarrow> None
   | Some r \<Rightarrow>
       if conn_type r = C_CLIENT \<and> T_RDWR \<le> op r
       then (case the_handle P r of Inl _ \<Rightarrow> None | Inr (i, d, s) \<Rightarrow> Some s) else None)"

lemma peer_fd: "peer fd P = Some r \<Longrightarrow> clientfd r = fd"
  by (auto simp: peer_def find_Some_iff)

lemma servedE:
  assumes "served fd P = Some s"
  obtains r i d where "peer fd P = Some r" "clientfd r = fd" "conn_type r = C_CLIENT" "T_RDWR \<le> op r" "T_RDONLY \<le> op r"
    "dbp r = Some i" "map_of (first_dbp P) i = Some d" "the_handle P r = Inr (i, d, s)"
proof -
  obtain r where r: "peer fd P = Some r" "conn_type r = C_CLIENT" "T_RDWR \<le> op r"
    and h: "(case the_handle P r of Inl _ \<Rightarrow> None | Inr (i, d, s) \<Rightarrow> Some s) = Some s"
    using assms by (auto simp: served_def split: option.splits if_splits)
  from h obtain i d where "the_handle P r = Inr (i, d, s)" by (auto split: sum.splits)
  moreover from this have "dbp r = Some i" "map_of (first_dbp P) i = Some d" by (simp_all add: the_handle_Inr)
  moreover have "T_RDONLY \<le> op r" using r(3) by (cases "op r") (simp_all add: less_eq_tops_def)
  ultimately show ?thesis using that r peer_fd by blast
qed

lemma served_put:
  assumes "peer fd P = Some r" "conn_type r = C_CLIENT" "T_RDWR \<le> op r" "dbp r = Some i" "map_of (first_dbp P) i = Some d"
  shows "served fd (set_handle i s P) = Some s"
proof -
  have "peer fd (set_handle i s P) = Some r" using assms by (simp add: peer_def put_handle_def)
  moreover have "the_handle (set_handle i s P) r = Inr (i, d\<lparr>handle := Some s\<rparr>, s)"
    using assms by (simp add: the_handle_Inr put_handle_def map_of_upd)
  ultimately show ?thesis using assms by (simp add: served_def)
qed

definition payload_fits :: "flat_key \<Rightarrow> flat_data \<Rightarrow> bool" where
  "payload_fits k v \<longleftrightarrow> HEADER + length k + length v \<le> MAX_PAYLOAD"

definition remote_ok ::
  "('s \<Rightarrow> bool) \<Rightarrow> ('s \<Rightarrow> flat_key \<Rightarrow> flat_data option) \<Rightarrow> nat \<Rightarrow> (('w, 's) process option \<times> byte list) dbms \<Rightarrow> bool"
where
  "remote_ok okS tblS fd me \<longleftrightarrow> sockfd me \<and> (\<exists>P s. net_state me = (Some P, []) \<and> served fd P = Some s \<and> okS s
     \<and> (\<forall>k v. tblS s k = Some v \<longrightarrow> length v \<le> MAX_PAYLOAD))"

definition remote_tbl ::
  "('s \<Rightarrow> flat_key \<Rightarrow> flat_data option) \<Rightarrow> nat \<Rightarrow> (('w, 's) process option \<times> byte list) dbms \<Rightarrow> flat_key \<Rightarrow> flat_data option"
where
  "remote_tbl tblS fd me = tblS (the (served fd (the (fst (net_state me)))))"

text \<open>What the server answers to the client, and the handle it has then\<close>

lemmas request_defs = parse_request_def token_of_def handler_def for_client_def answer_def

lemma fetch_request:
  assumes "served fd P = Some s"
  shows "\<exists>r. peer fd P = Some r \<and> parse_request Y P r (token_number TOKEN_FETCH) \<lparr>v1 = k, v2 = b, taken = None\<rparr>
    = Inr (P, [(fd, case db_get (dbf Y) s k of
        Inr v \<Rightarrow> Reply TOKEN_FETCH True k v
      | Inl e \<Rightarrow> if e = DB_NOTFOUND (dbf Y) then Reply TOKEN_FETCH False [] [] else Error_reply)])"
  using assms
proof (rule servedE)
  fix r i d
  assume "peer fd P = Some r" "clientfd r = fd" "conn_type r = C_CLIENT" "T_RDONLY \<le> op r" "the_handle P r = Inr (i, d, s)"
  then show ?thesis by (simp add: request_defs do_fetch_def split: sum.split)
qed

lemma exists_request:
  assumes "served fd P = Some s"
  shows "\<exists>r. peer fd P = Some r \<and> parse_request Y P r (token_number TOKEN_EXISTS) \<lparr>v1 = k, v2 = b, taken = None\<rparr>
    = Inr (P, [(fd, case db_get (dbf Y) s k of
        Inr v \<Rightarrow> Reply TOKEN_EXISTS True [] []
      | Inl e \<Rightarrow> if e = DB_NOTFOUND (dbf Y) then Reply TOKEN_EXISTS False [] [] else Error_reply)])"
  using assms
proof (rule servedE)
  fix r i d
  assume "peer fd P = Some r" "clientfd r = fd" "conn_type r = C_CLIENT" "T_RDONLY \<le> op r" "the_handle P r = Inr (i, d, s)"
  then show ?thesis by (simp add: request_defs do_exists_def split: sum.split)
qed

text \<open>Commands that change the handle\<close>

lemma store_request:
  assumes "served fd P = Some s"
  shows "\<exists>r P'. peer fd P = Some r \<and> served fd P' = Some (fst (db_put (dbf Y) s k v))
    \<and> parse_request Y P r (token_number TOKEN_STORE) \<lparr>v1 = k, v2 = v, taken = None\<rparr>
      = Inr (P', [(fd, if snd (db_put (dbf Y) s k v) \<le> 0 then Reply TOKEN_STORE True [] [] else Error_reply)])"
  using assms
proof (rule servedE)
  fix r i d
  assume r: "peer fd P = Some r" "clientfd r = fd" "conn_type r = C_CLIENT" "T_RDWR \<le> op r" "dbp r = Some i"
    "map_of (first_dbp P) i = Some d" "the_handle P r = Inr (i, d, s)"
  from served_put [OF r(1,3-6)] r show ?thesis
    by (intro exI [of _ r] exI [of _ "set_handle i (fst (db_put (dbf Y) s k v)) P"])
      (simp add: request_defs do_store_def split: prod.split)
qed

lemma delete_request:
  assumes "served fd P = Some s"
  shows "\<exists>r P'. peer fd P = Some r \<and> served fd P' = Some (fst (db_del (dbf Y) s k))
    \<and> parse_request Y P r (token_number TOKEN_DELETE) \<lparr>v1 = k, v2 = b, taken = None\<rparr>
      = Inr (P', [(fd, if snd (db_del (dbf Y) s k) = 0 then Reply TOKEN_DELETE True [] []
          else if snd (db_del (dbf Y) s k) = DB_NOTFOUND (dbf Y) then Reply TOKEN_DELETE False [] [] else Error_reply)])"
  using assms
proof (rule servedE)
  fix r i d
  assume r: "peer fd P = Some r" "clientfd r = fd" "conn_type r = C_CLIENT" "T_RDWR \<le> op r" "dbp r = Some i"
    "map_of (first_dbp P) i = Some d" "the_handle P r = Inr (i, d, s)"
  from served_put [OF r(1,3-6)] r show ?thesis
    by (intro exI [of _ r] exI [of _ "set_handle i (fst (db_del (dbf Y) s k)) P"])
      (simp add: request_defs do_delete_def split: prod.split)
qed

lemma sync_request:
  assumes "served fd P = Some s"
  shows "\<exists>r P'. peer fd P = Some r \<and> served fd P' = Some (fst (db_sync (dbf Y) s))
    \<and> parse_request Y P r (token_number TOKEN_SYNC) \<lparr>v1 = a, v2 = b, taken = None\<rparr>
      = Inr (P', [(fd, if snd (db_sync (dbf Y) s) \<noteq> 0 then Error_reply else Reply TOKEN_SYNC False [] [])])"
  using assms
proof (rule servedE)
  fix r i d
  assume r: "peer fd P = Some r" "clientfd r = fd" "conn_type r = C_CLIENT" "T_RDWR \<le> op r" "dbp r = Some i"
    "map_of (first_dbp P) i = Some d" "the_handle P r = Inr (i, d, s)"
  from served_put [OF r(1,3-6)] r show ?thesis
    by (intro exI [of _ r] exI [of _ "set_handle i (fst (db_sync (dbf Y) s)) P"])
      (simp add: request_defs do_sync_def split: prod.split)
qed

text \<open>A request on a connected client, with the reply the server gives\<close>

lemma remote_call:
  assumes "sockfd me" "net_state me = (Some P, [])"
    and "\<exists>r. peer fd P = Some r \<and> parse_request Y P r (token_number t) \<lparr>v1 = a1, v2 = a2, taken = None\<rparr> = Inr (P', [(fd, m)])"
    and "HEADER + length a1 + length a2 \<le> MAX_PAYLOAD" "length err \<le> MAX_PAYLOAD"
    and "case m of Reply t' found b1 b2 \<Rightarrow> t' = t \<and> length b1 \<le> MAX_PAYLOAD \<and> length b2 \<le> MAX_PAYLOAD | Error_reply \<Rightarrow> True"
  shows "dbms_comms (server_net Y err fd) me (token_number t) a1 a2
    = Some (me\<lparr>net_state := (Some P', [])\<rparr>, case m of
        Reply _ found b1 b2 \<Rightarrow> if found then (0, 0, b1, b2) else (0, 1, [], []) | Error_reply \<Rightarrow> gone E_ERROR)"
proof (cases m)
  case (Reply t' found b1 b2)
  then show ?thesis using assms i_comms_answered [of me P fd _ a1 a2 Y t P' found b1 b2 err]
    by (auto intro!: dbms_comms_answered)
next
  case Error_reply
  then show ?thesis using assms i_comms_error [of me P fd _ a1 a2 Y t P' err]
    by (auto intro!: dbms_comms_answered simp: gone_def)
qed

lemma remote_okE:
  assumes "remote_ok okS tblS fd me"
  obtains P s where "sockfd me" "net_state me = (Some P, [])" "served fd P = Some s" "okS s"
    "\<forall>k v. tblS s k = Some v \<longrightarrow> length v \<le> MAX_PAYLOAD" "remote_tbl tblS fd me = tblS s"
  using assms by (auto simp: remote_ok_def remote_tbl_def)

lemma remote_after:
  assumes "sockfd me" "served fd P = Some s" "okS s" "\<forall>k v. tblS s k = Some v \<longrightarrow> length v \<le> MAX_PAYLOAD"
  shows "remote_ok okS tblS fd (me\<lparr>net_state := (Some P, [])\<rparr>)" "remote_tbl tblS fd (me\<lparr>net_state := (Some P, [])\<rparr>) = tblS s"
  using assms by (auto simp: remote_ok_def remote_tbl_def)

lemma fits_key: "payload_fits k [] \<Longrightarrow> length k \<le> MAX_PAYLOAD"
  by (simp add: payload_fits_def)

lemma remote_fetch:
  assumes laws: "db_laws (dbf Y) okS tblS walk" and err: "length err \<le> MAX_PAYLOAD"
    and ok: "remote_ok okS tblS fd me" and k: "payload_fits k []" and be: "be_fetch (backend_dbms (server_net Y err fd)) me k = (me', r)"
  shows "remote_ok okS tblS fd me' \<and> remote_tbl tblS fd me' = remote_tbl tblS fd me
      \<and> r = (case remote_tbl tblS fd me k of None \<Rightarrow> Inl FLAT_STORE_E_NOTFOUND | Some v \<Rightarrow> Inr v)"
proof -
  obtain P s where me: "sockfd me" "net_state me = (Some P, [])" and s: "served fd P = Some s" "okS s"
    and small: "\<forall>k v. tblS s k = Some v \<longrightarrow> length v \<le> MAX_PAYLOAD" and T: "remote_tbl tblS fd me = tblS s"
    by (rule remote_okE [OF ok])
  have get: "db_get (dbf Y) s k = (case tblS s k of None \<Rightarrow> Inl (DB_NOTFOUND (dbf Y)) | Some v \<Rightarrow> Inr v)"
    using laws s(2) by (simp add: db_laws_def)
  have "dbms_comms (server_net Y err fd) me 1 k [] = Some (me\<lparr>net_state := (Some P, [])\<rparr>,
      case tblS s k of None \<Rightarrow> (0, 1, [], []) | Some v \<Rightarrow> (0, 0, k, v))"
    using remote_call [OF me fetch_request [OF s(1), of Y k "[]"], of err] k err small get fits_key [OF k]
    by (auto simp: payload_fits_def split: option.splits)
  then have "me' = me\<lparr>net_state := (Some P, [])\<rparr>" "r = (case tblS s k of None \<Rightarrow> Inl FLAT_STORE_E_NOTFOUND | Some v \<Rightarrow> Inr v)"
    using be by (auto simp: backend_dbms_def backend_dbms_fetch_def dbms_result_def FLAT_STORE_E_NOTFOUND_def split: option.splits)
  with remote_after [OF me(1) s(1), of okS tblS] s(2) small T show ?thesis by simp
qed

lemma remote_store:
  assumes laws: "db_laws (dbf Y) okS tblS walk" and err: "length err \<le> MAX_PAYLOAD"
    and ok: "remote_ok okS tblS fd me" and k: "payload_fits k v" and be: "be_store (backend_dbms (server_net Y err fd)) me k v = (me', e)"
  shows "remote_ok okS tblS fd me' \<and> remote_tbl tblS fd me' = (remote_tbl tblS fd me)(k \<mapsto> v)
      \<and> (e = 0 \<or> e = FLAT_STORE_E_KEYEXIST)"
proof -
  obtain P s where me: "sockfd me" "net_state me = (Some P, [])" and s: "served fd P = Some s" "okS s"
    and small: "\<forall>k v. tblS s k = Some v \<longrightarrow> length v \<le> MAX_PAYLOAD" and T: "remote_tbl tblS fd me = tblS s"
    by (rule remote_okE [OF ok])
  have put: "snd (db_put (dbf Y) s k v) = 0" "okS (fst (db_put (dbf Y) s k v))" "tblS (fst (db_put (dbf Y) s k v)) = (tblS s)(k \<mapsto> v)"
    using laws s(2) by (simp_all add: db_laws_def)
  obtain P' where P': "served fd P' = Some (fst (db_put (dbf Y) s k v))" and
    req: "\<exists>r. peer fd P = Some r \<and> parse_request Y P r (token_number TOKEN_STORE) \<lparr>v1 = k, v2 = v, taken = None\<rparr>
      = Inr (P', [(fd, Reply TOKEN_STORE True [] [])])"
    using store_request [OF s(1), of Y k v] put(1) by auto
  have "dbms_comms (server_net Y err fd) me 2 k v = Some (me\<lparr>net_state := (Some P', [])\<rparr>, 0, 0, [], [])"
    using remote_call [OF me req, of err] k err by (simp add: payload_fits_def)
  then have "me' = me\<lparr>net_state := (Some P', [])\<rparr>" "e = 0"
    using be by (simp_all add: backend_dbms_def backend_dbms_store_def)
  moreover have "\<forall>k' v'. tblS (fst (db_put (dbf Y) s k v)) k' = Some v' \<longrightarrow> length v' \<le> MAX_PAYLOAD"
    using small k by (simp add: put(3) payload_fits_def)
  ultimately show ?thesis
    using remote_after [OF me(1) P', of okS tblS] put(2) put(3) T by simp
qed

lemma remote_exists:
  assumes laws: "db_laws (dbf Y) okS tblS walk" and err: "length err \<le> MAX_PAYLOAD"
    and ok: "remote_ok okS tblS fd me" and k: "payload_fits k []" and be: "be_exists (backend_dbms (server_net Y err fd)) me k = (me', e)"
  shows "remote_ok okS tblS fd me' \<and> remote_tbl tblS fd me' = remote_tbl tblS fd me
      \<and> (e = 0 \<longleftrightarrow> remote_tbl tblS fd me k \<noteq> None)"
proof -
  obtain P s where me: "sockfd me" "net_state me = (Some P, [])" and s: "served fd P = Some s" "okS s"
    and small: "\<forall>k v. tblS s k = Some v \<longrightarrow> length v \<le> MAX_PAYLOAD" and T: "remote_tbl tblS fd me = tblS s"
    by (rule remote_okE [OF ok])
  have get: "db_get (dbf Y) s k = (case tblS s k of None \<Rightarrow> Inl (DB_NOTFOUND (dbf Y)) | Some v \<Rightarrow> Inr v)"
    using laws s(2) by (simp add: db_laws_def)
  have "dbms_comms (server_net Y err fd) me 6 k [] = Some (me\<lparr>net_state := (Some P, [])\<rparr>,
      0, if tblS s k = None then 1 else 0, [], [])"
    using remote_call [OF me exists_request [OF s(1), of Y k "[]"], of err] k err get
    by (auto simp: payload_fits_def split: option.splits)
  then have "me' = me\<lparr>net_state := (Some P, [])\<rparr>" "e = 0 \<longleftrightarrow> tblS s k \<noteq> None"
    using be by (auto simp: backend_dbms_def backend_dbms_exists_def dbms_result_def FLAT_STORE_E_NOTFOUND_def split: if_splits)
  with remote_after [OF me(1) s(1), of okS tblS] s(2) small T show ?thesis by simp
qed

lemma remote_delete:
  assumes laws: "db_laws (dbf Y) okS tblS walk" and err: "length err \<le> MAX_PAYLOAD"
    and ok: "remote_ok okS tblS fd me" and k: "payload_fits k []" and be: "be_delete (backend_dbms (server_net Y err fd)) me k = (me', e)"
  shows "remote_ok okS tblS fd me' \<and> remote_tbl tblS fd me' = (remote_tbl tblS fd me)(k := None)
      \<and> (e = 0 \<or> e = FLAT_STORE_E_NOTFOUND) \<and> (e = 0 \<longrightarrow> remote_tbl tblS fd me k \<noteq> None)"
proof -
  obtain P s where me: "sockfd me" "net_state me = (Some P, [])" and s: "served fd P = Some s" "okS s"
    and small: "\<forall>k v. tblS s k = Some v \<longrightarrow> length v \<le> MAX_PAYLOAD" and T: "remote_tbl tblS fd me = tblS s"
    by (rule remote_okE [OF ok])
  have del: "snd (db_del (dbf Y) s k) = (if tblS s k = None then DB_NOTFOUND (dbf Y) else 0)" "DB_NOTFOUND (dbf Y) \<noteq> 0"
    "okS (fst (db_del (dbf Y) s k))" "tblS (fst (db_del (dbf Y) s k)) = (tblS s)(k := None)"
    using laws s(2) by (simp_all add: db_laws_def)
  obtain P' where P': "served fd P' = Some (fst (db_del (dbf Y) s k))" and
    req: "\<exists>r. peer fd P = Some r \<and> parse_request Y P r (token_number TOKEN_DELETE) \<lparr>v1 = k, v2 = [], taken = None\<rparr>
      = Inr (P', [(fd, Reply TOKEN_DELETE (tblS s k \<noteq> None) [] [])])"
    using delete_request [OF s(1), of Y k "[]"] del(1,2) by (cases "tblS s k") auto
  have "dbms_comms (server_net Y err fd) me 3 k [] = Some (me\<lparr>net_state := (Some P', [])\<rparr>, 0, if tblS s k = None then 1 else 0, [], [])"
    using remote_call [OF me req, of err] k err by (auto simp: payload_fits_def)
  then have "me' = me\<lparr>net_state := (Some P', [])\<rparr>" "e = (if tblS s k = None then FLAT_STORE_E_NOTFOUND else 0)"
    using be by (auto simp: backend_dbms_def backend_dbms_delete_def)
  moreover have "\<forall>k' v'. tblS (fst (db_del (dbf Y) s k)) k' = Some v' \<longrightarrow> length v' \<le> MAX_PAYLOAD"
    using small by (simp add: del(4))
  ultimately show ?thesis
    using remote_after [OF me(1) P', of okS tblS] del(3) del(4) T by (simp add: FLAT_STORE_E_NOTFOUND_def)
qed

lemma remote_sync:
  assumes laws: "db_laws (dbf Y) okS tblS walk" and err: "length err \<le> MAX_PAYLOAD"
    and ok: "remote_ok okS tblS fd me" and be: "be_sync (backend_dbms (server_net Y err fd)) me = (me', e)"
  shows "remote_ok okS tblS fd me' \<and> remote_tbl tblS fd me' = remote_tbl tblS fd me"
proof -
  obtain P s where me: "sockfd me" "net_state me = (Some P, [])" and s: "served fd P = Some s" "okS s"
    and small: "\<forall>k v. tblS s k = Some v \<longrightarrow> length v \<le> MAX_PAYLOAD" and T: "remote_tbl tblS fd me = tblS s"
    by (rule remote_okE [OF ok])
  have sync: "okS (fst (db_sync (dbf Y) s))" "tblS (fst (db_sync (dbf Y) s)) = tblS s"
    using laws s(2) by (simp_all add: db_laws_def)
  obtain P' where P': "served fd P' = Some (fst (db_sync (dbf Y) s))" and
    req: "\<exists>r. peer fd P = Some r \<and> parse_request Y P r (token_number TOKEN_SYNC) \<lparr>v1 = [], v2 = [], taken = None\<rparr>
      = Inr (P', [(fd, if snd (db_sync (dbf Y) s) \<noteq> 0 then Error_reply else Reply TOKEN_SYNC False [] [])])"
    using sync_request [OF s(1), of Y "[]" "[]"] by auto
  have "\<exists>res. dbms_comms (server_net Y err fd) me 7 [] [] = Some (me\<lparr>net_state := (Some P', [])\<rparr>, res)"
    using remote_call [OF me req, of err] err by (auto simp: HEADER_def MAX_PAYLOAD_def gone_def)
  then have "me' = me\<lparr>net_state := (Some P', [])\<rparr>"
    using be by (auto simp: backend_dbms_def backend_dbms_sync_def split: prod.splits)
  then show ?thesis
    using remote_after [OF me(1) P', of okS tblS] sync(1) small sync(2) T by simp
qed

lemma remote_bounded_table:
  assumes "db_laws (dbf Y) okS tblS walk" and "length err \<le> MAX_PAYLOAD"
  shows "bounded_table (backend_dbms (server_net Y err fd)) (remote_ok okS tblS fd) (remote_tbl tblS fd) payload_fits"
  by (unfold_locales; rule remote_fetch [OF assms] remote_store [OF assms] remote_exists [OF assms] remote_delete [OF assms]
        remote_sync [OF assms]; assumption)

section \<open>Properties\<close>


text \<open>C33. A sync of a remote table that succeeds at the server returns 1 to the client,
  because the server answers it without the flag for found.\<close>

theorem remote_sync_fails:
  assumes "sockfd me" "net_state me = (Some P, [])" "served fd P = Some s" "db_sync (dbf Y) s = (s', 0)"
  shows "\<exists>P'. backend_dbms_sync (server_net Y err fd) me = Some (me\<lparr>net_state := (Some P', [])\<rparr>, 1) \<and> served fd P' = Some s'"
proof -
  obtain r P' where P': "served fd P' = Some s'" and r: "peer fd P = Some r" and
    req: "parse_request Y P r (token_number TOKEN_SYNC) \<lparr>v1 = [], v2 = [], taken = None\<rparr>
      = Inr (P', [(fd, Reply TOKEN_SYNC False [] [])])"
    using sync_request [OF assms(3), of Y "[]" "[]"] assms(4) by auto
  have "dbms_comms (server_net Y err fd) me (token_number TOKEN_SYNC) [] []
      = Some (me\<lparr>net_state := (Some P', [])\<rparr>, 0, 1, [], [])"
    using i_comms_answered [OF assms(2) r _ req, of err] assms(1)
    by (intro dbms_comms_answered) (simp_all add: HEADER_def MAX_PAYLOAD_def)
  then show ?thesis using P' by (intro exI [of _ P']) (simp add: backend_dbms_sync_def)
qed

text \<open>C34. When the connection breaks and the first attempt to connect again fails, dbms_comms
  returns its error at once: the other nine tries of its loop are never made.\<close>

theorem remote_gives_up:
  assumes "sockfd me" "i_comms N me tok a b = (me1, err, rest)"
    and "err \<in> {E_CLOSE, E_FULLREAD, E_FULLWRITE, E_PROTO, E_TOOBIG}"
    and "net_connect N (net_close N (net_state me1)) = (n, False)"
  shows "dbms_comms N me tok a b = Some (me1\<lparr>net_state := n, sockfd := False\<rparr>, E_ERROR, rest)"
  using assms by (auto simp: dbms_comms_def eval_nat_numeral reconnect_def Let_def dbms_error_codes)

text \<open>Every new connection is accepted.\<close>

definition redials :: "'n net \<Rightarrow> 'n dbms \<Rightarrow> bool" where
  "redials N me \<longleftrightarrow> (\<forall>n. \<exists>n'. (case reconnect N (me\<lparr>net_state := n, sockfd := False\<rparr>) of
     (me1, e) \<Rightarrow> e = 0 \<and> reselect N me1 = Some (me\<lparr>net_state := n', sockfd := True\<rparr>, 0)))"

lemma oversized_step:
  assumes "redials N me" and big: "HEADER + length a + length b > MAX_PAYLOAD"
  shows "\<exists>n'. comms_loop N tok a b (Suc k) (me\<lparr>net_state := n, sockfd := True\<rparr>) res
    = comms_loop N tok a b k (me\<lparr>net_state := n', sockfd := True\<rparr>) (gone 0)"
proof -
  have "\<exists>n'. (case reconnect N (me\<lparr>net_state := net_close N n, sockfd := False\<rparr>) of
     (me1, e) \<Rightarrow> e = 0 \<and> reselect N me1 = Some (me\<lparr>net_state := n', sockfd := True\<rparr>, 0))"
    using assms(1) unfolding redials_def by (rule spec)
  then obtain me1 n' where "reconnect N (me\<lparr>net_state := net_close N n, sockfd := False\<rparr>) = (me1, 0)"
    and "reselect N me1 = Some (me\<lparr>net_state := n', sockfd := True\<rparr>, 0)" by fast
  moreover have "i_comms N (me\<lparr>net_state := n, sockfd := True\<rparr>) tok a b = (me\<lparr>net_state := n, sockfd := True\<rparr>, gone E_TOOBIG)"
    using big by (simp add: i_comms_def)
  ultimately show ?thesis by (intro exI [of _ n']) (simp add: gone_def E_TOOBIG_def E_ERROR_def)
qed

lemma oversized_loop:
  assumes "redials N me" and "HEADER + length a + length b > MAX_PAYLOAD"
  shows "\<exists>n'. comms_loop N tok a b k (me\<lparr>net_state := n, sockfd := True\<rparr>) (gone 0)
    = Some (me\<lparr>net_state := n', sockfd := True\<rparr>, gone 0)"
proof (induction k arbitrary: n)
  case (Suc k)
  then show ?case using oversized_step [OF assms, of tok k n "gone 0"] by (metis (no_types))
qed auto


section \<open>Instances\<close>

definition sample_remote :: "((mem_files, mem_state) process option \<times> byte list) dbms" where
  "sample_remote = \<lparr>d_name = site, d_mode = 4, d_bt_compare = 0, sockfd = True, net_state = (Some sample_process, [])\<rparr>"

definition mem_ok :: "mem_state \<Rightarrow> bool" where
  "mem_ok s \<longleftrightarrow> distinct (map fst (fst s))"

definition mem_tbl :: "mem_state \<Rightarrow> flat_key \<Rightarrow> flat_data option" where
  "mem_tbl s = map_of (fst s)"

lemma sample_laws: "db_laws (dbf sample_sys) mem_ok mem_tbl (\<lambda>s ks. snd s = ks)"
  using memdb_laws by (simp add: sample_sys_def mem_ok_def [abs_def] mem_tbl_def [abs_def])

interpretation remote_site: bounded_table "backend_dbms (server_net sample_sys [] 5)" "remote_ok mem_ok mem_tbl 5"
    "remote_tbl mem_tbl 5" payload_fits
  by (rule remote_bounded_table [OF sample_laws]) simp

lemma sample_served: "served 5 sample_process = Some ([], [])"
  by (simp add: served_def peer_def sample_process_def sample_client_def the_handle_def the_dbp_def sample_db_def less_eq_tops_def)

lemma sample_remote_ok: "remote_ok mem_ok mem_tbl 5 sample_remote" "remote_tbl mem_tbl 5 sample_remote = Map.empty"
  by (simp_all add: remote_ok_def remote_tbl_def sample_remote_def sample_served mem_ok_def mem_tbl_def)

definition sample_ops :: "table_op list" where
  "sample_ops = [Op_store [1] [7], Op_fetch [1], Op_sync, Op_exists [2], Op_delete [1], Op_fetch [1]]"


theorem remote_sync_fails_witness:
  "\<exists>P'. backend_dbms_sync (server_net sample_sys [] 5) sample_remote = Some (sample_remote\<lparr>net_state := (Some P', [])\<rparr>, 1)
    \<and> served 5 P' = Some ([], [])"
  by (rule remote_sync_fails [where P = sample_process and s = "([], [])"])
    (simp_all add: sample_served, simp_all add: sample_remote_def sample_sys_def memdb_def)

text \<open>A server that has gone away, and one that greets every client\<close>

definition dead_net :: "byte list net" where
  "dead_net = \<lparr>net_send = (\<lambda>n m. (n, 0)), net_recv = (\<lambda>n k. (n, Some [])), net_connect = (\<lambda>n. (n, False)), net_close = (\<lambda>n. [])\<rparr>"

definition greeting_net :: "byte list net" where
  "greeting_net =
     \<lparr>net_send = (\<lambda>n m. (reply_bytes [] (Reply TOKEN_INIT True (packInt DBMS_PROTO) []), int (length m))),
      net_recv = (\<lambda>n k. (drop k n, Some (take k n))), net_connect = (\<lambda>n. ([], True)), net_close = (\<lambda>n. [])\<rparr>"

definition far_table :: "byte list dbms" where
  "far_table = \<lparr>d_name = site, d_mode = 3, d_bt_compare = 0, sockfd = True, net_state = []\<rparr>"

theorem remote_gives_up_witness:
  "dbms_comms dead_net far_table 1 [1] [] = Some (far_table\<lparr>sockfd := False\<rparr>, E_ERROR, - 1, [], [])"
proof -
  have "i_comms dead_net far_table 1 [1] [] = (far_table, E_CLOSE, - 1, [], [])"
    by (simp add: i_comms_def dead_net_def far_table_def with_net_def gone_def HEADER_def MAX_PAYLOAD_def)
  from remote_gives_up [OF _ this] show ?thesis by (simp add: dead_net_def far_table_def)
qed

lemma greeted: "redials greeting_net far_table"
proof -
  have r: "reconnect greeting_net (far_table\<lparr>net_state := n, sockfd := False\<rparr>) = (far_table, 0)" for n
    by (simp add: reconnect_def far_table_def greeting_net_def)
  have "buffered greeting_net (\<lambda>(_ :: unit) i. i)" by (simp add: buffered_def greeting_net_def)
  from i_comms_buffered [OF this, where me = far_table and t = TOKEN_INIT and err = "[]" and found = True and ?b1.0 = "packInt DBMS_PROTO" and ?b2.0 = "[]"
      and ?a1.0 = "packInt DBMS_PROTO @ packInt 3 @ packInt 0" and ?a2.0 = site]
  have "i_comms greeting_net far_table 8 (packInt DBMS_PROTO @ packInt 3 @ packInt 0) site
      = (far_table, 0, 0, packInt DBMS_PROTO, [])"
    by (simp add: greeting_net_def far_table_def site_def HEADER_def MAX_PAYLOAD_def)
  then have s: "reselect greeting_net far_table = Some (far_table, 0)"
    by (simp add: reselect_def) (simp add: far_table_def)
  have f: "far_table\<lparr>net_state := [], sockfd := True\<rparr> = far_table" by (simp add: far_table_def)
  have "case reconnect greeting_net (far_table\<lparr>net_state := n, sockfd := False\<rparr>) of
      (me1, e) \<Rightarrow> e = 0 \<and> reselect greeting_net me1 = Some (far_table\<lparr>net_state := [], sockfd := True\<rparr>, 0)" for n
    unfolding r f using s by simp
  then show ?thesis unfolding redials_def by (intro allI exI)
qed


end
