(* ===== verification/Session.thy ===== *)
theory Session
  imports Store
begin

text \<open>
  The end of a store: \<open>rdfstore_disconnect\<close> and \<open>rdfstore_isconnected\<close> of \<open>rdfstore_kernel.c\<close>
  and \<open>rdfstore_iterator_close\<close> of \<open>rdfstore_iterator.c\<close>. A store is not closed while iterators
  are attached to it; the last one closes it. Freed memory that is used is an error.
\<close>

section \<open>Operations\<close>

datatype session_fault = Freed_store | Freed_iterator

text \<open>
  The store until it is freed, with its internal iterator; the iterators of the program by
  number; the tables that were closed, in their order.
\<close>

record 's session =
  store :: "'s rdfstore option"
  cursor :: "nat option"
  attached :: int
  tobeclosed :: bool
  open_iterators :: "nat list"
  closed_tables :: "(table \<times> 's) list"

definition sync_order :: "bool \<Rightarrow> table list" where
  "sync_order ft =
     [T_model, T_nodes, T_subjects, T_predicates, T_objects, T_languages, T_datatypes, T_xsd_integer, T_xsd_double, T_xsd_date]
     @ (if ft then [T_windex] else []) @ [T_contexts, T_statements]"

definition close_order :: "bool \<Rightarrow> table list" where
  "close_order ft =
     [T_model, T_nodes, T_subjects, T_predicates, T_objects, T_contexts, T_languages, T_datatypes, T_xsd_integer,
      T_xsd_double, T_xsd_date] @ (if ft then [T_windex] else []) @ [T_statements]"

definition sync_all :: "'s kernel_env \<Rightarrow> 's rdfstore \<Rightarrow> 's rdfstore" where
  "sync_all E me =
     (if me_sync me \<and> \<not> me_flag me
      then foldl (\<lambda>me t. set_table t (fst (be_sync (table_ops E) (tables me t))) me) me (sync_order (freetext me))
      else me)"

definition close_tables :: "'s kernel_env \<Rightarrow> 's rdfstore \<Rightarrow> (table \<times> 's) list" where
  "close_tables E me = map (\<lambda>t. (t, fst (be_close (table_ops E) (tables me t)))) (close_order (freetext me))"

definition rdfstore_disconnect :: "'s kernel_env \<Rightarrow> 's session option \<Rightarrow> session_fault + 's session option \<times> int" where
  "rdfstore_disconnect E p = (case p of
     None \<Rightarrow> Inr (None, - 1)
   | Some S \<Rightarrow>
      (case store S of
         None \<Rightarrow> Inl Freed_store
       | Some me \<Rightarrow>
           if attached S > 0 then Inr (Some (S\<lparr>tobeclosed := True\<rparr>), 1)
           else Inr (Some (S\<lparr>store := None, cursor := None, tobeclosed := False,
                              closed_tables := close_tables E (sync_all E me)\<rparr>), 0)))"

definition rdfstore_iterator_close :: "'s kernel_env \<Rightarrow> nat option \<Rightarrow> 's session \<Rightarrow> session_fault + 's session \<times> int" where
  "rdfstore_iterator_close E it S = (case it of
     None \<Rightarrow> Inr (S, 0)
   | Some i \<Rightarrow>
       if i \<notin> set (open_iterators S) \<and> cursor S \<noteq> Some i then Inl Freed_iterator
       else if store S = None then Inl Freed_store
       else if cursor S = None \<or> cursor S = Some i then Inr (S, 0)
       else
         let S = S\<lparr>attached := attached S - 1\<rparr>
         in bindE (if tobeclosed S then rdfstore_disconnect E (Some S) else Inr (Some S, 0))
              (\<lambda>(p, _). Inr (the p\<lparr>open_iterators := remove1 i (open_iterators (the p))\<rparr>, 1)))"

definition rdfstore_isconnected :: "'s session \<Rightarrow> session_fault + int" where
  "rdfstore_isconnected S = (if store S = None then Inl Freed_store else Inr 0)"

text \<open>An operation that hands out a new iterator, and \<open>rdfstore_elements\<close> when it fails on the way\<close>

definition attach_iterator :: "nat \<Rightarrow> 's session \<Rightarrow> 's session" where
  "attach_iterator i S = S\<lparr>attached := attached S + 1, open_iterators := i # open_iterators S\<rparr>"

definition elements_fails :: "'s session \<Rightarrow> 's session" where
  "elements_fails S = S\<lparr>attached := attached S + 1\<rparr>"

section \<open>Programs\<close>

text \<open>
  A program that gives its store back at most once, and after that uses only the iterators it
  still has. Insertions and searches change the store (\<open>works\<close>). The state tells whether it was given
  back, and how many calls of \<open>rdfstore_elements\<close> failed.
\<close>

inductive in_session :: "'s kernel_env \<Rightarrow> 's session \<times> bool \<times> nat \<Rightarrow> bool" for E :: "'s kernel_env" where
  connected: "in_session E (\<lparr>store = Some me, cursor = Some c, attached = 0, tobeclosed = False, open_iterators = [], closed_tables = []\<rparr>, False, 0)"
| opens: "in_session E (S, gone, k) \<Longrightarrow> \<not> gone \<or> open_iterators S \<noteq> [] \<Longrightarrow> i \<notin> set (open_iterators S) \<Longrightarrow> cursor S \<noteq> Some i
    \<Longrightarrow> in_session E (attach_iterator i S, gone, k)"
| works: "in_session E (S, False, k) \<Longrightarrow> store S = Some me \<Longrightarrow> in_session E (S\<lparr>store := Some me'\<rparr>, False, k)"
| fails: "in_session E (S, False, k) \<Longrightarrow> in_session E (elements_fails S, False, k + 1)"
| closes: "in_session E (S, gone, k) \<Longrightarrow> i \<in> set (open_iterators S) \<Longrightarrow> rdfstore_iterator_close E (Some i) S = Inr (S', n)
    \<Longrightarrow> in_session E (S', gone, k)"
| disconnects: "in_session E (S, False, k) \<Longrightarrow> rdfstore_disconnect E (Some S) = Inr (Some S', n) \<Longrightarrow> in_session E (S', True, k)"

inductive_cases session_cases: "in_session E (S, gone, k)"

text \<open>Closing a list of iterators, one after the other\<close>

primrec close_all :: "'s kernel_env \<Rightarrow> nat list \<Rightarrow> 's session \<Rightarrow> session_fault + 's session" where
  "close_all E [] S = Inr S"
| "close_all E (i # is) S = bindE (rdfstore_iterator_close E (Some i) S) (\<lambda>(S, _). close_all E is S)"

section \<open>The count of iterators\<close>

definition session_ok :: "'s session \<Rightarrow> bool \<Rightarrow> nat \<Rightarrow> bool" where
  "session_ok S gone k \<longleftrightarrow> distinct (open_iterators S) \<and> attached S = int (length (open_iterators S) + k)
     \<and> (case store S of
          None \<Rightarrow> gone \<and> open_iterators S = [] \<and> k = 0
        | Some me \<Rightarrow> cursor S \<noteq> None \<and> cursor S \<notin> Some ` set (open_iterators S) \<and> closed_tables S = []
            \<and> tobeclosed S = gone \<and> (gone \<longrightarrow> open_iterators S \<noteq> [] \<or> k > 0))"

lemma session_count: "session_ok S gone k \<Longrightarrow> attached S = int (length (open_iterators S)) + int k"
  by (simp add: session_ok_def)

lemma disconnect_waits:
  "store S = Some me \<Longrightarrow> attached S > 0 \<Longrightarrow> rdfstore_disconnect E (Some S) = Inr (Some (S\<lparr>tobeclosed := True\<rparr>), 1)"
  by (simp add: rdfstore_disconnect_def)

lemma disconnect_frees:
  "store S = Some me \<Longrightarrow> attached S \<le> 0 \<Longrightarrow> rdfstore_disconnect E (Some S) = Inr (Some (S\<lparr>store := None, cursor := None,
     tobeclosed := False, closed_tables := close_tables E (sync_all E me)\<rparr>), 0)"
  by (simp add: rdfstore_disconnect_def)

lemma disconnect_ok:
  assumes ok: "session_ok S False k" and d: "rdfstore_disconnect E (Some S) = Inr (Some S', n)"
  shows "session_ok S' True k"
proof -
  obtain me where me: "store S = Some me" using ok by (auto simp: session_ok_def split: option.splits)
  show ?thesis
  proof (cases "attached S > 0")
    case True
    then have "open_iterators S \<noteq> [] \<or> k > 0" using ok by (auto simp: session_ok_def)
    with disconnect_waits [OF me True] d ok me show ?thesis by (auto simp: session_ok_def)
  next
    case False
    then have "length (open_iterators S) = 0" "k = 0" using session_count [OF ok] by linarith+
    with disconnect_frees [OF me, of E] d ok show ?thesis by (auto simp: session_ok_def)
  qed
qed

lemma close_case:
  assumes ok: "session_ok S gone k" and i: "i \<in> set (open_iterators S)"
  shows "\<exists>S'. rdfstore_iterator_close E (Some i) S = Inr (S', 1) \<and> session_ok S' gone k \<and> open_iterators S' = remove1 i (open_iterators S)
    \<and> (\<forall>me. store S = Some me \<longrightarrow> store S' = Some me \<or> store S' = None \<and> closed_tables S' = close_tables E (sync_all E me))"
proof -
  obtain me c where me: "store S = Some me" "cursor S = Some c" "c \<noteq> i"
    using ok i by (auto simp: session_ok_def split: option.splits)
  let ?T = "S\<lparr>attached := attached S - 1\<rparr>"
  have "length (open_iterators S) > 0" using i by (cases "open_iterators S") auto
  then have len: "int (length (remove1 i (open_iterators S))) = int (length (open_iterators S)) - 1"
    using i by (simp add: length_remove1 of_nat_diff Suc_leI)
  note count = session_count [OF ok]
  have rem: "set (remove1 i (open_iterators S)) \<subseteq> set (open_iterators S)" by (rule set_remove1_subset)
  have close: "rdfstore_iterator_close E (Some i) S = bindE (if gone then rdfstore_disconnect E (Some ?T) else Inr (Some ?T, 0))
      (\<lambda>(p, _). Inr (the p\<lparr>open_iterators := remove1 i (open_iterators (the p))\<rparr>, 1))"
    using i me ok by (simp add: rdfstore_iterator_close_def session_ok_def)
  show ?thesis
  proof (cases "gone \<and> attached S = 1")
    case True
    then have "length (remove1 i (open_iterators S)) = 0" "k = 0"
      using count len \<open>length (open_iterators S) > 0\<close> by linarith+
    moreover from this have "remove1 i (open_iterators S) = []" by simp
    moreover have "rdfstore_disconnect E (Some ?T) = Inr (Some (?T\<lparr>store := None, cursor := None, tobeclosed := False,
        closed_tables := close_tables E (sync_all E me)\<rparr>), 0)"
      using disconnect_frees [of ?T me E] me True by simp
    ultimately show ?thesis using True ok me unfolding close by (auto simp: session_ok_def)
  next
    case False
    have "attached S > 0" using count \<open>length (open_iterators S) > 0\<close> by linarith
    with False have "gone \<Longrightarrow> attached ?T > 0" by simp
    then have "rdfstore_iterator_close E (Some i) S = Inr (?T\<lparr>tobeclosed := gone, open_iterators := remove1 i (open_iterators S)\<rparr>, 1)"
      using disconnect_waits [of ?T me E] me ok unfolding close by (auto simp: session_ok_def)
    moreover have "gone \<Longrightarrow> remove1 i (open_iterators S) \<noteq> [] \<or> k > 0" using False ok len by (auto simp: session_ok_def)
    ultimately show ?thesis using ok me len rem by (auto simp: session_ok_def)
  qed
qed

lemma in_session_ok: "in_session E (S, gone, k) \<Longrightarrow> session_ok S gone k"
proof (induction "(S, gone, k)" arbitrary: S gone k rule: in_session.induct)
  case (opens S gone k i)
  then show ?case by (auto simp: session_ok_def attach_iterator_def split: option.splits)
next
  case (closes S gone k i S' n)
  from close_case [OF closes.hyps(2,3), of E] closes.hyps(4) show ?case by auto
next
  case (disconnects S k S' n)
  then show ?case using disconnect_ok by blast
qed (auto simp: session_ok_def elements_fails_def split: option.splits)

lemma close_all_ok:
  assumes "session_ok S gone k" and "distinct is" "set is = set (open_iterators S)" and "store S = Some me"
  shows "\<exists>S'. close_all E is S = Inr S' \<and> session_ok S' gone k \<and> open_iterators S' = []
    \<and> (store S' = Some me \<or> store S' = None \<and> closed_tables S' = close_tables E (sync_all E me))"
  using assms
proof (induction "is" arbitrary: S)
  case (Cons i "is")
  then obtain S1 where S1: "rdfstore_iterator_close E (Some i) S = Inr (S1, 1)" "session_ok S1 gone k"
    "open_iterators S1 = remove1 i (open_iterators S)"
    "store S1 = Some me \<or> store S1 = None \<and> closed_tables S1 = close_tables E (sync_all E me)"
    using close_case [of S gone k i E] by auto
  have rest: "set is = set (open_iterators S1)" using Cons.prems S1(3) by (auto simp: session_ok_def)
  from S1(4) show ?case
  proof
    assume "store S1 = Some me"
    from Cons.IH [OF S1(2) _ rest this] Cons.prems(2) S1(1) show ?thesis by auto
  next
    assume gone: "store S1 = None \<and> closed_tables S1 = close_tables E (sync_all E me)"
    with S1(2) have "open_iterators S1 = []" by (simp add: session_ok_def)
    with rest gone S1(1,2) show ?thesis by simp
  qed
qed auto

section \<open>Properties\<close>

text \<open>C37. While a program has an open iterator its store is not freed, whenever it gave the
  store back: closing the iterator always succeeds and never touches freed memory.\<close>

theorem iterators_keep_store:
  assumes "in_session E (S, gone, k)" and "i \<in> set (open_iterators S)"
  shows "store S \<noteq> None \<and> (\<exists>S'. rdfstore_iterator_close E (Some i) S = Inr (S', 1))"
  using in_session_ok [OF assms(1)] close_case [OF in_session_ok [OF assms(1)] assms(2), of E] assms(2)
  by (auto simp: session_ok_def split: option.splits)


theorem failed_elements_leak_store:
  assumes "in_session E (S, gone, k)" and "k > 0"
  shows "store S \<noteq> None \<and> closed_tables S = []"
  using in_session_ok [OF assms(1)] assms(2) by (auto simp: session_ok_def split: option.splits)

section \<open>Instances\<close>

type_synonym mem_session = "((flat_key \<times> flat_data) list \<times> flat_key list) session"

definition sample_session :: mem_session where
  "sample_session = \<lparr>store = Some new_store, cursor = Some 0, attached = 0, tobeclosed = False, open_iterators = [], closed_tables = []\<rparr>"

lemma sample_connected: "in_session mem_env (sample_session, False, 0)"
  unfolding sample_session_def by (rule connected)

text \<open>Two iterators, and the store given back\<close>

definition waiting_session :: mem_session where
  "waiting_session = (attach_iterator 2 (attach_iterator 1 sample_session))\<lparr>tobeclosed := True\<rparr>"

lemma sample_waiting: "in_session mem_env (waiting_session, True, 0)"
proof -
  have "in_session mem_env (attach_iterator 1 sample_session, False, 0)"
    by (rule opens [OF sample_connected]) (simp_all add: sample_session_def)
  then have "in_session mem_env (attach_iterator 2 (attach_iterator 1 sample_session), False, 0)"
    by (rule opens) (simp_all add: sample_session_def attach_iterator_def)
  then show ?thesis
    by (rule disconnects [where n = 1]) (simp add: rdfstore_disconnect_def waiting_session_def sample_session_def attach_iterator_def)
qed

theorem iterators_keep_store_witness:
  "store waiting_session \<noteq> None \<and> (\<exists>S'. rdfstore_iterator_close mem_env (Some 1) waiting_session = Inr (S', 1))"
  by (rule iterators_keep_store [OF sample_waiting]) (simp add: waiting_session_def attach_iterator_def)


theorem failed_elements_leak_store_witness:
  "store (elements_fails sample_session) \<noteq> None \<and> closed_tables (elements_fails sample_session) = []"
  using failed_elements_leak_store [OF fails [OF sample_connected]] by simp

end
