(* ===== verification/Serializer.thy ===== *)
theory Serializer
  imports Casefold Digest
begin

text \<open>
  \<open>rdfstore_serializer.c\<close>: the split of a URI into namespace and local name, the label of a
  statement, and nodes and statements as N-Triples. A string is its bytes, with the
  terminating zero where it is read. Faults are reads and writes outside an object. Character
  classes are those of the C locale.
\<close>

section \<open>Names\<close>

definition name_start :: "byte \<Rightarrow> bool" where
  "name_start c \<longleftrightarrow> 65 \<le> c \<and> c \<le> 90 \<or> 97 \<le> c \<and> c \<le> 122 \<or> c = 95"

definition name_byte :: "byte \<Rightarrow> bool" where
  "name_byte c \<longleftrightarrow> name_start c \<or> 48 \<le> c \<and> c \<le> 57 \<or> c = 45 \<or> c = 46"

fun rdfstore_is_xml_name :: "byte list \<Rightarrow> bool" where
  "rdfstore_is_xml_name [] = False"
| "rdfstore_is_xml_name (c # cs) = (name_start c \<and> list_all name_byte cs)"

text \<open>The position of the local name; the null pointer is \<open>None\<close>.\<close>

primrec local_loop :: "byte list \<Rightarrow> nat \<Rightarrow> nat option \<Rightarrow> nat option" where
  "local_loop uri 0 localname = localname"
| "local_loop uri (Suc nc) localname =
     local_loop uri nc (if rdfstore_is_xml_name (drop nc uri) then Some nc else localname)"

definition rdfstore_get_localname :: "byte list option \<Rightarrow> nat option" where
  "rdfstore_get_localname p = map_option
     (\<lambda>uri. case local_loop uri (length uri) None of None \<Rightarrow> 0 | Some nc \<Rightarrow> nc) p"

definition rdfstore_get_namespace :: "byte list option \<Rightarrow> nat" where
  "rdfstore_get_namespace p = (case rdfstore_get_localname p of None \<Rightarrow> 0 | Some nc \<Rightarrow> nc)"

section \<open>Numbers in hexadecimal\<close>

definition hex_digit :: "nat \<Rightarrow> byte" where
  "hex_digit d = (if d < 10 then 48 + of_nat d else 55 + of_nat d)"

fun hex_digits :: "nat \<Rightarrow> byte list" where
  "hex_digits n = (if n < 16 then [hex_digit n] else hex_digits (n div 16) @ [hex_digit (n mod 16)])"

declare hex_digits.simps [simp del]

text \<open>\<open>%0kX\<close>\<close>

definition hex_padded :: "nat \<Rightarrow> nat \<Rightarrow> byte list" where
  "hex_padded k n = replicate (k - length (hex_digits n)) 48 @ hex_digits n"

definition rdfstore_ntriples_c2hex :: "nat \<Rightarrow> byte list" where
  "rdfstore_ntriples_c2hex ch = [37, hex_digit (ch div 16 mod 16), hex_digit (ch mod 16)]"

definition hex_value :: "byte \<Rightarrow> int" where
  "hex_value c = (if 48 \<le> c \<and> c \<le> 57 then uint c - 48 else if 65 \<le> c \<and> c \<le> 90 then uint c - 55 else sint c - 87)"

definition rdfstore_ntriples_hex2c :: "byte \<Rightarrow> byte \<Rightarrow> int" where
  "rdfstore_ntriples_hex2c x0 x1 = hex_value x0 * 16 + hex_value x1"

section \<open>The label of a statement\<close>

definition digest_label :: "byte list \<Rightarrow> byte list" where
  "digest_label dd = bytes_of ''urn:rdf:SHA-1-'' @ concat (map (\<lambda>b. hex_padded 2 (unat b)) dd)"

definition rdfstore_statement_getLabel :: "(byte list \<Rightarrow> byte list) \<Rightarrow> RDF_Statement \<Rightarrow> byte list \<times> nat" where
  "rdfstore_statement_getLabel sha1 st = (case st_node st of
     Some r \<Rightarrow> (ident r, length (ident r))
   | None \<Rightarrow> (digest_label (rdfstore_digest_get_statement_digest sha1 st None), 9 + length ''SHA-1'' + RDFSTORE_SHA_DIGESTSIZE * 2))"

section \<open>Nodes\<close>

datatype ser_fault = Ser_utf8 utf8_fault | Ser_read | Ser_es | Ser_buffer

definition RDFSTORE_UTF8_MAXLEN :: nat where
  "RDFSTORE_UTF8_MAXLEN = 7"

definition escapes :: "byte \<Rightarrow> byte list option" where
  "escapes = map_of [(0x09, bytes_of [CHR 0x5C, CHR ''t'']), (0x0a, bytes_of [CHR 0x5C, CHR ''n'']),
     (0x0d, bytes_of [CHR 0x5C, CHR ''r'']), (0x5c, [0x5c, 0x5c]), (0x22, [0x5c, 0x22])]"

text \<open>\<open>sprintf\<close> into \<open>es\<close>, which has eight bytes\<close>

definition unicode_escape :: "nat \<Rightarrow> code_point \<Rightarrow> byte list" where
  "unicode_escape utf8_size cp =
     (if utf8_size \<le> 4 then [0x5c, 0x75] @ hex_padded 4 (unat cp) else [0x5c, 0x55] @ hex_padded 8 (unat cp))"

text \<open>
  One character at a position: how far to go on, and what is written; \<open>None\<close> is the return of
  the null pointer. The bytes of a text that is not UTF-8 are copied with the length in
  \<open>utf8_size\<close>, but passed one by one.
\<close>

definition escape_step :: "byte list \<Rightarrow> nat \<Rightarrow> ser_fault + (nat \<times> byte list) option" where
  "escape_step m i =
     (if length m \<le> i then Inl Ser_read
      else (case escapes (m ! i) of
          Some e \<Rightarrow> Inr (Some (1, e))
        | None \<Rightarrow>
            (case rdfstore_utf8_is_utf8 m i of
               Inl e \<Rightarrow> Inl (Ser_utf8 e)
             | Inr (valid, utf8_size) \<Rightarrow>
                 if valid \<and> utf8_size > 1 then
                   (case rdfstore_utf8_utf8_to_cp utf8_size (drop i m) 0 of
                      Inl e \<Rightarrow> Inl (Ser_utf8 e)
                    | Inr (r, cp) \<Rightarrow>
                        if r \<noteq> 0 then Inr None
                        else if length (unicode_escape utf8_size cp) + 1 > 8 then Inl Ser_es
                        else Inr (Some (utf8_size, unicode_escape utf8_size cp)))
                 else if length m < i + utf8_size then Inl Ser_read
                 else Inr (Some (1, take utf8_size (drop i m))))))"

lemma escape_step_positive: "escape_step m i = Inr (Some (k, e)) \<Longrightarrow> 0 < k"
  by (auto simp: escape_step_def split: if_splits option.splits sum.splits prod.splits)

function (sequential) escape_loop :: "byte list \<Rightarrow> nat \<Rightarrow> nat \<Rightarrow> byte list \<Rightarrow> ser_fault + byte list option" where
  "escape_loop m n i buff =
     (if \<not> i < n then Inr (Some buff)
      else case escape_step m i of
        Inl e \<Rightarrow> Inl e
      | Inr None \<Rightarrow> Inr None
      | Inr (Some (k, e)) \<Rightarrow> escape_loop m n (i + k) (buff @ e))"
  by pat_completeness auto
termination
  by (relation "measure (\<lambda>(m, n, i, buff). n - i)")
    (auto dest!: sym [where t = "Inr (Some (_, _))"] escape_step_positive intro: diff_less_mono2)

declare escape_loop.simps [simp del]

text \<open>The text is followed by its zero.\<close>

definition escaped :: "byte list \<Rightarrow> ser_fault + byte list option" where
  "escaped s = escape_loop (s @ [0]) (length s) 0 []"

definition literal_suffix :: "literal \<Rightarrow> byte list" where
  "literal_suffix l =
     (if lang l \<noteq> [] then [0x40] @ lang l else [])
     @ (if parseType l = 1 then bytes_of ''^^<'' @ RDFSTORE_RDF_PARSETYPE_LITERAL @ [0x3e]
        else case dataType l of Some d \<Rightarrow> bytes_of ''^^<'' @ d @ [0x3e] | None \<Rightarrow> [])"

text \<open>The size of the buffer\<close>

definition literal_size :: "literal \<Rightarrow> nat" where
  "literal_size l =
     (case lit_string l of Some s \<Rightarrow> length s * (RDFSTORE_UTF8_MAXLEN + 1 + 2) + 3 | None \<Rightarrow> 0)
     + (if lang l \<noteq> [] then length (lang l) + 1 else 0)
     + (if parseType l = 1 then length RDFSTORE_RDF_PARSETYPE_LITERAL + 4
        else case dataType l of Some d \<Rightarrow> length d + 4 | None \<Rightarrow> 0)"

definition node_size :: "RDF_Node \<Rightarrow> nat" where
  "node_size node = (case node of
     Resource r \<Rightarrow> if rtype r = 0 then length (ident r) * (RDFSTORE_UTF8_MAXLEN + 1 + 2) + 3 else length (ident r) + 3
   | Literal l \<Rightarrow> literal_size l)"

text \<open>The text of a node, without the zero at its end; what does not fit is a fault.\<close>

definition node_text :: "RDF_Node \<Rightarrow> ser_fault + byte list option" where
  "node_text node = (case node of
     Resource r \<Rightarrow>
       if rtype r = 2 then Inr (Some (bytes_of ''_:'' @ ident r))
       else if rtype r = 0 then
         bindE (escaped (ident r)) (\<lambda>e. Inr (map_option (\<lambda>e. [0x3c] @ e @ [0x3e]) e))
       else Inr None
   | Literal l \<Rightarrow>
       bindE (case lit_string l of None \<Rightarrow> Inr (Some []) | Some s \<Rightarrow> escaped s)
         (\<lambda>e. Inr (map_option (\<lambda>e. [0x22] @ e @ [0x22] @ literal_suffix l) e)))"

definition rdfstore_ntriples_node :: "RDF_Node option \<Rightarrow> ser_fault + byte list option" where
  "rdfstore_ntriples_node p = (case p of
     None \<Rightarrow> Inr None
   | Some node \<Rightarrow> bindE (node_text node) (\<lambda>t. case t of
       None \<Rightarrow> Inr None
     | Some t \<Rightarrow> if length t + 1 > node_size node then Inl Ser_buffer else Inr (Some t)))"

section \<open>Statements\<close>

definition RDFMS_type :: "byte list" where
  "RDFMS_type = bytes_of ''http://www.w3.org/1999/02/22-rdf-syntax-ns#type''"

definition RDFMS_predicate :: "byte list" where
  "RDFMS_predicate = bytes_of ''http://www.w3.org/1999/02/22-rdf-syntax-ns#predicate''"

definition RDFMS_subject :: "byte list" where
  "RDFMS_subject = bytes_of ''http://www.w3.org/1999/02/22-rdf-syntax-ns#subject''"

definition RDFMS_object :: "byte list" where
  "RDFMS_object = bytes_of ''http://www.w3.org/1999/02/22-rdf-syntax-ns#object''"

definition RDFMS_Statement :: "byte list" where
  "RDFMS_Statement = bytes_of ''http://www.w3.org/1999/02/22-rdf-syntax-ns#Statement''"

text \<open>The pieces of the text, up to the first that is a fault or the null pointer\<close>

fun pieces :: "(ser_fault + byte list option) list \<Rightarrow> ser_fault + byte list option" where
  "pieces [] = Inr (Some [])"
| "pieces (Inl e # ps) = Inl e"
| "pieces (Inr None # ps) = Inr None"
| "pieces (Inr (Some t) # ps) = bindE (pieces ps) (\<lambda>r. Inr (map_option (\<lambda>r. t @ r) r))"

definition piece :: "byte list \<Rightarrow> ser_fault + byte list option" where
  "piece t = Inr (Some t)"

definition node_piece :: "RDF_Node \<Rightarrow> (ser_fault + byte list option) list" where
  "node_piece n = [rdfstore_ntriples_node (Some n), piece [0x20]]"

definition uri_piece :: "byte list \<Rightarrow> (ser_fault + byte list option) list" where
  "uri_piece u = [piece ([0x3c] @ u @ [0x3e, 0x20])]"

definition reification :: "RDF_Statement \<Rightarrow> resource \<Rightarrow> (ser_fault + byte list option) list" where
  "reification st r =
     [piece [0x0a]] @ node_piece (Resource r) @ uri_piece RDFMS_type @ uri_piece RDFMS_Statement @ [piece [0x2e, 0x20, 0x0a]]
     @ node_piece (Resource r) @ uri_piece RDFMS_subject @ node_piece (Resource (subject st)) @ [piece [0x2e, 0x20, 0x0a]]
     @ node_piece (Resource r) @ uri_piece RDFMS_predicate @ node_piece (Resource (predicate st)) @ [piece [0x2e, 0x20, 0x0a]]
     @ node_piece (Resource r) @ uri_piece RDFMS_object @ node_piece (object st) @ [piece [0x2e, 0x20]]"

definition resource_size :: "resource \<Rightarrow> nat" where
  "resource_size r = (if rtype r = 0 then length (ident r) * (RDFSTORE_UTF8_MAXLEN + 1 + 2) + 4 else length (ident r) + 4)"

definition object_size :: "RDF_Node \<Rightarrow> nat" where
  "object_size n = (case n of Resource r \<Rightarrow> resource_size r | Literal l \<Rightarrow> literal_size l + 1)"

definition statement_size :: "RDF_Statement \<Rightarrow> resource option \<Rightarrow> nat" where
  "statement_size st ctx =
     (let s_len = resource_size (subject st); p_len = resource_size (predicate st); o_len = object_size (object st);
          c_len = (case ctx of None \<Rightarrow> 0 | Some c \<Rightarrow> length (ident c) + 4);
          reification_len = (case st_node st of
              Some r \<Rightarrow> if isreified st \<noteq> 0
                then (length (ident r) + 4) * 4 + (length RDFMS_type + 4) + (length RDFMS_Statement + 4)
                     + (length RDFMS_subject + 4) + s_len + (length RDFMS_predicate + 4) + p_len + (length RDFMS_object + 4) + o_len
                else 0
            | None \<Rightarrow> 0)
      in s_len + p_len + o_len + c_len + 3 + reification_len)"

definition rdfstore_ntriples_statement :: "RDF_Statement option \<Rightarrow> resource option \<Rightarrow> ser_fault + byte list option" where
  "rdfstore_ntriples_statement p given_context = (case p of
     None \<Rightarrow> Inr None
   | Some st \<Rightarrow>
       let ctx = (case given_context of None \<Rightarrow> st_context st | Some c \<Rightarrow> Some c)
       in bindE (pieces (node_piece (Resource (subject st)) @ node_piece (Resource (predicate st)) @ node_piece (object st)
              @ (case ctx of None \<Rightarrow> [] | Some c \<Rightarrow> node_piece (Resource c)) @ [piece [0x2e, 0x20]]
              @ (case st_node st of Some r \<Rightarrow> if isreified st \<noteq> 0 then reification st r else [] | None \<Rightarrow> [])))
            (\<lambda>t. case t of
               None \<Rightarrow> Inr None
             | Some t \<Rightarrow> if length t + 1 > statement_size st ctx then Inl Ser_buffer else Inr (Some t)))"

section \<open>The escaped text\<close>

text \<open>What is written for a character of a text in UTF-8\<close>

definition escaped_char :: "code_point \<Rightarrow> byte list" where
  "escaped_char c =
     (if c < 0x80 then (case escapes (ucast c) of Some e \<Rightarrow> e | None \<Rightarrow> [ucast c])
      else [0x5c, 0x75] @ hex_padded 4 (unat c))"

lemma escapes_high: "x \<ge> 0x80 \<Longrightarrow> escapes x = None"
  by (auto simp: escapes_def word_le_def)

lemma hex_digits_length: "n < 16 ^ k \<Longrightarrow> 0 < k \<Longrightarrow> length (hex_digits n) \<le> k"
proof (induction k arbitrary: n)
  case (Suc k)
  show ?case
  proof (cases "n < 16")
    case False
    then have "0 < k" using Suc.prems(1) by (cases k) simp_all
    moreover have "n div 16 < 16 ^ k" using Suc.prems(1) by (simp add: div_less_iff_less_mult mult.commute)
    ultimately show ?thesis using Suc.IH [of "n div 16"] False by (subst hex_digits.simps) simp
  qed (simp add: hex_digits.simps)
qed simp

lemma hex_padded_length: "length (hex_padded k n) = max k (length (hex_digits n))"
  by (simp add: hex_padded_def)

lemma utf8_lead:
  assumes "c < 0x80000000"
  shows "\<exists>x xs. utf8_bytes c = x # xs \<and> (if c < 0x80 then x = ucast c \<and> xs = [] else x \<ge> 0x80 \<and> xs \<noteq> [])"
proof (cases "c < 0x80")
  case False
  then have c: "c \<ge> 0x80" by simp
  note L = leading [OF utf8_length_bounds [OF c assms]]
  have "leading (utf8_length c) (drop_bit (6 * (utf8_length c - 1)) c) \<ge> 0x80"
    using L(1) by (rule order_trans [rotated]) (simp add: word_le_def)
  moreover have "conts (utf8_length c - 1) c \<noteq> []"
    using utf8_length_bounds(1) [OF c assms] length_conts [of "utf8_length c - 1" c] by (auto simp del: length_conts)
  ultimately show ?thesis using False utf8_bytes_long [OF c assms] by simp
qed (simp add: utf8_bytes_short)

lemma escape_step_char:
  assumes c: "c < 0x100000" and m: "drop i m = utf8_bytes c @ rest"
  shows "escape_step m i = Inr (Some (length (utf8_bytes c), escaped_char c))"
proof -
  have c': "c < 0x80000000" using c by (simp add: word_less_def)
  obtain x xs where x: "utf8_bytes c = x # xs"
    "if c < 0x80 then x = ucast c \<and> xs = [] else x \<ge> 0x80 \<and> xs \<noteq> []"
    using utf8_lead [OF c'] by blast
  have i: "i < length m" "m ! i = x" using m x(1) by (cases "i < length m"; simp add: hd_drop_conv_nth [symmetric])+
  have u: "rdfstore_utf8_is_utf8 m i = Inr (True, length (utf8_bytes c))"
    by (rule is_utf8_complete [OF c']) (simp add: m)
  show ?thesis
  proof (cases "c < 0x80")
    case True
    then show ?thesis using i x u m by (simp add: escape_step_def escaped_char_def split: option.split)
  next
    case False
    then have c0: "c \<ge> 0x80" by simp
    have "length (utf8_bytes c) = utf8_length c"
      using utf8_length_bounds(1) [OF c0 c'] by (auto simp: utf8_bytes_long [OF c0 c'])
    then have len: "length (utf8_bytes c) \<le> 4" "1 < length (utf8_bytes c)"
      using False c by (auto simp: utf8_length_def word_less_def word_le_def)
    have "length (hex_digits (unat c)) \<le> 5" using c by (intro hex_digits_length) (simp_all add: word_less_nat_alt)
    then have "length (unicode_escape (length (utf8_bytes c)) c) + 1 \<le> 8" using len by (simp add: unicode_escape_def hex_padded_def)
    then show ?thesis
      using i x(2) u False len escapes_high [of x] utf8_to_cp_bytes [OF c', of rest 0]
      by (simp add: escape_step_def m escaped_char_def unicode_escape_def)
  qed
qed

lemma escape_loop_text:
  "\<forall>c\<in>set cs. c < 0x100000 \<Longrightarrow> drop i m = utf8_text cs @ rest \<Longrightarrow>
    escape_loop m (i + length (utf8_text cs)) i out = Inr (Some (out @ concat (map escaped_char cs)))"
proof (induction cs arbitrary: i out)
  case (Cons c cs)
  have d: "drop i m = utf8_bytes c @ utf8_text cs @ rest" using Cons.prems(2) by simp
  have step: "escape_step m i = Inr (Some (length (utf8_bytes c), escaped_char c))"
    using Cons.prems(1) d by (intro escape_step_char) auto
  have "drop (i + length (utf8_bytes c)) m = utf8_text cs @ rest"
    using d by (metis append_eq_conv_conj drop_drop add.commute)
  from Cons.IH [OF _ this, of "out @ escaped_char c"] Cons.prems(1)
  have "escape_loop m (i + length (utf8_bytes c) + length (utf8_text cs)) (i + length (utf8_bytes c)) (out @ escaped_char c)
      = Inr (Some (out @ concat (map escaped_char (c # cs))))" by simp
  moreover have "0 < length (utf8_bytes c)" using escape_step_positive [OF step] .
  ultimately show ?case by (subst escape_loop.simps) (simp add: step add.assoc)
qed (simp add: escape_loop.simps)

lemma escaped_text:
  "\<forall>c\<in>set cs. c < 0x100000 \<Longrightarrow> escaped (utf8_text cs) = Inr (Some (concat (map escaped_char cs)))"
  using escape_loop_text [of cs 0 "utf8_text cs @ [0]" "[0]" "[]"] by (simp add: escaped_def)

text \<open>It fits into the buffer.\<close>

lemma escaped_char_length:
  assumes "c < 0x100000"
  shows "length (escaped_char c) \<le> 7 * length (utf8_bytes c)"
proof -
  have c: "c < 0x80000000" using assms by (simp add: word_less_def)
  have "length (hex_digits (unat c)) \<le> 5" using assms by (intro hex_digits_length) (simp_all add: word_less_nat_alt)
  moreover have "length (case escapes x of Some e \<Rightarrow> e | None \<Rightarrow> [x]) \<le> 7" for x
    by (auto simp: escapes_def bytes_of_def)
  ultimately have "length (escaped_char c) \<le> 7"
    by (simp add: escaped_char_def hex_padded_length)
  moreover have "1 \<le> length (utf8_bytes c)" using utf8_lead [OF c] by (cases "utf8_bytes c") simp_all
  ultimately show ?thesis by linarith
qed

lemma escaped_text_length:
  "\<forall>c\<in>set cs. c < 0x100000 \<Longrightarrow> length (concat (map escaped_char cs)) \<le> 7 * length (utf8_text cs)"
proof (induction cs)
  case (Cons c cs)
  then show ?case using escaped_char_length [of c] by simp
qed simp

section \<open>Reading N-Triples\<close>

text \<open>The strings of the grammar of N-Triples, with all its escapes\<close>

definition hex_read :: "byte \<Rightarrow> nat option" where
  "hex_read x = (if 48 \<le> x \<and> x \<le> 57 then Some (unat x - 48) else if 65 \<le> x \<and> x \<le> 70 then Some (unat x - 55) else None)"

definition hex_number :: "byte list \<Rightarrow> nat option" where
  "hex_number xs = foldl (\<lambda>n x. case n of None \<Rightarrow> None | Some n \<Rightarrow> map_option (\<lambda>d. 16 * n + d) (hex_read x)) (Some 0) xs"

definition simple_escape :: "byte \<Rightarrow> code_point option" where
  "simple_escape = map_of [(0x74, 0x09), (0x6e, 0x0a), (0x72, 0x0d), (0x5c, 0x5c), (0x22, 0x22)]"

fun nt_read :: "byte list \<Rightarrow> code_point list option" where
  "nt_read [] = Some []"
| "nt_read (x # xs) =
     (if x \<ge> 0x80 \<or> x = 0x22 then None
      else if x \<noteq> 0x5c then map_option (Cons (ucast x)) (nt_read xs)
      else (case xs of
          [] \<Rightarrow> None
        | e # ys \<Rightarrow>
            (case simple_escape e of
               Some c \<Rightarrow> map_option (Cons c) (nt_read ys)
             | None \<Rightarrow>
                 if e = 0x75 then
                   (if length ys < 4 then None
                    else (case hex_number (take 4 ys) of None \<Rightarrow> None
                      | Some n \<Rightarrow> map_option (Cons (of_nat n)) (nt_read (drop 4 ys))))
                 else if e = 0x55 then
                   (if length ys < 8 then None
                    else (case hex_number (take 8 ys) of None \<Rightarrow> None
                      | Some n \<Rightarrow> map_option (Cons (of_nat n)) (nt_read (drop 8 ys))))
                 else None)))"

lemma hex_read_digit:
  assumes "d < 16"
  shows "hex_read (hex_digit d) = Some d"
proof -
  have "list_all (\<lambda>d. hex_read (hex_digit d) = Some d) [0..<16]" by code_simp
  with assms show ?thesis unfolding list_all_iff by simp
qed

lemma hex_digits_one: "n < 16 \<Longrightarrow> hex_digits n = [hex_digit n]"
  by (simp add: hex_digits.simps)

lemma hex_digits_more: "16 \<le> n \<Longrightarrow> hex_digits n = hex_digits (n div 16) @ [hex_digit (n mod 16)]"
  by (subst hex_digits.simps) simp

lemma hex_padded_4:
  assumes "n < 0x10000"
  shows "hex_padded 4 n = [hex_digit (n div 4096), hex_digit (n div 256 mod 16), hex_digit (n div 16 mod 16), hex_digit (n mod 16)]"
proof -
  have z: "hex_digit 0 = 48" by (simp add: hex_digit_def)
  have d: "n div 16 div 16 = n div 256" "n div 256 div 16 = n div 4096" by (simp_all add: div_mult2_eq [symmetric])
  consider "n < 16" | "16 \<le> n" "n < 256" | "256 \<le> n" "n < 4096" | "4096 \<le> n" by linarith
  then show ?thesis
  proof cases
    case 1 then show ?thesis by (simp add: hex_padded_def hex_digits_one z numeral_3_eq_3)
  next
    case 2
    then have "n div 16 < 16" "n div 256 = 0" "n div 4096 = 0" by (simp_all add: div_less_iff_less_mult)
    then show ?thesis using 2 by (simp add: hex_padded_def hex_digits_more [of n] hex_digits_one z numeral_2_eq_2)
  next
    case 3
    then have "16 \<le> n div 16" "n div 256 < 16" "n div 4096 = 0" by (simp_all add: less_eq_div_iff_mult_less_eq div_less_iff_less_mult)
    then show ?thesis using 3 d by (simp add: hex_padded_def hex_digits_more [of n] hex_digits_more [of "n div 16"] hex_digits_one z)
  next
    case 4
    then have "16 \<le> n div 16" "16 \<le> n div 256" "n div 4096 < 16"
      using assms by (simp_all add: less_eq_div_iff_mult_less_eq div_less_iff_less_mult)
    then show ?thesis using 4 d
      by (simp add: hex_padded_def hex_digits_more [of n] hex_digits_more [of "n div 16"] hex_digits_more [of "n div 256"] hex_digits_one)
  qed
qed

lemma hex_number_4:
  assumes "n < 0x10000"
  shows "length (hex_padded 4 n) = 4" "hex_number (hex_padded 4 n) = Some n"
proof -
  have "n div 4096 < 16" using assms by (simp add: div_less_iff_less_mult)
  moreover have "16 * (n div 4096) + n div 256 mod 16 = n div 256" "16 * (n div 256) + n div 16 mod 16 = n div 16" "16 * (n div 16) + n mod 16 = n"
    using mult_div_mod_eq [of 16 "n div 256"] mult_div_mod_eq [of 16 "n div 16"] mult_div_mod_eq [of 16 n]
    by (simp_all only: div_mult2_eq [symmetric]) simp_all
  ultimately show "length (hex_padded 4 n) = 4" "hex_number (hex_padded 4 n) = Some n"
    by (simp_all add: hex_padded_4 [OF assms] hex_number_def hex_read_digit)
qed

lemma escapes_read: "escapes x = Some e \<Longrightarrow> e = [0x5c, e ! 1] \<and> simple_escape (e ! 1) = Some (ucast x)"
  by (auto simp: escapes_def simple_escape_def bytes_of_def split: if_splits)

lemma ascii_byte:
  fixes c :: code_point
  assumes "c < 0x80"
  shows "ucast (ucast c :: byte) = c" "\<not> (ucast c :: byte) \<ge> 0x80"
proof -
  have low: "n < 7" if "bit c n" for n using small_bits [of c 7 n] assms that by simp
  show "ucast (ucast c :: byte) = c" by (rule bit_word_eqI) (auto simp: bit_simps dest: low)
  show "\<not> (ucast c :: byte) \<ge> 0x80"
    using assms by (simp add: word_less_nat_alt word_le_nat_alt unsigned_ucast_eq take_bit_nat_eq_self)
qed

lemma nt_read_char:
  assumes "c < 0x10000"
  shows "nt_read (escaped_char c @ r) = map_option (Cons c) (nt_read r)"
proof (cases "c < 0x80")
  case True
  let ?x = "ucast c :: byte"
  note x = ascii_byte [OF True]
  show ?thesis
  proof (cases "escapes ?x")
    case None
    then have "?x \<noteq> 0x22 \<and> ?x \<noteq> 0x5c" by (auto simp: escapes_def)
    with None True x show ?thesis by (simp add: escaped_char_def)
  next
    case (Some e)
    then obtain y where y: "e = [0x5c, y]" "simple_escape y = Some (ucast ?x)" using escapes_read by metis
    have "\<not> (0x80 :: byte) \<le> 0x5c" by (simp add: word_le_def)
    with Some True x(1) y show ?thesis by (simp add: escaped_char_def)
  qed
next
  case False
  have n: "unat c < 0x10000" using assms by (simp add: word_less_nat_alt)
  have "\<not> (0x80 :: byte) \<le> 0x5c" by (simp add: word_le_def)
  then show ?thesis using False hex_number_4 [OF n] by (simp add: escaped_char_def simple_escape_def)
qed

lemma nt_read_text: "\<forall>c\<in>set cs. c < 0x10000 \<Longrightarrow> nt_read (concat (map escaped_char cs)) = Some cs"
  by (induction cs) (simp_all add: nt_read_char)

text \<open>Five digits behind \<open>u\<close> read as four digits and a character.\<close>

lemma unat_small: "n < 0x100000 \<Longrightarrow> unat (of_nat n :: code_point) = n"
  by (simp add: unsigned_of_nat take_bit_nat_eq_self)

lemma escaped_one: "n < 0x100000 \<Longrightarrow> escaped (utf8_bytes (of_nat n)) = Inr (Some (escaped_char (of_nat n)))"
  using escaped_text [of "[of_nat n]"] by (simp add: word_less_nat_alt unat_small)

lemma four_bytes:
  assumes "0x10000 \<le> n" and "n < 0x100000"
  shows "length (utf8_bytes (of_nat n)) = 4" "rdfstore_utf8_is_utf8 (utf8_bytes (of_nat n)) 0 = Inr (True, 4)"
proof -
  have c: "(of_nat n :: code_point) \<ge> 0x80" "of_nat n < (0x80000000 :: code_point)" "utf8_length (of_nat n) = 4"
    using assms by (simp_all add: word_less_nat_alt word_le_nat_alt unat_small utf8_length_def)
  then show len: "length (utf8_bytes (of_nat n)) = 4" by (simp add: utf8_bytes_long)
  show "rdfstore_utf8_is_utf8 (utf8_bytes (of_nat n)) 0 = Inr (True, 4)"
    using is_utf8_complete [OF c(2), of 0 "utf8_bytes (of_nat n)"] len by simp
qed

lemma three_bytes:
  assumes "0x10000 \<le> n" and "n < 0x100000"
  shows "length (utf8_bytes (of_nat (n div 16))) = 3" "rdfstore_utf8_is_utf8 (utf8_bytes (of_nat (n div 16)) @ xs) 0 = Inr (True, 3)"
proof -
  have n: "0x1000 \<le> n div 16" "n div 16 < 0x10000"
    using assms by (simp_all add: less_eq_div_iff_mult_less_eq div_less_iff_less_mult)
  have c: "(of_nat (n div 16) :: code_point) \<ge> 0x80" "of_nat (n div 16) < (0x80000000 :: code_point)" "utf8_length (of_nat (n div 16)) = 3"
    using n by (simp_all add: word_less_nat_alt word_le_nat_alt unat_small utf8_length_def)
  then show len: "length (utf8_bytes (of_nat (n div 16))) = 3" by (simp add: utf8_bytes_long)
  show "rdfstore_utf8_is_utf8 (utf8_bytes (of_nat (n div 16)) @ xs) 0 = Inr (True, 3)"
    using is_utf8_complete [OF c(2), of 0 "utf8_bytes (of_nat (n div 16)) @ xs"] len by simp
qed

lemma hex_digit_char:
  assumes "d < 16"
  shows "(ucast (hex_digit d) :: code_point) < 0x80" "escapes (hex_digit d) = None" "utf8_bytes (ucast (hex_digit d)) = [hex_digit d]"
    "ucast (ucast (hex_digit d) :: code_point) = hex_digit d"
proof -
  have "list_all (\<lambda>d. (ucast (hex_digit d) :: code_point) < 0x80 \<and> escapes (hex_digit d) = None
      \<and> ucast (ucast (hex_digit d) :: code_point) = hex_digit d) [0..<16]" by code_simp
  with assms show c: "(ucast (hex_digit d) :: code_point) < 0x80" "escapes (hex_digit d) = None"
    and u: "ucast (ucast (hex_digit d) :: code_point) = hex_digit d" unfolding list_all_iff by simp_all
  show "utf8_bytes (ucast (hex_digit d)) = [hex_digit d]" using u by (simp add: utf8_bytes_short [OF c(1)])
qed

lemma hex_four_digits: "0x1000 \<le> n \<Longrightarrow> n < 0x10000 \<Longrightarrow> length (hex_digits n) = 4"
proof -
  assume n: "0x1000 \<le> n" "n < 0x10000"
  then have "16 \<le> n div 16" "16 \<le> n div 16 div 16" "n div 16 div 16 div 16 < 16"
    by (simp_all add: div_mult2_eq [symmetric] less_eq_div_iff_mult_less_eq div_less_iff_less_mult)
  then show ?thesis using n by (simp add: hex_digits_more [of n] hex_digits_more [of "n div 16"]
      hex_digits_more [of "n div 16 div 16"] hex_digits_one del: div_mult2_eq)
qed

lemma escaped_two:
  assumes "0x10000 \<le> n" and "n < 0x100000"
  shows "escaped (utf8_bytes (of_nat (n div 16)) @ [hex_digit (n mod 16)]) = Inr (Some (escaped_char (of_nat n)))"
proof -
  have n: "0x1000 \<le> n div 16" "n div 16 < 0x10000"
    using assms by (simp_all add: less_eq_div_iff_mult_less_eq div_less_iff_less_mult)
  note h = hex_digit_char [of "n mod 16", simplified]
  have "escaped (utf8_text [of_nat (n div 16), ucast (hex_digit (n mod 16))])
      = Inr (Some (concat (map escaped_char [of_nat (n div 16), ucast (hex_digit (n mod 16))])))"
    using n h(1) by (intro escaped_text) (auto simp: word_less_nat_alt unat_small)
  moreover have "\<not> (of_nat (n div 16) :: code_point) < 0x80" "\<not> (of_nat n :: code_point) < 0x80"
    using n assms by (simp_all add: word_less_nat_alt unat_small)
  moreover have "hex_digits n = hex_digits (n div 16) @ [hex_digit (n mod 16)]" using assms by (intro hex_digits_more) simp
  moreover have "length (hex_digits (n div 16)) = 4"
    using n by (rule hex_four_digits)
  ultimately show ?thesis using h n assms(2)
    by (simp add: escaped_char_def hex_padded_def unat_small)
qed

section \<open>Properties\<close>


text \<open>C40. A character above FFFF is written with five digits behind the escape for four: two
  different literals have the same N-Triples text.\<close>

theorem ntriples_ambiguous:
  assumes "0x10000 \<le> n" and "n < 0x100000"
    and "lit_string a = Some (utf8_bytes (of_nat n))"
    and "b = a\<lparr>lit_string := Some (utf8_bytes (of_nat (n div 16)) @ [hex_digit (n mod 16)])\<rparr>"
  shows "rdfstore_ntriples_node (Some (Literal a)) = rdfstore_ntriples_node (Some (Literal b)) \<and> lit_string a \<noteq> lit_string b"
proof -
  have N: "escaped (utf8_bytes (of_nat n)) = Inr (Some (escaped_char (of_nat n)))"
    "length (utf8_bytes (of_nat n)) = 4" "rdfstore_utf8_is_utf8 (utf8_bytes (of_nat n)) 0 = Inr (True, 4)"
    using escaped_one [of n] four_bytes [OF assms(1,2)] assms(2) by simp_all
  have M: "escaped (utf8_bytes (of_nat (n div 16)) @ [hex_digit (n mod 16)]) = Inr (Some (escaped_char (of_nat n)))"
    "length (utf8_bytes (of_nat (n div 16))) = 3"
    "rdfstore_utf8_is_utf8 (utf8_bytes (of_nat (n div 16)) @ [hex_digit (n mod 16)]) 0 = Inr (True, 3)"
    using escaped_two [OF assms(1,2)] three_bytes [OF assms(1,2)] by simp_all
  have "utf8_bytes (of_nat n) \<noteq> utf8_bytes (of_nat (n div 16)) @ [hex_digit (n mod 16)]" using N(3) M(3) by auto
  moreover have "literal_size a = literal_size b" "literal_suffix a = literal_suffix b"
    using assms(3,4) N(2) M(2) by (simp_all add: literal_size_def literal_suffix_def)
  ultimately show ?thesis
    using assms(3,4) N(1) M(1) by (simp add: rdfstore_ntriples_node_def node_text_def node_size_def)
qed

lemma local_loop_cases:
  "(\<exists>i<k. rdfstore_is_xml_name (drop i uri) \<and> (\<forall>j<i. \<not> rdfstore_is_xml_name (drop j uri)) \<and> local_loop uri k best = Some i)
    \<or> (\<forall>i<k. \<not> rdfstore_is_xml_name (drop i uri)) \<and> local_loop uri k best = best"
proof (induction k arbitrary: best)
  case (Suc k)
  show ?case
  proof (cases "\<exists>i<k. rdfstore_is_xml_name (drop i uri)")
    case True
    with Suc.IH [of "if rdfstore_is_xml_name (drop k uri) then Some k else best"] show ?thesis by (auto intro: less_SucI)
  next
    case False
    with Suc.IH [of "if rdfstore_is_xml_name (drop k uri) then Some k else best"]
    have "local_loop uri (Suc k) best = (if rdfstore_is_xml_name (drop k uri) then Some k else best)" by auto
    with False show ?thesis by (cases "rdfstore_is_xml_name (drop k uri)") (auto simp: less_Suc_eq)
  qed
qed simp

theorem localname_splits:
  "\<exists>n\<le>length uri. rdfstore_get_localname (Some uri) = Some n \<and> rdfstore_get_namespace (Some uri) = n
    \<and> (if \<exists>i. rdfstore_is_xml_name (drop i uri)
       then rdfstore_is_xml_name (drop n uri) \<and> (\<forall>i<n. \<not> rdfstore_is_xml_name (drop i uri)) else n = 0)"
proof -
  have past: "rdfstore_is_xml_name (drop i uri) \<Longrightarrow> i < length uri" for i by (rule ccontr) simp
  consider n where "n < length uri" "rdfstore_is_xml_name (drop n uri)" "\<forall>j<n. \<not> rdfstore_is_xml_name (drop j uri)"
      "local_loop uri (length uri) None = Some n"
    | "\<not> (\<exists>i. rdfstore_is_xml_name (drop i uri))" "local_loop uri (length uri) None = None"
    using local_loop_cases [of "length uri" uri None] past by (elim disjE exE conjE) metis+
  then show ?thesis
  proof cases
    case (1 n)
    then show ?thesis
      by (intro exI [of _ n]) (auto simp: rdfstore_get_localname_def rdfstore_get_namespace_def)
  next
    case 2
    then show ?thesis by (auto simp: rdfstore_get_localname_def rdfstore_get_namespace_def)
  qed
qed

section \<open>Room for a statement\<close>

text \<open>Texts the escapes can hold, and identifiers that need none\<close>

definition fits_utf8 :: "byte list \<Rightarrow> bool" where
  "fits_utf8 s \<longleftrightarrow> (\<exists>cs. s = utf8_text cs \<and> (\<forall>c\<in>set cs. c < 0x100000))"

definition printable :: "RDF_Node \<Rightarrow> bool" where
  "printable n = (case n of
     Resource r \<Rightarrow> rtype r = 2 \<or> rtype r = 0 \<and> fits_utf8 (ident r)
   | Literal l \<Rightarrow> (\<exists>s. lit_string l = Some s \<and> fits_utf8 s))"

definition verbatim :: "resource \<Rightarrow> bool" where
  "verbatim r \<longleftrightarrow> rtype r = 2 \<or> rtype r = 0 \<and> escaped (ident r) = Inr (Some (ident r))"

lemma fits_escaped: "fits_utf8 s \<Longrightarrow> \<exists>e. escaped s = Inr (Some e) \<and> length e \<le> 7 * length s"
  unfolding fits_utf8_def using escaped_text escaped_text_length by blast

lemma literal_size_suffix:
  "lit_string l = Some s \<Longrightarrow> literal_size l = 10 * length s + 3 + length (literal_suffix l)"
  by (auto simp: literal_size_def literal_suffix_def RDFSTORE_UTF8_MAXLEN_def bytes_of_def split: option.split)

lemma printable_node:
  assumes "printable n"
  shows "\<exists>t. rdfstore_ntriples_node (Some n) = Inr (Some t) \<and> length t + 2 \<le> object_size n"
proof (cases n)
  case (Resource r)
  show ?thesis
  proof (cases "rtype r = 2")
    case False
    then obtain e where "rtype r = 0" "escaped (ident r) = Inr (Some e)" "length e \<le> 7 * length (ident r)"
      using assms fits_escaped Resource by (auto simp: printable_def)
    then show ?thesis using Resource
      by (simp add: rdfstore_ntriples_node_def node_text_def node_size_def object_size_def resource_size_def RDFSTORE_UTF8_MAXLEN_def)
  qed (use Resource in \<open>simp add: rdfstore_ntriples_node_def node_text_def node_size_def object_size_def resource_size_def bytes_of_def\<close>)
next
  case (Literal l)
  then obtain s where s: "lit_string l = Some s" "fits_utf8 s" using assms by (auto simp: printable_def)
  from fits_escaped [OF s(2)] obtain e where "escaped s = Inr (Some e)" "length e \<le> 7 * length s" by blast
  with s(1) show ?thesis using Literal
    by (simp add: rdfstore_ntriples_node_def node_text_def node_size_def object_size_def literal_size_suffix)
qed

lemma verbatim_node:
  "verbatim r \<Longrightarrow> \<exists>t. rdfstore_ntriples_node (Some (Resource r)) = Inr (Some t) \<and> length t + 2 \<le> length (ident r) + 4"
  by (auto simp: verbatim_def rdfstore_ntriples_node_def node_text_def node_size_def RDFSTORE_UTF8_MAXLEN_def bytes_of_def)

lemma resource_object_size: "object_size (Resource r) = resource_size r"
  by (simp add: object_size_def)

lemma pieces_append:
  "pieces ps = Inr (Some a) \<Longrightarrow> pieces (ps @ qs) = bindE (pieces qs) (\<lambda>r. Inr (map_option (\<lambda>r. a @ r) r))"
proof (induction ps arbitrary: a rule: pieces.induct)
  case (4 t ps)
  then obtain b where b: "pieces ps = Inr (Some b)" "a = t @ b" by (auto simp: bindE_Inr_iff)
  with 4 show ?case by (cases "pieces qs") (auto simp: option.map_comp comp_def)
next
  case 1
  then show ?case by (cases "pieces qs") (auto simp: option.map_ident)
qed simp_all

lemma context_pieces:
  "\<forall>c. ctx = Some c \<longrightarrow> verbatim c \<Longrightarrow> \<exists>C. pieces (case ctx of None \<Rightarrow> [] | Some c \<Rightarrow> node_piece (Resource c)) = Inr (Some C)
    \<and> length C \<le> (case ctx of None \<Rightarrow> 0 | Some c \<Rightarrow> length (ident c) + 4)"
proof (cases ctx)
  case (Some c)
  assume "\<forall>c. ctx = Some c \<longrightarrow> verbatim c"
  then obtain t where "rdfstore_ntriples_node (Some (Resource c)) = Inr (Some t)" "length t + 2 \<le> length (ident c) + 4"
    using verbatim_node Some by blast
  then show ?thesis using Some by (simp add: node_piece_def piece_def)
qed simp

definition reification_size :: "RDF_Statement \<Rightarrow> nat" where
  "reification_size st = (case st_node st of
     Some r \<Rightarrow> if isreified st \<noteq> 0
       then (length (ident r) + 4) * 4 + (length RDFMS_type + 4) + (length RDFMS_Statement + 4) + (length RDFMS_subject + 4)
         + resource_size (subject st) + (length RDFMS_predicate + 4) + resource_size (predicate st) + (length RDFMS_object + 4)
         + object_size (object st) else 0
   | None \<Rightarrow> 0)"

lemma statement_size_parts:
  "statement_size st ctx = resource_size (subject st) + resource_size (predicate st) + object_size (object st)
    + (case ctx of None \<Rightarrow> 0 | Some c \<Rightarrow> length (ident c) + 4) + 3 + reification_size st"
  by (simp add: statement_size_def reification_size_def Let_def split: option.split)

lemma reification_pieces:
  assumes "rdfstore_ntriples_node (Some (Resource (subject st))) = Inr (Some s)" "length s + 2 \<le> resource_size (subject st)"
    "rdfstore_ntriples_node (Some (Resource (predicate st))) = Inr (Some p)" "length p + 2 \<le> resource_size (predicate st)"
    "rdfstore_ntriples_node (Some (object st)) = Inr (Some b)" "length b + 2 \<le> object_size (object st)"
    and "\<forall>r. st_node st = Some r \<longrightarrow> isreified st \<noteq> 0 \<longrightarrow> verbatim r"
  shows "\<exists>R. pieces (case st_node st of Some r \<Rightarrow> if isreified st \<noteq> 0 then reification st r else [] | None \<Rightarrow> []) = Inr (Some R)
    \<and> length R \<le> reification_size st"
proof (cases "\<exists>r. st_node st = Some r \<and> isreified st \<noteq> 0")
  case True
  then obtain r where r: "st_node st = Some r" "isreified st \<noteq> 0" by blast
  then obtain t where t: "rdfstore_ntriples_node (Some (Resource r)) = Inr (Some t)" "length t + 2 \<le> length (ident r) + 4"
    using verbatim_node assms(7) by blast
  then show ?thesis using r assms(1-6)
    by (simp add: reification_def node_piece_def uri_piece_def piece_def reification_size_def)
qed (auto simp: reification_size_def split: option.split)


section \<open>Instances\<close>

definition plain_literal :: "byte list \<Rightarrow> literal" where
  "plain_literal s = \<lparr>lit_string = Some s, parseType = 0, lang = bytes_of ''en'', dataType = None\<rparr>"


theorem ntriples_ambiguous_witness:
  "rdfstore_ntriples_node (Some (Literal (plain_literal (utf8_bytes 0x1F600))))
      = rdfstore_ntriples_node (Some (Literal (plain_literal (utf8_bytes 0x1F60 @ [0x30]))))
    \<and> lit_string (plain_literal (utf8_bytes 0x1F600)) \<noteq> lit_string (plain_literal (utf8_bytes 0x1F60 @ [0x30]))"
  by (rule ntriples_ambiguous [of "0x1F600"]) (simp_all add: plain_literal_def hex_digit_def)

definition reified_statement :: RDF_Statement where
  "reified_statement = \<lparr>subject = \<lparr>rtype = 2, ident = bytes_of ''a''\<rparr>, predicate = \<lparr>rtype = 0, ident = utf8_text [0x70]\<rparr>,
     object = Literal (plain_literal (utf8_text [0x20ac])), st_context = Some \<lparr>rtype = 2, ident = bytes_of ''c''\<rparr>,
     st_node = Some \<lparr>rtype = 2, ident = bytes_of ''n''\<rparr>, hashcode = 0, isreified = 1\<rparr>"


end
