(* ===== verification/Spec2Isabelle.thy ===== *)
theory Spec2Isabelle
  imports Prelude Bits Flatdb Statement Cdll Caching Bdb Iterator MyCompress Fraenkel Compress
    Digest Kernel Store Queries Pattern Search Results Ranges
    Foldtable Utf8 Casefold Access Server ServerRuns Remote Session Serializer
begin

text \<open>
  RDFStore is a store of RDF statements written in C. A statement is kept under an integer
  identifier in flat tables (key to bytes); sets of statements are bit vectors over the
  identifiers. A program inserts, removes and searches statements (\<open>rdfstore_kernel.c\<close>) and
  walks the results with iterators (\<open>rdfstore_iterator.c\<close>). The tables live behind one
  interface of backend operations (\<open>include/backend_store.h\<close>): in Berkeley DB files
  (\<open>backend_bdb_store.c\<close>), behind a write-back cache (\<open>backend_caching_store.c\<close>), or at a
  remote server. All file names below are relative to \<open>src/\<close>.

  The theories, in the order in which they build on one another:

  \<^item> \<open>Prelude\<close>: bytes and 32-bit words, memory as a function from addresses to bytes, the bits
    of a vector as a set, the error monad \<open>bindE\<close>, C strings, \<open>packInt\<close> and \<open>unpackInt\<close>.
  \<^item> \<open>Bits\<close> (\<open>rdfstore_bits.c\<close>, whole): one definition per function, under its name; loops
    are recursive functions with their measure. The lemmas give each function its meaning on
    sets of bits.
  \<^item> \<open>Flatdb\<close> (\<open>include/backend_store.h\<close>, \<open>include/rdfstore_flat_store.h\<close>): the record
    \<open>backend\<close> of operations, the error codes, and the locales \<open>flat_table\<close> and
    \<open>flat_cursor\<close>, the contract between a backend and its client: after any operation the
    backend represents the map that the operation makes of the map it represented, and
    answers what the map says; \<open>bounded_table\<close> asks this of keys and values within bounds. In it whole histories of operations are shown to
    run as on the map.
  \<^item> \<open>Statement\<close> (\<open>rdfstore_insert\<close> and \<open>rdfstore_iterator_fetch_statement\<close>): nodes and
    statements as in \<open>include/rdfstore.h\<close>, the record written for a statement and its
    decoder, with reads outside the record as errors.
  \<^item> \<open>Cdll\<close> and \<open>Caching\<close> (\<open>backend_caching_store.c\<close>): the circular list of cells on an
    explicit heap, the sorted index, the eviction. It is refined to a list of records in LRU
    order (\<open>lru_key\<close>), and that list to a map laid over the map of the backend below; the
    caching backend gives \<open>flat_cursor\<close> when the backend below does.
  \<^item> \<open>Bdb\<close> (\<open>backend_bdb_store.c\<close>): the operations over the database functions, which are
    the fields of a parameter \<open>db\<close> with the hypotheses \<open>db_laws\<close> taken from their
    documentation; \<open>memdb\<close> is an instance of them, an association list. The
    interpretations of the locales on the model are here: the BDB backend over \<open>memdb\<close>, and
    the cache over that.
  \<^item> \<open>Iterator\<close> (\<open>rdfstore_iterator.c\<close>, and \<open>rdfstore_elements\<close> of \<open>rdfstore_kernel.c\<close>): an
    iterator is its bit vector, size, position and counter; the abstraction is the set
    \<open>ids_of\<close>. Walks are shown to enumerate this set in increasing order, set operations to
    compute on it.
  \<^item> \<open>MyCompress\<close> (\<open>my_compress.c\<close>), \<open>Fraenkel\<close> (\<open>fraenkel_compress.c\<close>) and \<open>Compress\<close>
    (\<open>rdfstore_compress.c\<close>): the coders of bit vectors with their round trips, and the choice
    of a pair. The coders of the vendored SFL library are the fields of a parameter.
  \<^item> \<open>Digest\<close> (\<open>rdfstore_digest.c\<close>): what is hashed for a node and a statement, over SHA-1 as
    a parameter.
  \<^item> \<open>Kernel\<close> (\<open>rdfstore_insert\<close> and \<open>rdfstore_remove\<close>): each function is the list of its
    steps on the store, run one after the other until one returns a code. The locale
    \<open>kernel\<close> is the contract of what they call (\<open>exact_table\<close>, a table that also tells
    exactly whether a deleted key was there, and a lossless pair of coders); in it every step
    is shown to do on the tables what an update does on abstract tables (\<open>kview\<close>: maps, and
    sets of identifiers under keys).
  \<^item> \<open>Store\<close>: the invariant \<open>store_holds\<close> (the tables represent a map from identifiers to
    statements) and its preservation by insertion and removal; the specification \<open>quad_calls\<close>
    of a store as a set; the interpretation of \<open>kernel\<close> on Berkeley DB tables.
  \<^item> \<open>Queries\<close>: \<open>rdfstore_size\<close>, \<open>rdfstore_contains\<close>, the default context, the counters
    made at connection, and the properties that join all parts of the store.

  \<^item> \<open>Session\<close>: \<open>rdfstore_disconnect\<close> and \<open>rdfstore_iterator_close\<close>. Iterators keep the store
    they belong to alive; the last one closes it.

  \<^item> \<open>Pattern\<close>: triple patterns and their constructors, with the type invariant the search
    checks. \<open>Search\<close>: \<open>rdfstore_search\<close> with all its components and ranges, as a list of
    steps on the state of its buffers; the lemmas relate what a component gathers, and what is
    joined, to sets of identifiers. \<open>Results\<close>: what a search returns on a store that holds
    statements. \<open>Ranges\<close>: searches over ranges of numbers and dates, under the contract
    \<open>range_kernel\<close> of trees whose cursor walks the keys in order.

  \<^item> \<open>Foldtable\<close>, \<open>Utf8\<close> and \<open>Casefold\<close> (\<open>rdfstore_utf8.c\<close>, whole): the case folding table, the
    encoding of code points with the test of a character, and the conversion and folding of
    strings, shown to be functions on code points that stay inside the string.

  \<^item> \<open>Serializer\<close> (\<open>rdfstore_serializer.c\<close>, whole): statements as N-Triples, read back with the
    grammar, and the room in the buffers.

  \<^item> \<open>Access\<close> (\<open>dbms/deamon/conf.c\<close>): the configuration of the server, the parser of its file
    and the level of access it gives an address on a database. Files in the documented form
    are shown to be parsed into what they say.

  \<^item> \<open>Server\<close> (\<open>handler.c\<close>, \<open>pathmake.c\<close> and parts of \<open>deamon.c\<close>, \<open>children.c\<close> and \<open>loop.c\<close>
    in \<open>dbms/deamon\<close>): the process of the server that handles databases. Its state is the list of
    connections, the list of open databases and the files; each command is a function that
    returns the state and the replies, or how the process ended; \<open>serves\<close> is the step of the
    main loop. Memory that is freed while it is still pointed to is an outcome of its own.
    \<open>ServerRuns\<close>: the invariants of the reachable states, the safety of the levels, and the
    requests the process does not survive.

  \<^item> \<open>Remote\<close> (\<open>backend_dbms_store.c\<close>, \<open>dbms/libdbms/libdbms.c\<close>, \<open>initial_read\<close> and
    \<open>dispatch\<close>): the backend of a remote table, the library with its reconnections over a socket
    that is a parameter, and the bytes of the messages. Connected to the process of \<open>Server\<close>
    it gives the contract \<open>bounded_table\<close>, a flat table for what fits into a message.

  Conventions. A pointer that may be null is an option; an assertion that fails, an \<open>exit\<close> and
  a read outside an object are values of error types. Allocation succeeds. Sizes and
  positions of bit vectors are natural numbers: the code bounds them by
  \<open>RDFSTORE_MAXRECORDS\<close>, far below the width of its integers; stored integers are 32-bit
  words and wrap. Loops that can run on for ever (those of \<open>rdfstore_elements\<close> and of the
  ranges over a cursor) are \<open>partial_function (option)\<close>, and the theorems about them state that they
  return. The only fuel is that of the client loop \<open>remove_walk\<close>, the number of elements
  plus one, which its theorem shows to be enough; the tries of \<open>dbms_comms\<close> are those of the code.

  Some properties state a behaviour the code hardly intends: the truncation of \<open>subtract\<close> and
  \<open>complement\<close>, the end of \<open>each_context\<close> at a statement without context, the removal of
  every other element in a walk, the error that the cache forgets, the data type taken for a
  parse type, the overruns of \<open>rdfstore_bits_and2\<close>, of the buffer of a record and of the
  Fraenkel decoder, the comparison of integer keys, the default context that \<open>contains\<close> does
  not see, the refused insertion into a second context, the removal that the cache makes
  incomplete, the words that a removal takes from other statements, the count of a refused
  insertion, what a search makes of the operator and, the foldings to several characters, the
  clients a dropped or refused database leaves behind, the keys that walks over one cursor skip,
  the sync that a remote table reports as failed, and what the client makes of a lost connection
  and of a value that is too big.

  Not modelled: the index of connections (\<open>RDFSTORE_CONNECTIONS\<close>, off in the default build),
  \<open>rdfstore_fetch_object\<close>, opening files and tables, XSD
  routines (parameters of \<open>kernel_env\<close>, like the folding there), the vendored SHA-1 and
  SFL code, the Perl bindings, and the tools, which are input and output around the library.
  Of the server, the main process: it forks, hands descriptors over and waits for signals; and the
  buffered sending and reading of messages in \<open>deamon.c\<close>. A request arrives whole.
\<close>

end
